(* ===== verification/Prelude.thy ===== *)
theory Prelude
  imports Main "HOL-Library.Word"
begin

text \<open>
  Shared vocabulary of the development: names for the machine integers the C++ code uses, the
  collection \<open>wordsimps\<close> that turns the bit operations of the sources into arithmetic on
  \<open>nat\<close>, generic facts on words, lists and options that several components need, and the
  locale of loops whose steps make progress.
\<close>

unbundle bit_operations_syntax

section \<open>Machine integers\<close>

type_synonym u8 = "8 word"
type_synonym u16 = "16 word"
type_synonym u32 = "32 word"

named_theorems wordsimps "bit operations of the sources as arithmetic on nat"

lemma mask6_word: "(0x3F :: 'a::len word) = mask 6"
  by (simp add: mask_eq_exp_minus_1)

lemma mask10_word: "(0x3FF :: 'a::len word) = mask 10"
  by (simp add: mask_eq_exp_minus_1)

lemma mask5_word: "(0x1F :: 'a::len word) = mask 5"
  by (simp add: mask_eq_exp_minus_1)

lemma mask4_word: "(0x0F :: 'a::len word) = mask 4"
  by (simp add: mask_eq_exp_minus_1)

lemma mask3_word: "(0x07 :: 'a::len word) = mask 3"
  by (simp add: mask_eq_exp_minus_1)

lemma unat_and_mask [wordsimps]: "unat (w AND mask n) = unat w mod 2 ^ n" for w :: "'a::len word"
  by (metis take_bit_eq_mask take_bit_eq_mod unsigned_take_bit_eq)

lemma unat_drop_bit_div [wordsimps]: "unat (drop_bit n w) = unat w div 2 ^ n" for w :: "'a::len word"
proof -
  have "unat (drop_bit n w) = drop_bit n (unat w)"
    using take_bit_nat_eq_self [of "unat w" "LENGTH('a)"]
    by (simp add: unsigned_drop_bit_eq unsigned_less)
  then show ?thesis by (simp add: drop_bit_eq_div)
qed

lemma unat_or_disjoint:
  fixes a b :: "'a::len word"
  assumes "unat a = 2 ^ n * k" and "unat b < 2 ^ n"
  shows "unat (a OR b) = unat a + unat b"
proof -
  have "take_bit n (unat a) = 0"
    using assms(1) by (simp add: take_bit_eq_mod)
  moreover have "drop_bit n (unat b) = 0"
    using assms(2) by (simp add: drop_bit_eq_div)
  ultimately have "\<not> bit (unat a) m \<or> \<not> bit (unat b) m" for m
    by (metis bit_take_bit_iff bit_drop_bit_eq bit_0_eq bot_apply bot_bool_def le_add_diff_inverse not_less comp_apply)
  then have "unat a OR unat b = unat a + unat b"
    by (metis disjunctive_add_eq_or and.commute bit_and_iff bit_eqI bit_0_eq bot_apply bot_bool_def)
  then show ?thesis by (simp add: unsigned_or_eq)
qed

lemma unat_ucast_mod [wordsimps]: "unat (ucast w :: 'b::len word) = unat w mod 2 ^ LENGTH('b)"
  for w :: "'a::len word"
  by (simp add: unsigned_ucast_eq take_bit_eq_mod)

lemma unat_push_or_mask:
  fixes w x :: u32
  assumes "unat w < 2 ^ 26"
  shows "unat (push_bit 6 w OR (x AND 0x3F)) = unat w * 64 + unat x mod 64"
proof -
  have "unat (push_bit 6 w) = 2 ^ 6 * unat w"
    using assms by (simp add: push_bit_eq_mult unat_word_ariths)
  moreover have "unat (x AND 0x3F) = unat x mod 64"
    by (simp add: mask6_word wordsimps)
  ultimately show ?thesis
    by (subst unat_or_disjoint [where n = 6 and k = "unat w"]) simp_all
qed

section \<open>Containers of the C++ library\<close>

text \<open>\<open>size_t\<close> has 64 bits on the targets; \<open>resize\<close> is \<open>std::vector::resize\<close>.\<close>

definition size_max :: nat where
  "size_max = 2 ^ 64 - 1"

definition resize :: "nat \<Rightarrow> 'a \<Rightarrow> 'a list \<Rightarrow> 'a list" where
  "resize n d xs = take n xs @ replicate (n - length xs) d"

lemma length_resize [simp]: "length (resize n d xs) = n"
  by (simp add: resize_def)

lemma resize_same: "length xs = n \<Longrightarrow> resize n d xs = xs"
  by (simp add: resize_def)

lemma upt_split: "a \<le> b \<Longrightarrow> b \<le> c \<Longrightarrow> [a..<c] = [a..<b] @ [b..<c]"
  by (metis le_Suc_ex upt_add_eq_append)

section \<open>Loops\<close>

text \<open>\<open>for (i = a; i < b; ++i) s = f i s\<close>.\<close>

definition for_range :: "nat \<Rightarrow> nat \<Rightarrow> (nat \<Rightarrow> 's \<Rightarrow> 's) \<Rightarrow> 's \<Rightarrow> 's" where
  "for_range a b f s = fold f [a..<b] s"

lemma for_range_cong [fundef_cong]:
  "a = a' \<Longrightarrow> b = b' \<Longrightarrow> s = s' \<Longrightarrow> (\<And>i s. a' \<le> i \<Longrightarrow> i < b' \<Longrightarrow> f i s = g i s)
    \<Longrightarrow> for_range a b f s = for_range a' b' g s'"
  unfolding for_range_def by (intro fold_cong) auto

lemma for_range_empty [simp]: "b \<le> a \<Longrightarrow> for_range a b f s = s"
  by (simp add: for_range_def)

lemma for_range_Suc [simp]: "a \<le> b \<Longrightarrow> for_range a (Suc b) f s = f b (for_range a b f s)"
  by (simp add: for_range_def)

lemma for_range_front: "a < b \<Longrightarrow> for_range a b f s = for_range (Suc a) b f (f a s)"
  by (simp add: for_range_def upt_conv_Cons)

lemma for_range_invariant:
  assumes "P a s" and "\<And>i s. a \<le> i \<Longrightarrow> i < b \<Longrightarrow> P i s \<Longrightarrow> P (Suc i) (f i s)" and "a \<le> b"
  shows "P b (for_range a b f s)"
  using assms(3,2) by (induction b rule: dec_induct) (simp_all add: assms(1))

lemma for_range_split: "a \<le> b \<Longrightarrow> b \<le> c \<Longrightarrow> for_range a c f s = for_range b c f (for_range a b f s)"
  by (simp add: for_range_def upt_split [of a b c])

lemma for_range_accumulate:
  fixes g :: "nat \<Rightarrow> 'a::comm_monoid_add"
  shows "for_range 0 m (\<lambda>t xs. xs[j := xs ! j + g t]) (xs[j := 0]) = xs[j := (\<Sum>t<m. g t)]"
proof (cases "j < length xs")
  case True
  then show ?thesis by (induction m) simp_all
next
  case False
  then have upd: "ys[j := v] = ys" if "length ys = length xs" for ys and v :: 'a
    using that False by (simp add: list_update_beyond)
  have "for_range 0 m (\<lambda>t xs. xs[j := xs ! j + g t]) xs = xs"
    by (induction m) (simp_all add: upd)
  then show ?thesis by (simp add: upd)
qed

lemma length_for_range_update [simp]:
  "length (for_range a n (\<lambda>k xs. xs[j k := h k xs]) xs) = length xs"
proof (cases "a \<le> n")
  case True
  show ?thesis
    by (rule for_range_invariant [where P = "\<lambda>i ys. length ys = length xs", OF _ _ True]) simp_all
qed simp

lemma nth_for_range_update:
  "i < length xs \<Longrightarrow>
    for_range 0 n (\<lambda>k xs. xs[j + k := h k]) xs ! i = (if j \<le> i \<and> i < j + n then h (i - j) else xs ! i)"
proof (induction n)
  case (Suc n)
  then show ?case by (cases "i = j + n") auto
qed auto

text \<open>\<open>for (; i + w <= n; i += w) s = f i s\<close>, the vectorised prefix of a loop, with the index it
  leaves behind.\<close>

function lanes_loop :: "nat \<Rightarrow> nat \<Rightarrow> (nat \<Rightarrow> 's \<Rightarrow> 's) \<Rightarrow> nat \<Rightarrow> 's \<Rightarrow> nat \<times> 's" where
  "lanes_loop w n f i s = (if 0 < w \<and> i + w \<le> n then lanes_loop w n f (i + w) (f i s) else (i, s))"
  by pat_completeness auto
termination by (relation "measure (\<lambda>(w, n, f, i, s). Suc n - i)") auto

declare lanes_loop.simps [simp del]

text \<open>A vector store.\<close>

definition store_block :: "nat \<Rightarrow> 'a list \<Rightarrow> 'a list \<Rightarrow> 'a list" where
  "store_block pos vs xs = for_range 0 (length vs) (\<lambda>l xs. xs[pos + l := vs ! l]) xs"

text \<open>When the vector body does what \<open>w\<close> scalar iterations do, the two loops together do what the
  scalar loop alone does.\<close>

lemma lanes_then_scalar:
  assumes "\<And>i s. i + w \<le> n \<Longrightarrow> P s \<Longrightarrow> f i s = for_range i (i + w) g s \<and> P (f i s)" and "P s" and "i \<le> n"
  shows "(case lanes_loop w n f i s of (i', s') \<Rightarrow> for_range i' n g s') = for_range i n g s"
  using assms
proof (induction w n f i s rule: lanes_loop.induct)
  case (1 w n f i s)
  show ?case
  proof (cases "0 < w \<and> i + w \<le> n")
    case True
    then have step: "f i s = for_range i (i + w) g s" "P (f i s)" using 1(2) [of i s] 1(3) by auto
    have "(case lanes_loop w n f (i + w) (f i s) of (i', s') \<Rightarrow> for_range i' n g s')
        = for_range (i + w) n g (f i s)"
      using True step(2) by (intro 1(1) 1(2)) auto
    then show ?thesis
      using True by (simp add: lanes_loop.simps [of w n f i s] for_range_split [of i "i + w" n] step(1))
  next
    case False
    then show ?thesis by (auto simp: lanes_loop.simps [of w n f i s])
  qed
qed

section \<open>Loops that make progress\<close>

text \<open>What a \<open>while (true)\<close> with returns needs from its body to end: a step keeps an invariant and either leaves the
  loop with a good result or goes on with a smaller rank.\<close>

locale progress_loop =
  fixes step :: "'a \<Rightarrow> ('b + 'a) option" and loop :: "'a \<Rightarrow> 'b option" and ok :: "'a \<Rightarrow> bool" and good :: "'b \<Rightarrow> bool" and rank :: "'a \<Rightarrow> nat"
  assumes loop_step: "loop s = Option.bind (step s) (\<lambda>r. case r of Inl x \<Rightarrow> Some x | Inr s' \<Rightarrow> loop s')"
    and progress: "ok s \<Longrightarrow> \<exists>r. step s = Some r \<and> (case r of Inl x \<Rightarrow> good x | Inr s' \<Rightarrow> ok s' \<and> rank s' < rank s)"
begin

lemma returns: "ok s \<Longrightarrow> \<exists>x. loop s = Some x \<and> good x"
proof (induction "rank s" arbitrary: s rule: less_induct)
  case less
  obtain r where r: "step s = Some r" "case r of Inl x \<Rightarrow> good x | Inr s' \<Rightarrow> ok s' \<and> rank s' < rank s"
    using progress [OF less.prems] by blast
  show ?case
  proof (cases r)
    case (Inl x)
    then show ?thesis using r loop_step [of s] by simp
  next
    case (Inr s')
    then show ?thesis using r loop_step [of s] less.hyps [of s'] by simp
  qed
qed

end

end
