(* ===== verification/Pcm16Converter.thy ===== *)
theory Pcm16Converter
  imports Complex_Main Prelude
begin

text \<open>
  NativeAudio/pcm16-float-converter.cpp: PCM16 spans to one float vector. A sample is a 16-bit word
  read as two's complement; the conversion to \<open>float\<close> and the scaling by a power of two are
  exact in binary32, so floats are reals here. An output pointer is the vector and an offset into
  it. \<open>neon\<close> is the compile-time choice APP_PCM_HAS_NEON.
\<close>

section \<open>One chunk\<close>

definition kInvPcm16Amplitude :: real where
  "kInvPcm16Amplitude = 1 / 32768"

definition kNeonSamplesPerIteration :: nat where
  "kNeonSamplesPerIteration = 8"

definition scale_sample :: "u16 \<Rightarrow> real" where
  "scale_sample x = real_of_int (sint x) * kInvPcm16Amplitude"

text \<open>A NEON store of four lanes.\<close>

fun store_lanes :: "real list \<Rightarrow> nat \<Rightarrow> real list \<Rightarrow> real list" where
  "store_lanes outp pos [] = outp"
| "store_lanes outp pos (v # vs) = store_lanes (outp[pos := v]) (Suc pos) vs"

function neon_loop ::
  "u16 list \<Rightarrow> real list \<Rightarrow> nat \<Rightarrow> nat \<Rightarrow> nat \<Rightarrow> real list \<times> nat" where
  "neon_loop input outp base index count =
     (if index + kNeonSamplesPerIteration \<le> count
      then let pcm = take 8 (drop index input);
               low = map scale_sample (take 4 pcm);
               high = map scale_sample (drop 4 pcm);
               out1 = store_lanes outp (base + index) low;
               out2 = store_lanes out1 (base + index + 4) high
           in neon_loop input out2 base (index + kNeonSamplesPerIteration) count
      else (outp, index))"
  by pat_completeness auto
termination
  by (relation "measure (\<lambda>(input, outp, base, index, count). Suc count - index)")
    (auto simp: kNeonSamplesPerIteration_def)

function scalar_loop ::
  "u16 list \<Rightarrow> real list \<Rightarrow> nat \<Rightarrow> nat \<Rightarrow> nat \<Rightarrow> real list" where
  "scalar_loop input outp base index count =
     (if index < count
      then scalar_loop input (outp[base + index := scale_sample (input ! index)]) base (Suc index) count
      else outp)"
  by pat_completeness auto
termination
  by (relation "measure (\<lambda>(input, outp, base, index, count). count - index)") auto

declare neon_loop.simps [simp del] scalar_loop.simps [simp del]

definition convert_pcm16_chunk ::
  "bool \<Rightarrow> u16 list \<Rightarrow> real list \<Rightarrow> nat \<Rightarrow> nat \<Rightarrow> real list" where
  "convert_pcm16_chunk neon input outp base count =
     (let (out, index) = (if neon then neon_loop input outp base 0 count else (outp, 0))
      in scalar_loop input out base index count)"

section \<open>Two spans\<close>

datatype pcm_error = NullSpan | SpanLengthOverflow

text \<open>A pointer is \<open>None\<close> when null, otherwise the samples it points to.\<close>

definition pcm16_spans_to_float_vector ::
  "bool \<Rightarrow> u16 list option \<Rightarrow> nat \<Rightarrow> u16 list option \<Rightarrow> nat \<Rightarrow> real list
    \<Rightarrow> pcm_error + real list" where
  "pcm16_spans_to_float_vector neon first first_count second second_count outp =
     (if (first_count > 0 \<and> first = None) \<or> (second_count > 0 \<and> second = None)
      then Inl NullSpan
      else if second_count > size_max - first_count then Inl SpanLengthOverflow
      else
        let out0 = resize (first_count + second_count) 0 outp;
            out1 = (if first_count > 0
                    then convert_pcm16_chunk neon (the first) out0 0 first_count else out0);
            out2 = (if second_count > 0
                    then convert_pcm16_chunk neon (the second) out1 first_count second_count else out1)
        in Inr out2)"

section \<open>The loops write the scaled samples, and nothing else\<close>

lemma store_lanes_eq:
  "pos + length vs \<le> length outp \<Longrightarrow>
    store_lanes outp pos vs = take pos outp @ vs @ drop (pos + length vs) outp"
proof (induction vs arbitrary: outp pos)
  case (Cons v vs)
  then have "store_lanes outp pos (v # vs) =
      take (Suc pos) (outp[pos := v]) @ vs @ drop (Suc pos + length vs) (outp[pos := v])"
    by simp
  also have "take (Suc pos) (outp[pos := v]) = take pos outp @ [v]"
    using Cons.prems by (simp add: take_Suc_conv_app_nth take_update_cancel)
  finally show ?case by simp
qed simp

text \<open>The part of the output that has been written after \<open>n\<close> samples.\<close>

definition written :: "u16 list \<Rightarrow> real list \<Rightarrow> nat \<Rightarrow> nat \<Rightarrow> real list" where
  "written input outp base n =
     take base outp @ map scale_sample (take n input) @ drop (base + n) outp"

lemma written_0 [simp]: "written input outp base 0 = outp"
  by (simp add: written_def)

lemma length_written:
  "base + n \<le> length outp \<Longrightarrow> n \<le> length input \<Longrightarrow> length (written input outp base n) = length outp"
  by (simp add: written_def)

lemma store_lanes_written:
  assumes "n + k \<le> length input" and "base + (n + k) \<le> length outp"
  shows "store_lanes (written input outp base n) (base + n) (map scale_sample (take k (drop n input)))
    = written input outp base (n + k)"
proof -
  have "take (n + k) input = take n input @ take k (drop n input)" by (rule take_add)
  then show ?thesis
    using assms by (simp add: store_lanes_eq length_written) (simp add: written_def ac_simps)
qed

lemma scalar_loop_written:
  "index \<le> count \<Longrightarrow> count \<le> length input \<Longrightarrow> base + count \<le> length outp \<Longrightarrow>
    scalar_loop input (written input outp base index) base index count = written input outp base count"
proof (induction "count - index" arbitrary: index)
  case 0
  then show ?case by (simp add: scalar_loop.simps)
next
  case (Suc d)
  then have lt: "index < count" by simp
  then have "map scale_sample (take 1 (drop index input)) = [scale_sample (input ! index)]"
    using Suc.prems by (simp add: take_Suc_conv_app_nth hd_drop_conv_nth take_Suc)
  then have "(written input outp base index)[base + index := scale_sample (input ! index)] =
      written input outp base (Suc index)"
    using store_lanes_written [of index 1 input base outp] lt Suc.prems by simp
  then show ?case
    using lt Suc.hyps Suc.prems by (simp add: scalar_loop.simps [of input _ base index])
qed

lemma neon_loop_written:
  assumes "index \<le> count" and "count \<le> length input" and "base + count \<le> length outp"
  shows "\<exists>n. index \<le> n \<and> n \<le> count \<and>
    neon_loop input (written input outp base index) base index count = (written input outp base n, n)"
  using assms(1)
proof (induction "count - index" arbitrary: index rule: less_induct)
  case less
  show ?case
  proof (cases "index + kNeonSamplesPerIteration \<le> count")
    case False
    then show ?thesis using less.prems by (intro exI [of _ index]) (simp add: neon_loop.simps)
  next
    case True
    then have i8: "index + 8 \<le> count" by (simp add: kNeonSamplesPerIteration_def)
    have "store_lanes (written input outp base index) (base + index)
        (map scale_sample (take 4 (drop index input))) = written input outp base (index + 4)"
      using i8 assms by (intro store_lanes_written) simp_all
    moreover have "store_lanes (written input outp base (index + 4)) (base + index + 4)
        (map scale_sample (take 4 (drop (index + 4) input))) = written input outp base (index + 8)"
      using i8 assms store_lanes_written [of "index + 4" 4 input base outp] by (simp add: add.assoc)
    moreover have "drop 4 (take 8 (drop index input)) = take 4 (drop (index + 4) input)"
      by (simp add: drop_take add.commute)
    moreover have "take 4 (take 8 (drop index input)) = take 4 (drop index input)"
      by simp
    ultimately have "neon_loop input (written input outp base index) base index count =
        neon_loop input (written input outp base (index + 8)) base (index + 8) count"
      using True
      by (simp only: neon_loop.simps [of input _ base index] Let_def if_True) (simp add: kNeonSamplesPerIteration_def)
    moreover obtain n where "index + 8 \<le> n \<and> n \<le> count \<and>
        neon_loop input (written input outp base (index + 8)) base (index + 8) count =
          (written input outp base n, n)"
      using less.hyps [of "index + 8"] i8 by (metis diff_less_mono2 le_add1 less_add_same_cancel1 less_le_trans zero_less_numeral)
    ultimately show ?thesis by (intro exI [of _ n]) simp
  qed
qed

lemma convert_pcm16_chunk_eq:
  assumes "count \<le> length input" and "base + count \<le> length outp"
  shows "convert_pcm16_chunk neon input outp base count = written input outp base count"
proof (cases neon)
  case True
  then show ?thesis
    using neon_loop_written [of 0 count input base outp] scalar_loop_written [of _ count input base outp] assms
    by (auto simp: convert_pcm16_chunk_def)
next
  case False
  then show ?thesis
    using scalar_loop_written [of 0 count input base outp] assms by (simp add: convert_pcm16_chunk_def)
qed

lemma scale_sample_bounds: "- 1 \<le> scale_sample x \<and> scale_sample x < 1"
proof -
  have "- 32768 \<le> sint x" "sint x < 32768"
    using sint_ge [of x] sint_lt [of x] by simp_all
  then have "- 32768 \<le> real_of_int (sint x)" "real_of_int (sint x) < 32768"
    by linarith+
  then show ?thesis by (simp add: scale_sample_def kInvPcm16Amplitude_def)
qed

lemma pcm16_spans_eq:
  assumes "first_count \<le> length xs" and "second_count \<le> length ys"
    and "first_count + second_count \<le> size_max"
  shows "pcm16_spans_to_float_vector neon (Some xs) first_count (Some ys) second_count outp =
      Inr (map scale_sample (take first_count xs @ take second_count ys))"
proof -
  let ?o0 = "resize (first_count + second_count) 0 outp"
  let ?o1 = "written xs ?o0 0 first_count"
  have "convert_pcm16_chunk neon xs ?o0 0 first_count = ?o1"
    using assms by (intro convert_pcm16_chunk_eq) simp_all
  moreover have "convert_pcm16_chunk neon ys ?o1 first_count second_count
      = written ys ?o1 first_count second_count"
    using assms by (intro convert_pcm16_chunk_eq) (simp_all add: length_written)
  moreover have "written ys ?o1 first_count second_count =
      map scale_sample (take first_count xs @ take second_count ys)"
    using assms by (simp add: written_def)
  ultimately show "pcm16_spans_to_float_vector neon (Some xs) first_count (Some ys) second_count outp =
      Inr (map scale_sample (take first_count xs @ take second_count ys))"
    using assms by (auto simp: pcm16_spans_to_float_vector_def Let_def)
qed

text \<open>C6: for spans that hold the announced samples, the conversion succeeds and gives the samples
  of both spans in order, each divided by 32768, whatever the reused vector held before and whether
  or not the vectorised loop ran; every value is in [-1, 1).\<close>

theorem pcm16_spans_correct:
  assumes "first_count \<le> length xs" and "second_count \<le> length ys"
    and "first_count + second_count \<le> size_max"
  shows "pcm16_spans_to_float_vector neon (Some xs) first_count (Some ys) second_count outp =
      Inr (map scale_sample (take first_count xs @ take second_count ys))
    \<and> (\<forall>v \<in> set (map scale_sample (take first_count xs @ take second_count ys)). - 1 \<le> v \<and> v < 1)"
  using pcm16_spans_eq [OF assms] scale_sample_bounds by auto

theorem pcm16_spans_correct_witness:
  "pcm16_spans_to_float_vector True (Some [0, 16384]) 2 (Some [0x8000]) 1 [] = Inr [0, 1 / 2, - 1]"
  using pcm16_spans_correct [of 2 "[0, 16384]" 1 "[0x8000]" True "[]"]
  by (simp add: size_max_def scale_sample_def kInvPcm16Amplitude_def)

end
