(* ===== verification/Codec.thy ===== *)
theory Codec
  imports Main
begin

text \<open>
  The contract between an encoder that writes one symbol at a time and a decoder that reads a whole
  sequence: the decoder reads any valid symbol's code off the front of its input and goes on with
  the rest. The UTF converters and the byte-level BPE alphabet all satisfy it, and what follows for
  whole texts and for texts cut into pieces is proved once here.
\<close>

locale sequence_codec =
  fixes valid :: "'b \<Rightarrow> bool"
    and enc :: "'b \<Rightarrow> 's list"
    and dec :: "'s list \<Rightarrow> 'o list"
    and out :: "'b \<Rightarrow> 'o list"
  assumes dec_nil: "dec [] = []"
    and dec_enc: "valid b \<Longrightarrow> dec (enc b @ rest) = out b @ dec rest"
begin

lemma dec_append:
  "\<forall>b \<in> set bs. valid b \<Longrightarrow> dec (concat (map enc bs) @ rest) = concat (map out bs) @ dec rest"
  by (induction bs) (simp_all add: dec_enc)

lemma dec_concat:
  "\<forall>b \<in> set bs. valid b \<Longrightarrow> dec (concat (map enc bs)) = concat (map out bs)"
  using dec_append [of bs "[]"] by (simp add: dec_nil)

text \<open>A piece is a concatenation of codes of valid symbols; decoding is compositional on pieces.\<close>

definition piece :: "'s list \<Rightarrow> bool" where
  "piece p \<longleftrightarrow> (\<exists>bs. (\<forall>b \<in> set bs. valid b) \<and> p = concat (map enc bs))"

lemma piece_code: "valid b \<Longrightarrow> piece (enc b)"
  unfolding piece_def by (intro exI [of _ "[b]"]) simp

lemma piece_append: "piece p \<Longrightarrow> piece q \<Longrightarrow> piece (p @ q)"
  unfolding piece_def by (metis Un_iff concat_append map_append set_append)

lemma dec_piece_append: "piece p \<Longrightarrow> dec (p @ q) = dec p @ dec q"
  unfolding piece_def by (auto simp: dec_append dec_concat)

lemma dec_pieces: "\<forall>p \<in> set ps. piece p \<Longrightarrow> concat (map dec ps) = dec (concat ps)"
  by (induction ps) (simp_all add: dec_nil dec_piece_append)

end

end
