(* ===== verification/UtfConverter.thy ===== *)
theory UtfConverter
  imports Prelude Codec
begin

text \<open>
  The UTF-8/UTF-16 converter of NativeText/utf-converter.cpp, used at every JNI boundary. A
  \<open>std::string\<close> is a list of bytes, a \<open>std::u16string\<close> a list of 16-bit code
  units, a \<open>char32_t\<close> a 32-bit word. The loops over an index read only from the index on, so
  they are recursions on the rest of the input.
\<close>

section \<open>Code points\<close>

definition replacement_character :: u32 where
  "replacement_character = 0xFFFD"

definition append_utf16 :: "u32 \<Rightarrow> u16 list" where
  "append_utf16 point =
     (if point \<le> 0xFFFF then [ucast point]
      else let value = point - 0x10000
           in [ucast (0xD800 + drop_bit 10 value), ucast (0xDC00 + (value AND 0x3FF))])"

definition append_utf8 :: "u32 \<Rightarrow> u8 list" where
  "append_utf8 point =
     (if point \<le> 0x7F then [ucast point]
      else if point \<le> 0x7FF then
        [ucast (0xC0 OR drop_bit 6 point), ucast (0x80 OR (point AND 0x3F))]
      else if point \<le> 0xFFFF then
        [ucast (0xE0 OR drop_bit 12 point), ucast (0x80 OR (drop_bit 6 point AND 0x3F)),
         ucast (0x80 OR (point AND 0x3F))]
      else
        [ucast (0xF0 OR drop_bit 18 point), ucast (0x80 OR (drop_bit 12 point AND 0x3F)),
         ucast (0x80 OR (drop_bit 6 point AND 0x3F)), ucast (0x80 OR (point AND 0x3F))])"

definition is_continuation :: "u8 \<Rightarrow> bool" where
  "is_continuation value \<longleftrightarrow> value AND 0xC0 = 0x80"

section \<open>UTF-8 to UTF-16\<close>

text \<open>The length of the sequence a lead byte announces, and its payload bits.\<close>

definition lead_byte :: "u8 \<Rightarrow> (nat \<times> u32) option" where
  "lead_byte first =
     (if 0xC2 \<le> first \<and> first \<le> 0xDF then Some (2, ucast (first AND 0x1F))
      else if 0xE0 \<le> first \<and> first \<le> 0xEF then Some (3, ucast (first AND 0x0F))
      else if 0xF0 \<le> first \<and> first \<le> 0xF4 then Some (4, ucast (first AND 0x07))
      else None)"

text \<open>The \<open>while\<close> loop: \<open>valid_length\<close> bytes belong to the sequence so far, the
  list is what follows them.\<close>

fun scan_valid_length :: "nat \<Rightarrow> nat \<Rightarrow> u8 list \<Rightarrow> nat" where
  "scan_valid_length sequence_length valid_length [] = valid_length"
| "scan_valid_length sequence_length valid_length (b # bs) =
     (if valid_length < sequence_length \<and> is_continuation b
      then scan_valid_length sequence_length (Suc valid_length) bs else valid_length)"

definition invalid_range :: "u8 \<Rightarrow> u8 \<Rightarrow> bool" where
  "invalid_range first second \<longleftrightarrow>
     (first = 0xE0 \<and> second < 0xA0) \<or> (first = 0xED \<and> second > 0x9F)
     \<or> (first = 0xF0 \<and> second < 0x90) \<or> (first = 0xF4 \<and> second > 0x8F)"

fun fold_payload :: "u32 \<Rightarrow> u8 list \<Rightarrow> u32" where
  "fold_payload point [] = point"
| "fold_payload point (b # bs) = fold_payload (push_bit 6 point OR (ucast b AND 0x3F)) bs"

text \<open>One iteration of the main loop on a non-empty rest: what it appends, and how many bytes the
  index advances.\<close>

definition utf8_step :: "u8 \<Rightarrow> u8 list \<Rightarrow> u16 list \<times> nat" where
  "utf8_step first rest =
     (if first \<le> 0x7F then ([ucast first], 1)
      else case lead_byte first of
        None \<Rightarrow> (append_utf16 replacement_character, 1)
      | Some (sequence_length, point) \<Rightarrow>
          (let valid_length = scan_valid_length sequence_length 1 rest
           in if valid_length \<noteq> sequence_length
              then (append_utf16 replacement_character, valid_length)
              else if invalid_range first (hd rest)
              then (append_utf16 replacement_character, sequence_length)
              else (append_utf16 (fold_payload point (take (sequence_length - 1) rest)),
                    sequence_length)))"

lemma scan_valid_length_ge: "n \<le> scan_valid_length m n bs"
proof (induction bs arbitrary: n)
  case (Cons b bs)
  then show ?case using Suc_leD [OF Cons.IH [of "Suc n"]] by simp
qed simp

lemma utf8_step_advances: "0 < snd (utf8_step first rest)"
proof -
  have "0 < scan_valid_length m 1 rest" for m
    using scan_valid_length_ge [of 1 m rest] by simp
  then show ?thesis
    by (auto simp: utf8_step_def lead_byte_def Let_def split: option.splits if_splits)
qed

function utf8_to_utf16_replacing_invalid :: "u8 list \<Rightarrow> u16 list" where
  "utf8_to_utf16_replacing_invalid [] = []"
| "utf8_to_utf16_replacing_invalid (first # rest) =
     (let (out, n) = utf8_step first rest
      in out @ utf8_to_utf16_replacing_invalid (drop n (first # rest)))"
  by pat_completeness auto
termination
proof (relation "measure length", goal_cases)
  case (2 first rest x out n)
  then have "0 < n" using utf8_step_advances [of first rest] by (metis snd_conv)
  then show ?case by (cases n) auto
qed simp

declare utf8_to_utf16_replacing_invalid.simps(2) [simp del]

section \<open>UTF-16 to UTF-8\<close>

text \<open>The code point the loop reads at the front of the rest, and how many units it takes.\<close>

fun utf16_step :: "u16 \<Rightarrow> u16 list \<Rightarrow> u32 \<times> nat" where
  "utf16_step first rest =
     (if 0xD800 \<le> first \<and> first \<le> 0xDBFF then
        (case rest of
           second # _ \<Rightarrow>
             if 0xDC00 \<le> second \<and> second \<le> 0xDFFF
             then (0x10000 + push_bit 10 (ucast first - 0xD800) + (ucast second - 0xDC00), 2)
             else (replacement_character, 1)
         | [] \<Rightarrow> (replacement_character, 1))
      else if 0xDC00 \<le> first \<and> first \<le> 0xDFFF then (replacement_character, 1)
      else (ucast first, 1))"

lemma utf16_step_advances: "0 < snd (utf16_step first rest)"
  by (auto split: list.splits)

declare utf16_step.simps [simp del]

function utf16_points :: "u16 list \<Rightarrow> u32 list" where
  "utf16_points [] = []"
| "utf16_points (first # rest) =
     (let (point, n) = utf16_step first rest
      in point # utf16_points (drop n (first # rest)))"
  by pat_completeness auto
termination
proof (relation "measure length", goal_cases)
  case (2 first rest x point n)
  then have "0 < n" using utf16_step_advances [of first rest] by (metis snd_conv)
  then show ?case by (cases n) auto
qed simp

declare utf16_points.simps(2) [simp del]

datatype text_error = NullText

text \<open>The entry point takes a pointer, \<open>None\<close> for null, and a length; the pointer is valid for
  \<open>length\<close> units.\<close>

definition utf16_to_utf8_replacing_invalid ::
  "u16 list option \<Rightarrow> nat \<Rightarrow> text_error + u8 list" where
  "utf16_to_utf8_replacing_invalid text n =
     (case text of
        None \<Rightarrow> if n \<noteq> 0 then Inl NullText else Inr []
      | Some units \<Rightarrow> Inr (concat (map append_utf8 (utf16_points (take n units)))))"

section \<open>Bytes as numbers\<close>

lemma unat_and_C0: "unat (b AND 0xC0) = unat b div 64 * 64" for b :: u8
proof -
  have c0: "(0xC0 :: u8) = push_bit 6 (mask 2)"
    by (simp add: mask_eq_exp_minus_1 push_bit_eq_mult)
  have "b AND 0xC0 = push_bit 6 (drop_bit 6 b)"
    unfolding c0 by (rule bit_word_eqI) (auto simp: bit_simps)
  moreover have "unat (push_bit 6 (drop_bit 6 b)) = unat b div 64 * 64 mod 256"
    by (simp add: push_bit_eq_mult unat_word_ariths wordsimps)
  moreover have "unat b < 256" using unsigned_less [of b, where ?'a = nat] by simp
  then have "unat b div 64 * 64 < 256" by auto
  ultimately show ?thesis by simp
qed

lemma is_continuation_range: "is_continuation b \<longleftrightarrow> 128 \<le> unat b \<and> unat b < 192"
  unfolding is_continuation_def word_unat_eq_iff unat_and_C0 by auto

lemma or_lead [wordsimps]:
  fixes b :: u32
  shows "unat b < 64 \<Longrightarrow> unat (0xC0 OR b) = 192 + unat b"
    and "unat b < 32 \<Longrightarrow> unat (0xE0 OR b) = 224 + unat b"
    and "unat b < 16 \<Longrightarrow> unat (0xF0 OR b) = 240 + unat b"
    and "unat b < 128 \<Longrightarrow> unat (0x80 OR b) = 128 + unat b"
  using unat_or_disjoint [of "0xC0" 6 3 b] unat_or_disjoint [of "0xE0" 5 7 b]
    unat_or_disjoint [of "0xF0" 4 15 b] unat_or_disjoint [of "0x80" 7 1 b]
  by simp_all

definition utf8_bytes :: "nat \<Rightarrow> nat list" where
  "utf8_bytes n =
     (if n < 0x80 then [n]
      else if n < 0x800 then [192 + n div 64, 128 + n mod 64]
      else if n < 0x10000 then [224 + n div 4096, 128 + n div 64 mod 64, 128 + n mod 64]
      else [240 + n div 262144, 128 + n div 4096 mod 64, 128 + n div 64 mod 64, 128 + n mod 64])"

lemma cont_bits: "unat ((0x80 :: u32) OR (q AND 0x3F)) = 128 + unat q mod 64"
proof -
  have "unat (q AND 0x3F) = unat q mod 64" by (simp add: mask6_word wordsimps)
  then show ?thesis by (simp add: or_lead)
qed

lemma map_unat_append_utf8:
  assumes "unat p < 0x200000"
  shows "map unat (append_utf8 p) = utf8_bytes (unat p)"
proof -
  have lead: "unat (drop_bit 6 p) = unat p div 64" "unat (drop_bit 12 p) = unat p div 4096"
      "unat (drop_bit 18 p) = unat p div 262144"
    by (simp_all add: wordsimps)
  consider "unat p < 0x80" | "0x80 \<le> unat p" "unat p < 0x800"
    | "0x800 \<le> unat p" "unat p < 0x10000" | "0x10000 \<le> unat p"
    by linarith
  then show ?thesis
  proof cases
    case 1
    then show ?thesis
      by (simp add: append_utf8_def utf8_bytes_def word_le_nat_alt unat_ucast_mod)
  next
    case 2
    then show ?thesis
      by (simp add: append_utf8_def utf8_bytes_def word_le_nat_alt unat_ucast_mod cont_bits lead or_lead)
  next
    case 3
    then show ?thesis
      by (simp add: append_utf8_def utf8_bytes_def word_le_nat_alt unat_ucast_mod cont_bits lead or_lead)
  next
    case 4
    then show ?thesis
      using assms
      by (simp add: append_utf8_def utf8_bytes_def word_le_nat_alt unat_ucast_mod cont_bits lead or_lead)
  qed
qed

definition scalar_value :: "u32 \<Rightarrow> bool" where
  "scalar_value p \<longleftrightarrow> unat p < 0xD800 \<or> (0xE000 \<le> unat p \<and> unat p < 0x110000)"

lemma scan_valid_length_all:
  "\<forall>b \<in> set bs. is_continuation b \<Longrightarrow> v + length bs = n \<Longrightarrow> scan_valid_length n v (bs @ rest) = n"
proof (induction bs arbitrary: v)
  case Nil
  then show ?case by (cases rest) auto
qed auto

lemma lead_byte_ranges:
  "194 \<le> unat b \<Longrightarrow> unat b \<le> 223 \<Longrightarrow> \<exists>q. lead_byte b = Some (2, q) \<and> unat q = unat b mod 32"
  "224 \<le> unat b \<Longrightarrow> unat b \<le> 239 \<Longrightarrow> \<exists>q. lead_byte b = Some (3, q) \<and> unat q = unat b mod 16"
  "240 \<le> unat b \<Longrightarrow> unat b \<le> 244 \<Longrightarrow> \<exists>q. lead_byte b = Some (4, q) \<and> unat q = unat b mod 8"
  by (simp_all add: lead_byte_def word_le_nat_alt mask5_word mask4_word mask3_word wordsimps)

lemma invalid_range_unat:
  "invalid_range b c \<longleftrightarrow> (unat b = 224 \<and> unat c < 160) \<or> (unat b = 237 \<and> 159 < unat c)
     \<or> (unat b = 240 \<and> unat c < 144) \<or> (unat b = 244 \<and> 143 < unat c)"
  by (auto simp: invalid_range_def word_less_nat_alt word_unat_eq_iff)

lemma unat_ucast_u8_u32: "unat (ucast x :: u32) = unat x" for x :: u8
  using unsigned_less [of x, where ?'a = nat] by (simp add: unat_ucast_mod)

lemma fold_payload_step:
  assumes "unat q < 2 ^ 26"
  shows "\<exists>r. (\<forall>bs. fold_payload q (b # bs) = fold_payload r bs) \<and> unat r = unat q * 64 + unat b mod 64"
  using unat_push_or_mask [OF assms, of "ucast b"] unfolding unat_ucast_u8_u32 by auto

lemma unat_fold_payload:
  assumes q: "unat q < 2 ^ 8"
  shows "unat (fold_payload q [b]) = unat q * 64 + unat b mod 64"
    and "unat (fold_payload q [b, c]) = (unat q * 64 + unat b mod 64) * 64 + unat c mod 64"
    and "unat (fold_payload q [b, c, d]) =
      ((unat q * 64 + unat b mod 64) * 64 + unat c mod 64) * 64 + unat d mod 64"
proof -
  obtain r where r: "fold_payload q (b # bs) = fold_payload r bs" "unat r = unat q * 64 + unat b mod 64" for bs
    using fold_payload_step [of q b] q by (auto simp del: fold_payload.simps)
  have r_le: "unat r < 2 ^ 15" using q unfolding r(2) by (simp add: algebra_simps)
  obtain s where s: "fold_payload r (c # bs) = fold_payload s bs" "unat s = unat r * 64 + unat c mod 64" for bs
    using fold_payload_step [of r c] r_le by (auto simp del: fold_payload.simps)
  have s_le: "unat s < 2 ^ 22" using r_le unfolding s(2) by (simp add: algebra_simps)
  obtain t where t: "fold_payload s (d # bs) = fold_payload t bs" "unat t = unat s * 64 + unat d mod 64" for bs
    using fold_payload_step [of s d] s_le by (auto simp del: fold_payload.simps)
  show "unat (fold_payload q [b]) = unat q * 64 + unat b mod 64"
    and "unat (fold_payload q [b, c]) = (unat q * 64 + unat b mod 64) * 64 + unat c mod 64"
    and "unat (fold_payload q [b, c, d]) =
      ((unat q * 64 + unat b mod 64) * 64 + unat c mod 64) * 64 + unat d mod 64"
    by (simp_all only: r(1) s(1) t(1) fold_payload.simps(1) t(2) s(2) r(2))
qed

lemma payload_arith:
  fixes n k :: nat
  shows "k < 32 \<Longrightarrow> (192 + k) mod 32 = k" "k < 16 \<Longrightarrow> (224 + k) mod 16 = k"
    "k < 8 \<Longrightarrow> (240 + k) mod 8 = k" "(128 + k mod 64) mod 64 = k mod 64"
    "n div 64 * 64 + n mod 64 = n"
    "(n div 4096 * 64 + n div 64 mod 64) * 64 + n mod 64 = n"
    "((n div 262144 * 64 + n div 4096 mod 64) * 64 + n div 64 mod 64) * 64 + n mod 64 = n"
proof -
  show "k < 32 \<Longrightarrow> (192 + k) mod 32 = k" "k < 16 \<Longrightarrow> (224 + k) mod 16 = k"
    "k < 8 \<Longrightarrow> (240 + k) mod 8 = k" "(128 + k mod 64) mod 64 = k mod 64"
    using mod_mult_self3 [of 6 32 k] mod_mult_self3 [of 14 16 k] mod_mult_self3 [of 30 8 k]
      mod_mult_self3 [of 2 64 "k mod 64"] by simp_all
  show a: "n div 64 * 64 + n mod 64 = n" for n :: nat by simp
  show b: "(n div 4096 * 64 + n div 64 mod 64) * 64 + n mod 64 = n" for n :: nat
    using a [of "n div 64"] a [of n] by (simp add: div_mult2_eq [of _ 64 64, simplified])
  show "((n div 262144 * 64 + n div 4096 mod 64) * 64 + n div 64 mod 64) * 64 + n mod 64 = n"
    using a [of n] b [of "n div 64"]
    by (simp add: div_mult2_eq [of _ 64 64, simplified] div_mult2_eq [of _ 64 4096, simplified])
qed

lemma valid_second_3:
  fixes m b c :: nat
  assumes "32 \<le> m" "m < 864 \<or> 896 \<le> m" "m < 1024" "b = 224 + m div 64" "c = 128 + m mod 64"
  shows "\<not> ((b = 224 \<and> c < 160) \<or> (b = 237 \<and> 159 < c) \<or> (b = 240 \<and> c < 144) \<or> (b = 244 \<and> 143 < c))"
proof -
  define d where "d = m div 64" define r where "r = m mod 64"
  have "m = 64 * d + r" "r < 64" unfolding d_def r_def by simp_all
  then show ?thesis using assms unfolding d_def [symmetric] r_def [symmetric] by linarith
qed
lemma valid_second_4:
  fixes m b c :: nat
  assumes "16 \<le> m" "m < 272" "b = 240 + m div 64" "c = 128 + m mod 64"
  shows "\<not> ((b = 224 \<and> c < 160) \<or> (b = 237 \<and> 159 < c) \<or> (b = 240 \<and> c < 144) \<or> (b = 244 \<and> 143 < c))"
proof -
  define d where "d = m div 64" define r where "r = m mod 64"
  have "m = 64 * d + r" "r < 64" unfolding d_def r_def by simp_all
  then show ?thesis using assms unfolding d_def [symmetric] r_def [symmetric] by linarith
qed

lemma utf8_step_sequence:
  assumes "lead_byte b = Some (Suc (length bs), q)" and "127 < unat b" and "bs \<noteq> []"
    and "\<forall>c \<in> set bs. is_continuation c" and "\<not> invalid_range b (hd bs)"
  shows "utf8_step b (bs @ rest) = (append_utf16 (fold_payload q bs), Suc (length bs))"
  using assms by (simp add: utf8_step_def word_le_nat_alt scan_valid_length_all)

lemma utf8_step_append:
  assumes sv: "scalar_value p" and ap: "append_utf8 p = b # bs"
  shows "utf8_step b (bs @ rest) = (append_utf16 p, Suc (length bs))"
proof -
  have bytes: "unat b # map unat bs = utf8_bytes (unat p)"
    using map_unat_append_utf8 [of p] sv ap by (auto simp: scalar_value_def)
  consider "unat p < 0x80" | "0x80 \<le> unat p" "unat p < 0x800"
    | "0x800 \<le> unat p" "unat p < 0x10000" | "0x10000 \<le> unat p" "unat p < 0x110000"
    using sv unfolding scalar_value_def by linarith
  then show ?thesis
  proof cases
    case 1
    then have "b = ucast p" "bs = []" using ap by (auto simp: append_utf8_def word_le_nat_alt)
    moreover from 1 have "(ucast (ucast p :: u8) :: u16) = ucast p"
      by (simp add: word_unat_eq_iff wordsimps)
    ultimately show ?thesis
      using 1 by (simp add: utf8_step_def append_utf16_def word_le_nat_alt wordsimps)
  next
    case 2
    then obtain c where bs: "bs = [c]" and b: "unat b = 192 + unat p div 64"
      and c: "unat c = 128 + unat p mod 64"
      using bytes by (auto simp: utf8_bytes_def)
    have "194 \<le> unat b" "unat b \<le> 223" using 2 b by auto
    then obtain q where q: "lead_byte b = Some (2, q)" "unat q = unat b mod 32"
      using lead_byte_ranges(1) by blast
    have "unat (fold_payload q bs) = unat p"
      using 2 bs b c q unat_fold_payload(1) [of q c] by (simp add: payload_arith)
    then have "fold_payload q bs = p" by (simp add: word_unat_eq_iff)
    moreover have "\<not> invalid_range b c"
      using 2 b unfolding invalid_range_unat by auto
    ultimately show ?thesis
      using utf8_step_sequence [of b bs q rest] q bs b c
      by (simp add: is_continuation_range numeral_2_eq_2)
  next
    case 3
    then obtain c d where bs: "bs = [c, d]" and b: "unat b = 224 + unat p div 4096"
      and c: "unat c = 128 + unat p div 64 mod 64" and d: "unat d = 128 + unat p mod 64"
      using bytes by (auto simp: utf8_bytes_def)
    have "224 \<le> unat b" "unat b \<le> 239" using 3 b by auto
    then obtain q where q: "lead_byte b = Some (3, q)" "unat q = unat b mod 16"
      using lead_byte_ranges(2) by blast
    have k: "unat p div 4096 < 16" "unat q < 2 ^ 8" using 3 q(2) by auto
    have "unat (fold_payload q bs) = unat p"
      unfolding bs unat_fold_payload(2) [OF k(2)] q(2) b c d payload_arith(2) [OF k(1)]
        payload_arith(4,6) by (rule refl)
    then have "fold_payload q bs = p" by (simp add: word_unat_eq_iff)
    moreover have "\<not> invalid_range b c"
    proof -
      have "unat p div 4096 = unat p div 64 div 64" by (simp flip: div_mult2_eq)
      moreover have "32 \<le> unat p div 64" "unat p div 64 < 864 \<or> 896 \<le> unat p div 64"
          "unat p div 64 < 1024"
        using sv 3 unfolding scalar_value_def by auto
      ultimately show ?thesis using b c unfolding invalid_range_unat by (intro valid_second_3) simp_all
    qed
    ultimately show ?thesis
      using utf8_step_sequence [of b bs q rest] q bs b c d
      by (simp add: is_continuation_range numeral_3_eq_3)
  next
    case 4
    then obtain c d e where bs: "bs = [c, d, e]" and b: "unat b = 240 + unat p div 262144"
      and c: "unat c = 128 + unat p div 4096 mod 64" and d: "unat d = 128 + unat p div 64 mod 64"
      and e: "unat e = 128 + unat p mod 64"
      using bytes by (auto simp: utf8_bytes_def)
    have "240 \<le> unat b" "unat b \<le> 244" using 4 b by auto
    then obtain q where q: "lead_byte b = Some (4, q)" "unat q = unat b mod 8"
      using lead_byte_ranges(3) by blast
    have k: "unat p div 262144 < 8" "unat q < 2 ^ 8" using 4 q(2) by auto
    have "unat (fold_payload q bs) = unat p"
      unfolding bs unat_fold_payload(3) [OF k(2)] q(2) b c d e payload_arith(3) [OF k(1)]
        payload_arith(4,7) by (rule refl)
    then have "fold_payload q bs = p" by (simp add: word_unat_eq_iff)
    moreover have "\<not> invalid_range b c"
    proof -
      have "unat p div 262144 = unat p div 4096 div 64" by (simp flip: div_mult2_eq)
      moreover have "16 \<le> unat p div 4096" "unat p div 4096 < 272" using 4 by auto
      ultimately show ?thesis using b c unfolding invalid_range_unat by (intro valid_second_4) simp_all
    qed
    ultimately show ?thesis
      using utf8_step_sequence [of b bs q rest] q bs b c d e
      by (simp add: is_continuation_range)
  qed
qed

lemma utf8_to_utf16_append:
  assumes "scalar_value p"
  shows "utf8_to_utf16_replacing_invalid (append_utf8 p @ rest) =
    append_utf16 p @ utf8_to_utf16_replacing_invalid rest"
proof -
  obtain b bs where ap: "append_utf8 p = b # bs"
    by (cases "append_utf8 p") (auto simp: append_utf8_def split: if_splits)
  then show ?thesis
    using utf8_step_append [OF assms ap, of rest]
    by (simp add: utf8_to_utf16_replacing_invalid.simps(2))
qed

interpretation utf8_codec: sequence_codec scalar_value append_utf8 utf8_to_utf16_replacing_invalid append_utf16
  by unfold_locales (simp_all add: utf8_to_utf16_append)

section \<open>Surrogates as numbers\<close>

definition high_surrogate :: "u16 \<Rightarrow> bool" where
  "high_surrogate u \<longleftrightarrow> 0xD800 \<le> u \<and> u \<le> 0xDBFF"

definition low_surrogate :: "u16 \<Rightarrow> bool" where
  "low_surrogate u \<longleftrightarrow> 0xDC00 \<le> u \<and> u \<le> 0xDFFF"

lemma surrogate_ranges:
  "high_surrogate u \<longleftrightarrow> 0xD800 \<le> unat u \<and> unat u < 0xDC00"
  "low_surrogate u \<longleftrightarrow> 0xDC00 \<le> unat u \<and> unat u < 0xE000"
  by (auto simp: high_surrogate_def low_surrogate_def word_le_nat_alt)

lemma unat_ucast_u16_u32: "unat (ucast x :: u32) = unat x" for x :: u16
  using unsigned_less [of x, where ?'a = nat] by (simp add: unat_ucast_mod)

definition pair_point :: "u16 \<Rightarrow> u16 \<Rightarrow> u32" where
  "pair_point h l = 0x10000 + push_bit 10 (ucast h - 0xD800) + (ucast l - 0xDC00)"

lemma surrogate_offsets:
  assumes "high_surrogate h" and "low_surrogate l"
  obtains a b where "unat h = 0xD800 + a" "a < 1024" "unat l = 0xDC00 + b" "b < 1024"
  by (rule that [of "unat h - 0xD800" "unat l - 0xDC00"])
    (use assms in \<open>auto simp: surrogate_ranges\<close>)

lemma unat_pair_point:
  assumes h: "unat h = 0xD800 + a" "a < 1024" and l: "unat l = 0xDC00 + b" "b < 1024"
  shows "unat (pair_point h l) = 0x10000 + a * 1024 + b"
proof -
  have "unat (ucast h - 0xD800 :: u32) = a" "unat (ucast l - 0xDC00 :: u32) = b"
    using h l by (simp_all add: unat_sub word_le_nat_alt unat_ucast_u16_u32)
  moreover from this have "unat (push_bit 10 (ucast h - 0xD800) :: u32) = a * 1024"
    using h(2) unfolding push_bit_eq_mult unat_word_ariths by simp
  ultimately show ?thesis
    using h l unfolding pair_point_def unat_word_ariths by simp
qed

lemma append_utf16_pair:
  assumes "high_surrogate h" and "low_surrogate l"
  shows "append_utf16 (pair_point h l) = [h, l]"
proof -
  obtain a b where h: "unat h = 0xD800 + a" "a < 1024" and l: "unat l = 0xDC00 + b" "b < 1024"
    using surrogate_offsets [OF assms] .
  have p: "unat (pair_point h l) = 0x10000 + a * 1024 + b"
    by (rule unat_pair_point [OF h l])
  then have "unat (pair_point h l - 0x10000) = a * 1024 + b"
    by (simp add: unat_sub word_le_nat_alt)
  then have "unat (drop_bit 10 (pair_point h l - 0x10000)) = a"
    "unat ((pair_point h l - 0x10000) AND 0x3FF) = b"
    using h(2) l(2) by (simp_all add: mask10_word unat_and_mask unat_drop_bit_div)
  then show ?thesis
    using h l p
    by (simp add: append_utf16_def Let_def word_le_nat_alt word_unat_eq_iff unat_ucast_mod
        unat_word_ariths)
qed

lemma scalar_pair_point:
  assumes "high_surrogate h" and "low_surrogate l"
  shows "scalar_value (pair_point h l)"
proof -
  obtain a b where h: "unat h = 0xD800 + a" "a < 1024" and l: "unat l = 0xDC00 + b" "b < 1024"
    using surrogate_offsets [OF assms] .
  then show ?thesis using unat_pair_point [OF h l] by (simp add: scalar_value_def)
qed

lemma utf16_step_eq:
  "utf16_step u us =
     (if high_surrogate u then
        (case us of v # _ \<Rightarrow> if low_surrogate v then (pair_point u v, 2) else (replacement_character, 1)
         | [] \<Rightarrow> (replacement_character, 1))
      else if low_surrogate u then (replacement_character, 1) else (ucast u, 1))"
  unfolding utf16_step.simps high_surrogate_def low_surrogate_def pair_point_def ..

lemma utf16_step_scalar: "scalar_value (fst (utf16_step u us))"
proof -
  have "scalar_value replacement_character"
    by (simp add: scalar_value_def replacement_character_def)
  moreover have "scalar_value (ucast u)" if "\<not> high_surrogate u" "\<not> low_surrogate u"
    using that unsigned_less [of u, where ?'a = nat]
    by (auto simp: scalar_value_def surrogate_ranges unat_ucast_u16_u32)
  ultimately show ?thesis
    by (auto simp: utf16_step_eq scalar_pair_point split: list.splits)
qed

lemma utf16_points_scalar: "p \<in> set (utf16_points us) \<Longrightarrow> scalar_value p"
proof (induction us rule: utf16_points.induct)
  case (2 u us)
  obtain q n where s: "utf16_step u us = (q, n)" by fastforce
  with "2.prems" consider "p = q" | "p \<in> set (utf16_points (drop n (u # us)))"
    by (auto simp: utf16_points.simps(2))
  then show ?case
    using "2.IH" [OF s [symmetric] refl] utf16_step_scalar [of u us] s by cases auto
qed simp

section \<open>What the converters guarantee\<close>

text \<open>Reference semantics: a UTF-16 text is well formed when every surrogate is paired, and
  \<open>replace_unpaired\<close> puts U+FFFD for each unit that is not.\<close>

fun utf16_wf :: "u16 list \<Rightarrow> bool" where
  "utf16_wf [] = True"
| "utf16_wf [u] = (\<not> high_surrogate u \<and> \<not> low_surrogate u)"
| "utf16_wf (u # v # us) =
     (if high_surrogate u then low_surrogate v \<and> utf16_wf us
      else \<not> low_surrogate u \<and> utf16_wf (v # us))"

fun replace_unpaired :: "u16 list \<Rightarrow> u16 list" where
  "replace_unpaired [] = []"
| "replace_unpaired [u] = [if high_surrogate u \<or> low_surrogate u then 0xFFFD else u]"
| "replace_unpaired (u # v # us) =
     (if high_surrogate u \<and> low_surrogate v then u # v # replace_unpaired us
      else (if high_surrogate u \<or> low_surrogate u then 0xFFFD else u) # replace_unpaired (v # us))"

lemma replace_unpaired_wf: "utf16_wf us \<Longrightarrow> replace_unpaired us = us"
  by (induction us rule: utf16_wf.induct) (auto split: if_splits)

lemma append_utf16_bmp: "append_utf16 (ucast u) = [u]" for u :: u16
  using unsigned_less [of u, where ?'a = nat]
  by (simp add: append_utf16_def word_le_nat_alt word_unat_eq_iff unat_ucast_mod)

lemma append_utf16_replacement: "append_utf16 replacement_character = [0xFFFD]"
  by (simp add: append_utf16_def replacement_character_def)

lemma concat_utf16_points: "concat (map append_utf16 (utf16_points us)) = replace_unpaired us"
proof (induction us rule: replace_unpaired.induct)
  case (2 u)
  then show ?case
    by (simp add: utf16_points.simps(2) utf16_step_eq append_utf16_bmp append_utf16_replacement)
next
  case (3 u v us)
  then show ?case
    by (cases "high_surrogate u"; cases "low_surrogate v")
      (simp_all add: utf16_points.simps(2) utf16_step_eq append_utf16_bmp append_utf16_replacement
        append_utf16_pair)
qed simp

lemma append_utf16_scalar_cases:
  assumes "scalar_value p"
  obtains (bmp) u where "append_utf16 p = [u]" "p = ucast u" "\<not> high_surrogate u" "\<not> low_surrogate u"
  | (pair) h l where "append_utf16 p = [h, l]" "high_surrogate h" "low_surrogate l" "p = pair_point h l"
proof (cases "unat p < 0x10000")
  case True
  let ?u = "ucast p :: u16"
  have "unat ?u = unat p" using True by (simp add: unat_ucast_mod)
  moreover from this have "p = ucast ?u" by (simp add: word_unat_eq_iff unat_ucast_u16_u32)
  moreover have "append_utf16 p = [?u]" using True by (simp add: append_utf16_def word_le_nat_alt)
  ultimately show ?thesis
    using assms by (intro bmp [of ?u]) (auto simp: scalar_value_def surrogate_ranges)
next
  case False
  define n where "n = unat p - 0x10000"
  have n: "n < 1024 * 1024" "unat p = 0x10000 + n"
    using assms False by (auto simp: n_def scalar_value_def)
  define h l :: u16 where "h = of_nat (0xD800 + n div 1024)" and "l = of_nat (0xDC00 + n mod 1024)"
  have a: "n div 1024 < 1024" using n(1) by (simp add: div_less_iff_less_mult)
  have uh: "unat h = 0xD800 + n div 1024" "unat l = 0xDC00 + n mod 1024"
    using a unfolding h_def l_def by (simp_all only: unsigned_of_nat) (simp_all add: take_bit_eq_mod)
  then have hl: "high_surrogate h" "low_surrogate l" using a by (simp_all add: surrogate_ranges)
  have "unat (pair_point h l) = unat p"
    using unat_pair_point [OF uh(1) a uh(2)] n(2) by simp
  then have "p = pair_point h l" by (simp add: word_unat_eq_iff)
  then show ?thesis using append_utf16_pair [OF hl] hl by (intro pair) simp_all
qed

lemma utf16_wf_append: "scalar_value p \<Longrightarrow> utf16_wf (append_utf16 p @ us) = utf16_wf us"
  by (erule append_utf16_scalar_cases) (cases us; simp)+

lemma utf16_points_append:
  assumes "scalar_value p"
  shows "utf16_points (append_utf16 p @ us) = p # utf16_points us"
  using assms
  by (cases rule: append_utf16_scalar_cases) (simp_all add: utf16_points.simps(2) utf16_step_eq)

interpretation utf16_codec: sequence_codec scalar_value append_utf16 utf16_points "\<lambda>p. [p]"
  by unfold_locales (simp_all add: utf16_points_append)

lemma lead_byte_cases:
  assumes "lead_byte b = Some (n, q)"
  obtains (two) "n = 2" "194 \<le> unat b" "unat b \<le> 223" "unat q = unat b mod 32"
  | (three) "n = 3" "224 \<le> unat b" "unat b \<le> 239" "unat q = unat b mod 16"
  | (four) "n = 4" "240 \<le> unat b" "unat b \<le> 244" "unat q = unat b mod 8"
  using assms by (simp add: lead_byte_def word_le_nat_alt mask5_word mask4_word mask3_word wordsimps
      split: if_splits) (auto simp: wordsimps)

lemma scan_valid_length_eq:
  "scan_valid_length n v bs = n \<Longrightarrow> v < n \<Longrightarrow>
    n - v \<le> length bs \<and> (\<forall>c \<in> set (take (n - v) bs). is_continuation c)"
proof (induction bs arbitrary: v)
  case (Cons b bs)
  from Cons.prems have b: "is_continuation b" "scan_valid_length n (Suc v) bs = n"
    by (auto split: if_splits)
  show ?case
  proof (cases "Suc v = n")
    case True
    then have "n - v = 1" by simp
    then show ?thesis using b by simp
  next
    case False
    then have "Suc v < n" using Cons.prems(2) by simp
    with Cons.IH b have "n - Suc v \<le> length bs \<and> (\<forall>c \<in> set (take (n - Suc v) bs). is_continuation c)"
      by blast
    moreover have "n - v = Suc (n - Suc v)" using \<open>Suc v < n\<close> by simp
    ultimately show ?thesis using b by simp
  qed
qed simp

lemma scan_valid_length_le: "v \<le> n \<Longrightarrow> scan_valid_length n v bs \<le> v + length bs"
proof (induction bs arbitrary: v)
  case (Cons b bs)
  then show ?case using Cons.IH [of "Suc v"] by auto
qed simp

lemma valid_sequence_scalar:
  assumes lead: "lead_byte b = Some (n, q)" and len: "length bs = n - 1"
    and cont: "\<forall>c \<in> set bs. is_continuation c" and range: "\<not> invalid_range b (hd bs)"
  shows "scalar_value (fold_payload q bs)"
  using lead
proof (cases rule: lead_byte_cases)
  case two
  then obtain c where "bs = [c]" using len by (auto simp: length_Suc_conv numeral_2_eq_2)
  moreover have "unat b mod 32 < 32" by simp
  ultimately have "unat (fold_payload q bs) < 0x800"
    using two unat_fold_payload(1) [of q c] by simp
  then show ?thesis by (simp add: scalar_value_def)
next
  case three
  then obtain c d where bs: "bs = [c, d]" using len by (auto simp: length_Suc_conv numeral_3_eq_3)
  define k where "k = unat b - 224"
  have k: "unat b = 224 + k" "k < 16" using three by (simp_all add: k_def)
  define m where "m = unat c - 128"
  have m: "unat c = 128 + m" "m < 64" using cont bs by (auto simp: m_def is_continuation_range)
  have "unat q = k" using three(4) k by (simp add: payload_arith)
  moreover have "unat c mod 64 = m" using m payload_arith(4) [of m] by simp
  moreover obtain r where r: "r = unat d mod 64" "r < 64" by simp
  ultimately have v: "unat (fold_payload q bs) = 4096 * k + 64 * m + r"
    using bs k(2) unat_fold_payload(2) [of q c d] by simp
  have "k < 13 \<or> (k = 13 \<and> m < 32) \<or> 14 \<le> k" using range bs k m by (auto simp: invalid_range_unat)
  then consider "k < 13" | "k = 13" "m < 32" | "14 \<le> k" by blast
  then have "unat (fold_payload q bs) < 0xD800 \<or> 0xE000 \<le> unat (fold_payload q bs)"
  proof cases
    case 3
    then have "0xE000 \<le> unat (fold_payload q bs)" using v by linarith
    then show ?thesis ..
  qed (use m(2) r(2) v in \<open>simp_all\<close>)
  moreover have "unat (fold_payload q bs) < 0x10000"
    using k(2) m(2) r(2) v by linarith
  ultimately show ?thesis by (auto simp: scalar_value_def)
next
  case four
  then have "length bs = Suc (Suc (Suc 0))" using len by simp
  then obtain c d e where bs: "bs = [c, d, e]" by (auto simp: length_Suc_conv)
  define k where "k = unat b - 240"
  have k: "unat b = 240 + k" "k < 5" using four by (simp_all add: k_def)
  define m where "m = unat c - 128"
  have m: "unat c = 128 + m" "m < 64" using cont bs by (auto simp: m_def is_continuation_range)
  have "unat q = k" using four(4) k by (simp add: payload_arith)
  moreover have "unat c mod 64 = m" using m payload_arith(4) [of m] by simp
  moreover obtain r s where r: "r = unat d mod 64" "r < 64" "s = unat e mod 64" "s < 64" by simp
  ultimately have v: "unat (fold_payload q bs) = 262144 * k + 4096 * m + 64 * r + s"
    using bs k(2) unat_fold_payload(3) [of q c d e] by simp
  have "k < 4 \<or> m < 16" "1 \<le> k \<or> 16 \<le> m" using range bs k m by (auto simp: invalid_range_unat)
  then have "0x10000 \<le> unat (fold_payload q bs)" "unat (fold_payload q bs) < 0x110000"
    using k(2) m(2) r(2,4) v by linarith+
  then show ?thesis by (simp add: scalar_value_def)
qed

lemma append_utf16_length: "length (append_utf16 p) \<le> 2"
  by (simp add: append_utf16_def Let_def)

lemma append_utf8_length: "scalar_value p \<Longrightarrow> length (append_utf8 p) \<le> (if unat p < 0x10000 then 3 else 4)"
  by (auto simp: append_utf8_def word_le_nat_alt)

text \<open>One iteration appends units that are all paired, and no more units than bytes consumed.\<close>

lemma utf8_step_sound:
  "\<exists>p. scalar_value p \<and> fst (utf8_step b rest) = append_utf16 p
     \<and> length (append_utf16 p) \<le> snd (utf8_step b rest)
     \<and> snd (utf8_step b rest) \<le> Suc (length rest)"
proof (cases "b \<le> 0x7F")
  case True
  have "ucast (ucast b :: u16) = (ucast b :: u32)"
    using unsigned_less [of b, where ?'a = nat] by (simp add: word_unat_eq_iff unat_ucast_mod)
  moreover have "scalar_value (ucast b)"
    using True by (simp add: scalar_value_def unat_ucast_u8_u32 word_le_nat_alt)
  ultimately show ?thesis
    using True append_utf16_bmp [of "ucast b"]
    by (intro exI [of _ "ucast b"]) (simp add: utf8_step_def)
next
  case False
  have rep: "scalar_value replacement_character" "length (append_utf16 replacement_character) = 1"
    by (simp_all add: scalar_value_def replacement_character_def append_utf16_def)
  show ?thesis
  proof (cases "lead_byte b")
    case None
    with False rep show ?thesis
      by (intro exI [of _ replacement_character]) (simp add: utf8_step_def)
  next
    case (Some nq)
    obtain n q where nq: "lead_byte b = Some (n, q)" using Some by (cases nq) auto
    then have n: "2 \<le> n" by (cases rule: lead_byte_cases) auto
    let ?v = "scan_valid_length n 1 rest"
    have v: "1 \<le> ?v" "?v \<le> Suc (length rest)"
      using scan_valid_length_ge [of 1 n rest] scan_valid_length_le [of 1 n rest] n by auto
    show ?thesis
    proof (cases "?v = n \<and> \<not> invalid_range b (hd rest)")
      case True
      then have len: "n - 1 \<le> length rest" and c: "\<forall>c \<in> set (take (n - 1) rest). is_continuation c"
        using scan_valid_length_eq [of n 1 rest] n by auto
      moreover from len n have "hd (take (n - 1) rest) = hd rest" by (cases rest) auto
      ultimately have "scalar_value (fold_payload q (take (n - 1) rest))"
        using valid_sequence_scalar [OF nq, of "take (n - 1) rest"] True by simp
      with True False nq n len show ?thesis
        using append_utf16_length [of "fold_payload q (take (n - 1) rest)"]
        by (intro exI [of _ "fold_payload q (take (n - 1) rest)"]) (simp add: utf8_step_def)
    next
      case bad: False
      with False nq rep n v show ?thesis
        by (intro exI [of _ replacement_character]) (auto simp: utf8_step_def Let_def)
    qed
  qed
qed

lemma utf8_to_utf16_wf:
  "utf16_wf (utf8_to_utf16_replacing_invalid bs)
    \<and> length (utf8_to_utf16_replacing_invalid bs) \<le> length bs"
proof (induction bs rule: utf8_to_utf16_replacing_invalid.induct)
  case (2 b rest)
  obtain out n where s: "utf8_step b rest = (out, n)" by fastforce
  obtain p where p: "scalar_value p" "out = append_utf16 p" "length out \<le> n" "n \<le> Suc (length rest)"
    using utf8_step_sound [of b rest] s by auto
  from "2.IH" [OF s [symmetric] refl] p show ?case
    by (simp add: utf8_to_utf16_replacing_invalid.simps(2) s utf16_wf_append) linarith
qed simp

lemma append_utf8_unit_length:
  "length (append_utf8 replacement_character) = 3" "length (append_utf8 (ucast u)) \<le> 3" for u :: u16
  using unsigned_less [of u, where ?'a = nat]
  by (simp_all add: append_utf8_def word_le_nat_alt unat_ucast_u16_u32 replacement_character_def)

lemma concat_append_utf8_length:
  "length (concat (map append_utf8 (utf16_points us))) \<le> 3 * length us"
proof (induction us rule: replace_unpaired.induct)
  case (2 u)
  then show ?case
    by (simp add: utf16_points.simps(2) utf16_step_eq append_utf8_unit_length)
next
  case (3 u v us)
  show ?case
  proof (cases "high_surrogate u \<and> low_surrogate v")
    case True
    then have "length (append_utf8 (pair_point u v)) \<le> 4"
      using append_utf8_length [OF scalar_pair_point, of u v] by (auto split: if_splits)
    then show ?thesis using True "3.IH"(1)
      by (simp add: utf16_points.simps(2) utf16_step_eq)
  next
    case False
    have "utf16_points (u # v # us) =
       (if high_surrogate u \<or> low_surrogate u then replacement_character else ucast u) # utf16_points (v # us)"
      using False by (simp add: utf16_points.simps(2) [of u] utf16_step_eq)
    then show ?thesis using False "3.IH"(2) append_utf8_unit_length(2) [of u] append_utf8_unit_length(1) by simp
  qed
qed simp

text \<open>C3: every UTF-16 text, well formed or not, comes back from the round trip through UTF-8 with
  exactly its unpaired surrogates replaced by U+FFFD (so a well-formed text comes back unchanged),
  and never needs more than the three bytes per unit reserved for it.\<close>

theorem utf16_utf8_roundtrip:
  "\<exists>bytes. utf16_to_utf8_replacing_invalid (Some us) (length us) = Inr bytes
     \<and> utf8_to_utf16_replacing_invalid bytes = replace_unpaired us
     \<and> length bytes \<le> 3 * length us"
  using concat_append_utf8_length [of us] utf16_points_scalar [of _ us]
  by (simp add: utf16_to_utf8_replacing_invalid_def utf8_codec.dec_concat concat_utf16_points)

text \<open>C4: valid UTF-8 (the encoding of any sequence of Unicode scalar values) is converted to
  UTF-16 without replacement, and converting back gives the same bytes.\<close>

theorem utf8_utf16_roundtrip:
  assumes "\<forall>p \<in> set ps. scalar_value p" and "bytes = concat (map append_utf8 ps)"
  shows "utf8_to_utf16_replacing_invalid bytes = concat (map append_utf16 ps)
     \<and> utf16_to_utf8_replacing_invalid (Some (utf8_to_utf16_replacing_invalid bytes))
         (length (utf8_to_utf16_replacing_invalid bytes)) = Inr bytes"
  using assms
  by (simp add: utf16_to_utf8_replacing_invalid_def utf8_codec.dec_concat utf16_codec.dec_concat)

theorem utf8_utf16_roundtrip_witness:
  "utf8_to_utf16_replacing_invalid [0x41, 0xE3, 0x81, 0x82, 0xF0, 0x9F, 0x98, 0x80]
     = [0x41, 0x3042, 0xD83D, 0xDE00]"
proof -
  have "\<forall>p \<in> set [0x41, 0x3042, 0x1F600]. scalar_value p"
    by (simp add: scalar_value_def)
  from utf8_utf16_roundtrip [OF this refl] show ?thesis
    by (simp add: append_utf8_def append_utf16_def)
qed

text \<open>C5: whatever the bytes, the UTF-16 output has no unpaired surrogate and is at most as long as
  the input, so the capacity reserved up front is enough.\<close>

theorem utf8_to_utf16_safe:
  "utf16_wf (utf8_to_utf16_replacing_invalid bs)
    \<and> length (utf8_to_utf16_replacing_invalid bs) \<le> length bs"
  by (rule utf8_to_utf16_wf)

end
