(* ===== verification/TokenDecoder.thy ===== *)
theory TokenDecoder
  imports UtfConverter
begin

text \<open>
  CTranslate2/whisper-token-decoder.cpp: tokens of the byte-level BPE back to text. The
  \<open>unordered_map\<close> the file builds once is the map \<open>byte_decoder\<close>; \<open>emplace\<close>
  keeps the first entry of a key. Values of the table are below 512, so \<open>unsigned int\<close> is
  \<open>nat\<close> there; the code points read from a token are 32-bit words.
\<close>

section \<open>Code points of a token\<close>

text \<open>The inner \<open>for\<close>: at most \<open>trailing\<close> more bytes, fewer when the text ends.\<close>

fun trailing_points :: "nat \<Rightarrow> u32 \<Rightarrow> u8 list \<Rightarrow> u32 \<times> u8 list" where
  "trailing_points 0 point str = (point, str)"
| "trailing_points (Suc j) point [] = (point, [])"
| "trailing_points (Suc j) point (b # str) =
     trailing_points j (push_bit 6 point OR (ucast b AND 0x3F)) str"

lemma trailing_points_length: "length (snd (trailing_points j point str)) \<le> length str"
  by (induction j point str rule: trailing_points.induct) auto

definition trailing_count :: "u8 \<Rightarrow> nat" where
  "trailing_count first = (if first < 0xE0 then 1 else if first < 0xF0 then 2 else 3)"

function utf8_code_points :: "u8 list \<Rightarrow> u32 list" where
  "utf8_code_points [] = []"
| "utf8_code_points (first # str) =
     (if first < 0x80 then ucast first # utf8_code_points str
      else let trailing = trailing_count first;
               (point, rest) = trailing_points trailing (ucast first AND drop_bit trailing 0x7F) str
           in point # utf8_code_points rest)"
  by pat_completeness auto
termination
proof (relation "measure length", goal_cases)
  case (3 first str trailing r point rest)
  then have "rest = snd (trailing_points trailing (ucast first AND drop_bit trailing 0x7F) str)"
    by (metis snd_conv)
  then show ?case
    using trailing_points_length [of trailing "ucast first AND drop_bit trailing 0x7F" str]
    by (simp add: less_Suc_eq_le)
qed simp_all

declare utf8_code_points.simps(2) [simp del]

section \<open>The byte table\<close>

text \<open>\<open>bytes\<close> before the loop: the printable bytes, which stand for themselves.\<close>

definition printable_bytes :: "nat list" where
  "printable_bytes = [33..<127] @ [161..<173] @ [174..<256]"

text \<open>One iteration of the loop over the 256 values, on \<open>bytes\<close>, \<open>unicode\<close> and
  \<open>extra\<close>.\<close>

definition table_step :: "nat \<Rightarrow> nat list \<times> nat list \<times> nat \<Rightarrow> nat list \<times> nat list \<times> nat" where
  "table_step v s =
     (case s of (bytes, unicode, extra) \<Rightarrow>
        if v \<in> set bytes then (bytes, unicode, extra)
        else (bytes @ [v], unicode @ [256 + extra], Suc extra))"

definition byte_table :: "nat list \<times> nat list" where
  "byte_table =
     (case fold table_step [0..<256] (printable_bytes, printable_bytes, 0) of
        (bytes, unicode, extra) \<Rightarrow> (bytes, unicode))"

definition emplace :: "'k \<Rightarrow> 'v \<Rightarrow> ('k \<rightharpoonup> 'v) \<Rightarrow> ('k \<rightharpoonup> 'v)" where
  "emplace k v m = (case m k of None \<Rightarrow> m(k \<mapsto> v) | Some w \<Rightarrow> m)"

fun emplace_all :: "('k \<times> 'v) list \<Rightarrow> ('k \<rightharpoonup> 'v) \<Rightarrow> ('k \<rightharpoonup> 'v)" where
  "emplace_all [] m = m"
| "emplace_all ((k, v) # kvs) m = emplace_all kvs (emplace k v m)"

definition byte_decoder :: "u32 \<rightharpoonup> u8" where
  "byte_decoder =
     emplace_all (zip (map of_nat (snd byte_table)) (map of_nat (fst byte_table))) Map.empty"

section \<open>Decoding\<close>

definition special_token :: "u8 list \<Rightarrow> bool" where
  "special_token token \<longleftrightarrow> length token \<ge> 4 \<and> take 2 token = [0x3C, 0x7C]"

definition decode_token :: "u8 list \<Rightarrow> u8 list" where
  "decode_token token = List.map_filter byte_decoder (utf8_code_points token)"

fun decode_whisper_tokens :: "u8 list list \<Rightarrow> u8 list" where
  "decode_whisper_tokens [] = []"
| "decode_whisper_tokens (token # tokens) =
     (if special_token token then decode_whisper_tokens tokens
      else decode_token token @ decode_whisper_tokens tokens)"

section \<open>The table in closed form\<close>

declare upt_rec_numeral [simp del]

lemma emplace_all_map_of:
  "dom m \<inter> fst ` set kvs = {} \<Longrightarrow> distinct (map fst kvs) \<Longrightarrow> emplace_all kvs m = m ++ map_of kvs"
proof (induction kvs arbitrary: m)
  case (Cons kv kvs)
  obtain k v where kv: "kv = (k, v)" by (cases kv)
  with Cons.prems have none: "m k = None" "k \<notin> fst ` set kvs" by auto
  have "dom (m(k \<mapsto> v)) \<inter> fst ` set kvs = {}" "distinct (map fst kvs)"
    using Cons.prems kv by auto
  then have "emplace_all kvs (m(k \<mapsto> v)) = m(k \<mapsto> v) ++ map_of kvs"
    by (rule Cons.IH)
  moreover have "m(k \<mapsto> v) ++ map_of kvs = m ++ map_of (kv # kvs)"
    using none(2) kv
    by (auto simp: map_add_def fun_eq_iff dom_map_of_conv_image_fst split: option.splits)
      (metis fst_conv image_eqI map_of_SomeD)
  ultimately show ?case using none(1) kv by (simp only: emplace_all.simps emplace_def option.case)
qed simp

lemma fold_table_step_skip:
  "set vs \<subseteq> set bytes \<Longrightarrow> fold table_step vs (bytes, unicode, extra) = (bytes, unicode, extra)"
  by (induction vs) (auto simp: table_step_def)

lemma fold_table_step_new:
  "a \<le> b \<Longrightarrow> \<forall>v \<in> set bytes. v < a \<or> b \<le> v \<Longrightarrow>
    fold table_step [a..<b] (bytes, unicode, extra) =
      (bytes @ [a..<b], unicode @ [256 + extra..<256 + extra + (b - a)], extra + (b - a))"
proof (induction b)
  case (Suc b)
  show ?case
  proof (cases "a = Suc b")
    case False
    then have "a \<le> b" using Suc.prems by simp
    moreover from this have "b \<notin> set bytes" "\<forall>v \<in> set bytes. v < a \<or> b \<le> v"
      using Suc.prems(2) by fastforce+
    moreover obtain d where "b = a + d" using \<open>a \<le> b\<close> le_Suc_ex by blast
    then have "[256 + extra..<256 + extra + (Suc b - a)] =
        [256 + extra..<256 + extra + (b - a)] @ [256 + (extra + (b - a))]"
      using upt_Suc_append [of "256 + extra" "256 + extra + d"] by (simp add: ac_simps)
    moreover have "[a..<Suc b] = [a..<b] @ [b]" using \<open>a \<le> b\<close> by simp
    ultimately show ?thesis
      using Suc.IH \<open>a \<le> b\<close> by (simp only: fold_append fold.simps table_step_def o_apply) (simp add: Suc_diff_le del: upt_Suc)
  qed simp
qed simp

lemma upt_256:
  "[0..<256] = [0..<33] @ [33..<127] @ [127..<161] @ [161..<173] @ [173..<174] @ [174..<256]"
  by (simp only: upt_split [of 0 33 256] upt_split [of 33 127 256] upt_split [of 127 161 256]
      upt_split [of 161 173 256] upt_split [of 173 174 256] numeral_le_iff semiring_norm
      zero_le simp_thms)

lemma byte_table_eq:
  "byte_table = (printable_bytes @ [0..<33] @ [127..<161] @ [173..<174],
                 printable_bytes @ [256..<324])"
proof -
  have u: "[256..<289] @ [289..<323] @ [323..<324] = [256..<324::nat]"
    using upt_split [of 256 289 324] upt_split [of 289 323 324] by simp
  let ?b1 = "printable_bytes @ [0..<33]" let ?b2 = "?b1 @ [127..<161]"
  have "fold table_step [0..<33] (printable_bytes, printable_bytes, 0) =
      (?b1, printable_bytes @ [256..<289], 33)"
    by (subst fold_table_step_new) (auto simp: printable_bytes_def)
  moreover have "fold table_step [33..<127] (?b1, un, 33) = (?b1, un, 33)" for un
    by (rule fold_table_step_skip) (auto simp: printable_bytes_def)
  moreover have "fold table_step [127..<161] (?b1, un, 33) = (?b2, un @ [289..<323], 67)" for un
    by (subst fold_table_step_new) (auto simp: printable_bytes_def)
  moreover have "fold table_step [161..<173] (?b2, un, 67) = (?b2, un, 67)" for un
    by (rule fold_table_step_skip) (auto simp: printable_bytes_def)
  moreover have "fold table_step [173..<174] (?b2, un, 67) =
      (?b2 @ [173..<174], un @ [323..<324], 68)" for un
    by (subst fold_table_step_new) (auto simp: printable_bytes_def)
  moreover have "fold table_step [174..<256] (?b2 @ [173..<174], un, 68) =
      (?b2 @ [173..<174], un, 68)" for un
    by (rule fold_table_step_skip) (auto simp: printable_bytes_def)
  ultimately show ?thesis
    unfolding byte_table_def upt_256 fold_append by (simp add: u [symmetric])
qed

lemma printable_bytes_facts:
  "length printable_bytes = 188" "distinct printable_bytes"
  "set printable_bytes = {33..<127} \<union> {161..<173} \<union> {174..<256}"
  by (auto simp: printable_bytes_def)

lemma byte_table_facts:
  "length (fst byte_table) = 256" "length (snd byte_table) = 256"
  "distinct (fst byte_table)" "distinct (snd byte_table)"
  "set (fst byte_table) = {0..<256}" "\<forall>p \<in> set (snd byte_table). p < 324"
  by (simp_all add: byte_table_eq printable_bytes_facts) auto

section \<open>Reading the alphabet back\<close>

lemma byte_decoder_nth:
  assumes "i < 256"
  shows "byte_decoder (of_nat (snd byte_table ! i)) = Some (of_nat (fst byte_table ! i))"
proof -
  let ?u = "map of_nat (snd byte_table) :: u32 list" and ?b = "map of_nat (fst byte_table) :: u8 list"
  have inj: "inj_on (of_nat :: nat \<Rightarrow> u32) (set (snd byte_table))"
  proof (rule inj_onI)
    fix x y assume xy: "x \<in> set (snd byte_table)" "y \<in> set (snd byte_table)" "(of_nat x :: u32) = of_nat y"
    then have "x < 2 ^ 32" "y < 2 ^ 32" using byte_table_facts(6) by fastforce+
    then show "x = y" using xy(3) by (simp add: word_unat_eq_iff unsigned_of_nat take_bit_nat_eq_self)
  qed
  then have d: "distinct ?u" using byte_table_facts(4) by (simp add: distinct_map)
  have len: "length ?u = 256" "length ?b = 256" using byte_table_facts by simp_all
  have "emplace_all (zip ?u ?b) Map.empty = map_of (zip ?u ?b)"
    using d len by (subst emplace_all_map_of) simp_all
  then show ?thesis
    using map_of_zip_nth [of ?u ?b i] d len assms by (simp add: byte_decoder_def)
qed

lemma utf8_code_points_append:
  assumes "unat p < 0x800"
  shows "utf8_code_points (append_utf8 p @ rest) = p # utf8_code_points rest"
proof (cases "unat p < 0x80")
  case True
  then have "(ucast (ucast p :: u8) :: u32) = p"
    by (simp add: word_unat_eq_iff unat_ucast_mod)
  then show ?thesis
    using True by (simp add: append_utf8_def word_le_nat_alt word_less_nat_alt utf8_code_points.simps(2)
        unat_ucast_mod)
next
  case False
  then obtain b c where bs: "append_utf8 p = [b, c]"
    using assms by (simp add: append_utf8_def word_le_nat_alt)
  then have b: "unat b = 192 + unat p div 64" and c: "unat c = 128 + unat p mod 64"
    using map_unat_append_utf8 [of p] assms False by (simp_all add: utf8_bytes_def)
  have k: "unat p div 64 < 32" using assms by auto
  have t: "trailing_count b = 1" "\<not> b < 0x80"
    using b k by (simp_all add: trailing_count_def word_less_nat_alt)
  have "drop_bit 1 (0x7F :: u32) = 0x3F"
    by (simp add: word_unat_eq_iff unat_drop_bit_div)
  then have "unat (ucast b AND drop_bit 1 0x7F :: u32) = unat p div 64"
    using b k mod_mult_self3 [of 3 64 "unat p div 64"]
    by (simp add: mask6_word unat_and_mask unat_ucast_u8_u32)
  moreover from this have "unat (ucast b AND drop_bit 1 0x7F :: u32) < 2 ^ 8" using k by simp
  ultimately have "unat (fold_payload (ucast b AND drop_bit 1 0x7F) [c]) = unat p"
    using c by (simp only: unat_fold_payload(1) payload_arith)
  then have "fold_payload (ucast b AND drop_bit 1 0x7F) [c] = p"
    by (simp only: word_unat_eq_iff)
  then have "push_bit 6 (ucast b AND drop_bit 1 0x7F) OR (ucast c AND 0x3F) = p"
    by (simp only: fold_payload.simps)
  then show ?thesis
    using bs t by (simp only: append.simps utf8_code_points.simps(2) if_False Let_def One_nat_def
        trailing_points.simps prod.case)
qed

lemma decode_token_Nil [simp]: "decode_token [] = []"
  by (simp add: decode_token_def map_filter_simps)

lemma decode_token_code:
  assumes "i < 256"
  shows "decode_token (append_utf8 (of_nat (snd byte_table ! i)) @ rest) =
    of_nat (fst byte_table ! i) # decode_token rest"
proof -
  have "snd byte_table ! i < 324"
    using assms byte_table_facts(2,6) nth_mem by (metis)
  then have "unat (of_nat (snd byte_table ! i) :: u32) < 0x800"
    by (simp add: unsigned_of_nat take_bit_nat_eq_self)
  then show ?thesis
    using byte_decoder_nth [OF assms]
    by (simp add: decode_token_def utf8_code_points_append map_filter_simps)
qed

end
