(* ===== verification/PromptTokenizer.thy ===== *)
theory PromptTokenizer
  imports TokenDecoder
begin

text \<open>
  CTranslate2/whisper-prompt-tokenizer.cpp: the byte-level BPE encoder that turns the user's prompt
  into tokens. A \<open>std::string\<close> is a list of bytes and the \<open>unordered_map\<close>s are partial
  maps. The parsed document is a value of the JSON type below, on which the accessors the
  constructor uses behave as nlohmann::json documents: a wrong type or a missing key is an exception.
  Floating-point numbers of a document are not modelled.
\<close>

section \<open>The byte alphabet\<close>

datatype tokenizer_error =
    InvalidCodePoint
  | TokenizerJsonNotFound
  | JsonException
  | MergesEmpty
  | UnsupportedMergeType
  | InvalidArrayMerge
  | InvalidStringMerge
  | EmptyMergeToken
  | OutOfRange
  | NotInVocabulary

definition utf8_from_code_point :: "u32 \<Rightarrow> tokenizer_error + u8 list" where
  "utf8_from_code_point point =
     (if point \<le> 0x7F then Inr [ucast point]
      else if point \<le> 0x7FF then
        Inr [ucast (0xC0 OR drop_bit 6 point), ucast (0x80 OR (point AND 0x3F))]
      else if point \<le> 0xFFFF then
        Inr [ucast (0xE0 OR drop_bit 12 point), ucast (0x80 OR (drop_bit 6 point AND 0x3F)),
             ucast (0x80 OR (point AND 0x3F))]
      else if point \<le> 0x10FFFF then
        Inr [ucast (0xF0 OR drop_bit 18 point), ucast (0x80 OR (drop_bit 12 point AND 0x3F)),
             ucast (0x80 OR (drop_bit 6 point AND 0x3F)), ucast (0x80 OR (point AND 0x3F))]
      else Inl InvalidCodePoint)"

text \<open>The encoder file builds the table with the same loop, and the map from bytes to strings.\<close>

fun encoder_entries :: "nat list \<Rightarrow> nat list \<Rightarrow> (u8 \<rightharpoonup> u8 list) \<Rightarrow> tokenizer_error + (u8 \<rightharpoonup> u8 list)" where
  "encoder_entries (b # bs) (u # us) encoder =
     (case utf8_from_code_point (of_nat u) of
        Inl e \<Rightarrow> Inl e
      | Inr str \<Rightarrow> encoder_entries bs us (emplace (of_nat b) str encoder))"
| "encoder_entries _ _ encoder = Inr encoder"

definition make_byte_encoder :: "tokenizer_error + (u8 \<rightharpoonup> u8 list)" where
  "make_byte_encoder = encoder_entries (fst byte_table) (snd byte_table) Map.empty"

definition pair_key :: "u8 list \<Rightarrow> u8 list \<Rightarrow> u8 list" where
  "pair_key left right = left @ [0] @ right"

section \<open>Loading tokenizer.json\<close>

datatype json =
    JNull
  | JBool bool
  | JInt int
  | JString "u8 list"
  | JArray "json list"
  | JObject "(u8 list \<times> json) list"

record tokenizer =
  merge_ranks :: "u8 list \<rightharpoonup> nat"
  byte_encoder :: "u8 \<rightharpoonup> u8 list"
  vocabulary :: "u8 list \<rightharpoonup> nat"

fun json_at :: "json \<Rightarrow> u8 list \<Rightarrow> tokenizer_error + json" where
  "json_at (JObject kvs) k = (case map_of kvs k of Some v \<Rightarrow> Inr v | None \<Rightarrow> Inl JsonException)"
| "json_at _ k = Inl JsonException"

fun json_size :: "json \<Rightarrow> nat" where
  "json_size JNull = 0"
| "json_size (JArray js) = length js"
| "json_size (JObject kvs) = length kvs"
| "json_size _ = 1"

fun json_index :: "json \<Rightarrow> nat \<Rightarrow> tokenizer_error + json" where
  "json_index (JArray js) i = (if i < length js then Inr (js ! i) else Inl JsonException)"
| "json_index _ i = Inl JsonException"

fun json_string :: "json \<Rightarrow> tokenizer_error + u8 list" where
  "json_string (JString s) = Inr s"
| "json_string _ = Inl JsonException"

text \<open>\<open>get<size_t>\<close> casts an integer to 64 bits.\<close>

fun json_size_t :: "json \<Rightarrow> tokenizer_error + nat" where
  "json_size_t (JInt i) = Inr (nat (i mod 2 ^ 64))"
| "json_size_t _ = Inl JsonException"

fun vocab_entries :: "(u8 list \<times> json) list \<Rightarrow> tokenizer_error + (u8 list \<rightharpoonup> nat)" where
  "vocab_entries [] = Inr Map.empty"
| "vocab_entries ((k, j) # kvs) =
     (case json_size_t j of
        Inl e \<Rightarrow> Inl e
      | Inr n \<Rightarrow> (case vocab_entries kvs of Inl e \<Rightarrow> Inl e | Inr m \<Rightarrow> Inr (m(k \<mapsto> n))))"

fun json_vocab :: "json \<Rightarrow> tokenizer_error + (u8 list \<rightharpoonup> nat)" where
  "json_vocab (JObject kvs) = vocab_entries kvs"
| "json_vocab _ = Inl JsonException"

text \<open>One entry of the merge list in each of the two formats: the left and the right token.\<close>

definition array_merge :: "json \<Rightarrow> tokenizer_error + (u8 list \<times> u8 list)" where
  "array_merge merge_value =
     (if json_size merge_value \<noteq> 2 then Inl InvalidArrayMerge
      else case json_index merge_value 0 of Inl e \<Rightarrow> Inl e | Inr jl \<Rightarrow>
        (case json_string jl of Inl e \<Rightarrow> Inl e | Inr left \<Rightarrow>
          (case json_index merge_value 1 of Inl e \<Rightarrow> Inl e | Inr jr \<Rightarrow>
            (case json_string jr of Inl e \<Rightarrow> Inl e | Inr right \<Rightarrow>
              if left = [] \<or> right = [] then Inl EmptyMergeToken else Inr (left, right)))))"

definition string_merge :: "json \<Rightarrow> tokenizer_error + (u8 list \<times> u8 list)" where
  "string_merge merge_value =
     (case json_string merge_value of Inl e \<Rightarrow> Inl e | Inr merge \<Rightarrow>
        if 0x20 \<notin> set merge then Inl InvalidStringMerge
        else let left = takeWhile (\<lambda>b. b \<noteq> 0x20) merge;
                 right = drop (length left + 1) merge
             in if left = [] \<or> right = [] then Inl EmptyMergeToken else Inr (left, right))"

fun add_merges ::
  "(json \<Rightarrow> tokenizer_error + (u8 list \<times> u8 list)) \<Rightarrow> json list \<Rightarrow> nat \<Rightarrow> (u8 list \<rightharpoonup> nat)
    \<Rightarrow> tokenizer_error + (u8 list \<rightharpoonup> nat)" where
  "add_merges read [] rank ranks = Inr ranks"
| "add_merges read (m # ms) rank ranks =
     (case read m of
        Inl e \<Rightarrow> Inl e
      | Inr (left, right) \<Rightarrow> add_merges read ms (Suc rank) (emplace (pair_key left right) rank ranks))"

text \<open>\<open>merges[0]\<close> on anything but an array throws, \<open>empty()\<close> is true of null and of empty
  containers only.\<close>

definition load_merges :: "json \<Rightarrow> tokenizer_error + (u8 list \<rightharpoonup> nat)" where
  "load_merges merges =
     (if json_size merges = 0 then Inl MergesEmpty
      else case merges of
        JArray ms \<Rightarrow>
          (case hd ms of
             JArray _ \<Rightarrow> add_merges array_merge ms 0 Map.empty
           | JString _ \<Rightarrow> add_merges string_merge ms 0 Map.empty
           | _ \<Rightarrow> Inl UnsupportedMergeType)
      | _ \<Rightarrow> Inl JsonException)"

definition key_model :: "u8 list" where
  "key_model = [0x6D, 0x6F, 0x64, 0x65, 0x6C]"

definition key_vocab :: "u8 list" where
  "key_vocab = [0x76, 0x6F, 0x63, 0x61, 0x62]"

definition key_merges :: "u8 list" where
  "key_merges = [0x6D, 0x65, 0x72, 0x67, 0x65, 0x73]"

text \<open>The constructor, on the file's content: \<open>None\<close> when it cannot be opened, \<open>Some None\<close>
  when it does not parse.\<close>

definition load_tokenizer :: "json option option \<Rightarrow> tokenizer_error + tokenizer" where
  "load_tokenizer file =
     (case make_byte_encoder of Inl e \<Rightarrow> Inl e | Inr encoder \<Rightarrow>
        (case file of
           None \<Rightarrow> Inl TokenizerJsonNotFound
         | Some None \<Rightarrow> Inl JsonException
         | Some (Some document) \<Rightarrow>
             (case json_at document key_model of Inl e \<Rightarrow> Inl e | Inr model \<Rightarrow>
               (case json_at model key_vocab of Inl e \<Rightarrow> Inl e | Inr jvocab \<Rightarrow>
                 (case json_vocab jvocab of Inl e \<Rightarrow> Inl e | Inr vocab \<Rightarrow>
                   (case json_at model key_merges of Inl e \<Rightarrow> Inl e | Inr merges \<Rightarrow>
                     (case load_merges merges of Inl e \<Rightarrow> Inl e | Inr ranks \<Rightarrow>
                       Inr \<lparr>merge_ranks = ranks, byte_encoder = encoder, vocabulary = vocab\<rparr>)))))))"

section \<open>Encoding\<close>

text \<open>The scan for the pair of least rank: \<open>best\<close> is None while \<open>best_index\<close> is still
  \<open>pieces.size()\<close>.\<close>

fun best_pair :: "(u8 list \<rightharpoonup> nat) \<Rightarrow> u8 list list \<Rightarrow> nat \<Rightarrow> nat \<times> nat option \<Rightarrow> nat option" where
  "best_pair ranks (a # b # ps) index (best_rank, best_index) =
     best_pair ranks (b # ps) (Suc index)
       (case ranks (pair_key a b) of
          Some r \<Rightarrow> if r < best_rank then (r, Some index) else (best_rank, best_index)
        | None \<Rightarrow> (best_rank, best_index))"
| "best_pair ranks _ index (best_rank, best_index) = best_index"

text \<open>The inner merge loop: the index stays where it is after a merge.\<close>

fun merge_pass :: "u8 list \<Rightarrow> u8 list \<Rightarrow> u8 list list \<Rightarrow> u8 list list" where
  "merge_pass left right (a # b # ps) =
     (if a = left \<and> b = right then merge_pass left right ((a @ b) # ps)
      else a # merge_pass left right (b # ps))"
| "merge_pass left right ps = ps"

definition find_best :: "(u8 list \<rightharpoonup> nat) \<Rightarrow> u8 list list \<Rightarrow> nat option" where
  "find_best ranks pieces = best_pair ranks pieces 0 (size_max, None)"

lemma merge_pass_length: "length (merge_pass left right ps) \<le> length ps"
  by (induction left right ps rule: merge_pass.induct) auto

lemma merge_pass_shorter:
  "Suc i < length ps \<Longrightarrow> ps ! i = left \<Longrightarrow> ps ! Suc i = right \<Longrightarrow>
    length (merge_pass left right ps) < length ps"
proof (induction left right ps arbitrary: i rule: merge_pass.induct)
  case (1 left right a b ps)
  show ?case
  proof (cases "a = left \<and> b = right")
    case True
    then show ?thesis using merge_pass_length [of left right "(a @ b) # ps"] by simp
  next
    case False
    then obtain j where "i = Suc j" using "1.prems" by (cases i) auto
    with False "1.IH"(2) [of j] "1.prems" show ?thesis by auto
  qed
qed auto

lemma best_pair_bound:
  "best_pair ranks ps index (r, b) = Some i \<Longrightarrow>
    b = Some i \<or> (index \<le> i \<and> Suc i - index < length ps)"
proof (induction ps arbitrary: index r b rule: induct_list012)
  case (3 x y zs)
  then show ?case by (fastforce split: option.splits if_splits)
qed auto

lemma find_best_bound: "find_best ranks ps = Some i \<Longrightarrow> Suc i < length ps"
  unfolding find_best_def using best_pair_bound [of ranks ps 0 size_max None i] by simp

function bpe_merge :: "(u8 list \<rightharpoonup> nat) \<Rightarrow> u8 list list \<Rightarrow> u8 list list" where
  "bpe_merge ranks pieces =
     (if length pieces > 1
      then case find_best ranks pieces of
             None \<Rightarrow> pieces
           | Some i \<Rightarrow> bpe_merge ranks (merge_pass (pieces ! i) (pieces ! Suc i) pieces)
      else pieces)"
  by pat_completeness auto
termination
  by (relation "measure (\<lambda>(ranks, pieces). length pieces)")
    (auto intro: merge_pass_shorter dest: find_best_bound)

declare bpe_merge.simps [simp del]

text \<open>\<open>byte_encoder_.at\<close> throws on a missing byte.\<close>

fun encode_bytes :: "(u8 \<rightharpoonup> u8 list) \<Rightarrow> u8 list \<Rightarrow> u8 list list option" where
  "encode_bytes encoder [] = Some []"
| "encode_bytes encoder (b # bs) =
     (case encoder b of None \<Rightarrow> None
      | Some p \<Rightarrow> (case encode_bytes encoder bs of None \<Rightarrow> None | Some ps \<Rightarrow> Some (p # ps)))"

definition encode :: "tokenizer \<Rightarrow> u8 list \<Rightarrow> nat \<Rightarrow> tokenizer_error + u8 list list" where
  "encode t str max_tokens =
     (if str = [] \<or> max_tokens = 0 then Inr []
      else case encode_bytes (byte_encoder t) str of
        None \<Rightarrow> Inl OutOfRange
      | Some pieces0 \<Rightarrow>
          (let pieces = bpe_merge (merge_ranks t) pieces0
           in if \<exists>p \<in> set pieces. vocabulary t p = None then Inl NotInVocabulary
              else if length pieces > max_tokens
              then Inr (drop (length pieces - max_tokens) pieces)
              else Inr pieces))"

section \<open>The alphabet is a code\<close>

lemma utf8_from_code_point_eq:
  "point \<le> 0x10FFFF \<Longrightarrow> utf8_from_code_point point = Inr (append_utf8 point)"
  by (simp add: utf8_from_code_point_def append_utf8_def)

lemma encoder_entries_eq:
  "length bs = length us \<Longrightarrow> \<forall>u \<in> set us. u < 324 \<Longrightarrow>
    encoder_entries bs us m =
      Inr (emplace_all (zip (map of_nat bs) (map (\<lambda>u. append_utf8 (of_nat u)) us)) m)"
proof (induction bs us arbitrary: m rule: list_induct2')
  case (4 b bs u us)
  then have "(of_nat u :: u32) \<le> 0x10FFFF"
    by (simp add: word_le_nat_alt unsigned_of_nat take_bit_nat_eq_self)
  with 4 show ?case by (simp add: utf8_from_code_point_eq)
qed simp_all

definition byte_code :: "u8 \<Rightarrow> u8 list" where
  "byte_code b = the (projr make_byte_encoder b)"

lemma byte_index: "\<exists>i < 256. b = of_nat (fst byte_table ! i)" for b :: u8
proof -
  have "unat b \<in> set (fst byte_table)"
    using unsigned_less [of b, where ?'a = nat] byte_table_facts(5) by simp
  then obtain i where "i < 256" "fst byte_table ! i = unat b"
    using byte_table_facts(1) by (auto simp: in_set_conv_nth)
  then show ?thesis by (intro exI [of _ i]) simp
qed

lemma make_byte_encoder_map:
  "\<exists>m. make_byte_encoder = Inr m \<and>
    (\<forall>i < 256. m (of_nat (fst byte_table ! i)) = Some (append_utf8 (of_nat (snd byte_table ! i))))"
proof -
  let ?b = "map of_nat (fst byte_table) :: u8 list"
  let ?c = "map (\<lambda>u. append_utf8 (of_nat u)) (snd byte_table)"
  have inj: "inj_on (of_nat :: nat \<Rightarrow> u8) (set (fst byte_table))"
    by (rule inj_onI) (simp add: byte_table_facts(5) word_unat_eq_iff unsigned_of_nat take_bit_nat_eq_self)
  have len: "length ?b = 256" "length ?c = 256" "distinct ?b"
    using byte_table_facts inj by (simp_all add: distinct_map)
  have "make_byte_encoder = Inr (map_of (zip ?b ?c))"
    using encoder_entries_eq [of "fst byte_table" "snd byte_table" Map.empty] byte_table_facts len
    by (simp add: make_byte_encoder_def emplace_all_map_of)
  moreover have "map_of (zip ?b ?c) (of_nat (fst byte_table ! i)) =
      Some (append_utf8 (of_nat (snd byte_table ! i)))" if "i < 256" for i
    using map_of_zip_nth [of ?b ?c i] len that byte_table_facts(1,2) by simp
  ultimately show ?thesis by blast
qed

lemma byte_encoder_nth:
  "i < 256 \<Longrightarrow> projr make_byte_encoder (of_nat (fst byte_table ! i)) = Some (append_utf8 (of_nat (snd byte_table ! i)))"
  using make_byte_encoder_map by (metis sum.sel(2))

lemma byte_code_nth:
  "i < 256 \<Longrightarrow> byte_code (of_nat (fst byte_table ! i)) = append_utf8 (of_nat (snd byte_table ! i))"
  by (simp add: byte_code_def byte_encoder_nth)

lemma make_byte_encoder_eq: "make_byte_encoder = Inr (\<lambda>b. Some (byte_code b))"
proof -
  have "projr make_byte_encoder b = Some (byte_code b)" for b
    using byte_index [of b] by (auto simp: byte_code_def byte_encoder_nth)
  then have "projr make_byte_encoder = (\<lambda>b. Some (byte_code b))" by (rule ext)
  then show ?thesis using make_byte_encoder_map by (metis sum.sel(2))
qed

lemma decode_token_byte_code: "decode_token (byte_code b @ rest) = b # decode_token rest"
proof -
  obtain i where i: "i < 256" "b = of_nat (fst byte_table ! i)" using byte_index by blast
  show ?thesis using decode_token_code [OF i(1), of rest] i(2) byte_code_nth [OF i(1)] by simp
qed

interpretation bpe_codec: sequence_codec "\<lambda>_. True" byte_code decode_token "\<lambda>b. [b]"
  by unfold_locales (simp_all add: decode_token_byte_code)

lemma encode_bytes_eq: "encode_bytes (\<lambda>b. Some (byte_code b)) bs = Some (map byte_code bs)"
  by (induction bs) simp_all

section \<open>Merging\<close>

lemma concat_merge_pass: "concat (merge_pass left right ps) = concat ps"
  by (induction left right ps rule: merge_pass.induct) auto

lemma merge_pass_closed:
  assumes "\<And>p q. P p \<Longrightarrow> P q \<Longrightarrow> P (p @ q)"
  shows "\<forall>p \<in> set ps. P p \<Longrightarrow> \<forall>p \<in> set (merge_pass left right ps). P p"
  by (induction left right ps rule: merge_pass.induct) (auto intro: assms)

text \<open>What every merge keeps holds of the final pieces.\<close>

lemma bpe_merge_invariant:
  assumes step: "\<And>l r qs. P qs \<Longrightarrow> P (merge_pass l r qs)"
  shows "P ps \<Longrightarrow> P (bpe_merge ranks ps)"
proof (induction ranks ps rule: bpe_merge.induct)
  case (1 ranks ps)
  then show ?case
    by (subst bpe_merge.simps) (auto split: option.splits intro: step)
qed

lemma concat_bpe_merge: "concat (bpe_merge ranks ps) = concat ps"
  by (rule bpe_merge_invariant [where P = "\<lambda>qs. concat qs = concat ps"]) (simp_all add: concat_merge_pass)

lemma length_bpe_merge: "length (bpe_merge ranks ps) \<le> length ps"
  by (rule bpe_merge_invariant [where P = "\<lambda>qs. length qs \<le> length ps"])
    (simp_all add: order_trans [OF merge_pass_length])

lemma bpe_merge_pieces:
  "\<forall>p \<in> set ps. bpe_codec.piece p \<Longrightarrow> \<forall>p \<in> set (bpe_merge ranks ps). bpe_codec.piece p"
  by (rule bpe_merge_invariant [where P = "\<lambda>qs. \<forall>p \<in> set qs. bpe_codec.piece p"])
    (auto intro: merge_pass_closed [where P = bpe_codec.piece, rule_format] bpe_codec.piece_append)

lemma bpe_merge_final: "length (bpe_merge ranks ps) > 1 \<Longrightarrow> find_best ranks (bpe_merge ranks ps) = None"
proof (induction ranks ps rule: bpe_merge.induct)
  case (1 ranks ps)
  show ?case
  proof (cases "length ps > 1 \<and> find_best ranks ps \<noteq> None")
    case True
    then obtain i where i: "find_best ranks ps = Some i" by auto
    with True have "bpe_merge ranks ps = bpe_merge ranks (merge_pass (ps ! i) (ps ! Suc i) ps)"
      by (simp add: bpe_merge.simps [of ranks ps])
    with "1.IH" [OF _ i] True "1.prems" show ?thesis by simp
  next
    case False
    then have "bpe_merge ranks ps = ps" by (subst bpe_merge.simps) (auto split: option.splits)
    with False "1.prems" show ?thesis by auto
  qed
qed

text \<open>The rank of the pair at an index.\<close>

definition rank_at :: "(u8 list \<rightharpoonup> nat) \<Rightarrow> u8 list list \<Rightarrow> nat \<Rightarrow> nat option" where
  "rank_at ranks ps i = ranks (pair_key (ps ! i) (ps ! Suc i))"

lemma rank_at_Cons [simp]:
  "rank_at ranks (a # b # ps) 0 = ranks (pair_key a b)"
  "rank_at ranks (a # ps) (Suc j) = rank_at ranks ps j"
  by (simp_all add: rank_at_def)

lemma all_nat_split: "(\<forall>j. P j) \<longleftrightarrow> P 0 \<and> (\<forall>j. P (Suc j))"
  by (metis not0_implies_Suc)

text \<open>\<open>least_at\<close>: the pair at \<open>k\<close> has rank \<open>t\<close>, no pair has a smaller one and no
  earlier pair the same.\<close>

definition no_better :: "(u8 list \<rightharpoonup> nat) \<Rightarrow> u8 list list \<Rightarrow> nat \<Rightarrow> bool" where
  "no_better ranks ps r \<longleftrightarrow> (\<forall>j. Suc j < length ps \<longrightarrow> (\<forall>s. rank_at ranks ps j = Some s \<longrightarrow> r \<le> s))"

definition least_at :: "(u8 list \<rightharpoonup> nat) \<Rightarrow> u8 list list \<Rightarrow> nat \<Rightarrow> nat \<Rightarrow> bool" where
  "least_at ranks ps k t \<longleftrightarrow> Suc k < length ps \<and> rank_at ranks ps k = Some t
     \<and> no_better ranks ps t \<and> (\<forall>j < k. \<forall>s. rank_at ranks ps j = Some s \<longrightarrow> t < s)"

lemma no_better_Cons:
  "no_better ranks (a # b # ps) r \<longleftrightarrow>
    (\<forall>s. ranks (pair_key a b) = Some s \<longrightarrow> r \<le> s) \<and> no_better ranks (b # ps) r"
  unfolding no_better_def by (subst all_nat_split) simp

lemma best_pair_result:
  "(\<exists>k t. best_pair ranks ps index (r, b) = Some (index + k) \<and> least_at ranks ps k t \<and> t < r)
   \<or> (best_pair ranks ps index (r, b) = b \<and> no_better ranks ps r)"
proof (induction ps arbitrary: index r b rule: induct_list012)
  case (3 x y zs)
  let ?r = "case ranks (pair_key x y) of Some s \<Rightarrow> if s < r then s else r | None \<Rightarrow> r"
  let ?b = "case ranks (pair_key x y) of Some s \<Rightarrow> if s < r then Some index else b | None \<Rightarrow> b"
  have eq: "best_pair ranks (x # y # zs) index (r, b) = best_pair ranks (y # zs) (Suc index) (?r, ?b)"
    by (simp split: option.split)
  from "3.IH"(2) [of "Suc index" ?r ?b] show ?case
  proof (elim disjE exE conjE)
    fix k t
    assume k: "best_pair ranks (y # zs) (Suc index) (?r, ?b) = Some (Suc index + k)"
      and l: "least_at ranks (y # zs) k t" and t: "t < ?r"
    have s: "t < s" if "ranks (pair_key x y) = Some s" for s
      using t that by (auto split: if_splits)
    then have "least_at ranks (x # y # zs) (Suc k) t"
      using l unfolding least_at_def no_better_Cons
      by (auto simp: less_Suc_eq_0_disj less_imp_le)
    moreover have "t < r" using t by (auto split: option.splits if_splits)
    ultimately show ?thesis using eq k by (intro disjI1 exI [of _ "Suc k"] exI [of _ t]) simp
  next
    assume b: "best_pair ranks (y # zs) (Suc index) (?r, ?b) = ?b" and n: "no_better ranks (y # zs) ?r"
    show ?thesis
    proof (cases "\<exists>s. ranks (pair_key x y) = Some s \<and> s < r")
      case True
      then obtain s where s: "ranks (pair_key x y) = Some s" "s < r" by blast
      with n have "least_at ranks (x # y # zs) 0 s"
        unfolding least_at_def no_better_Cons by simp
      then show ?thesis using eq b s by (intro disjI1 exI [of _ 0] exI [of _ s]) simp
    next
      case False
      then have "?r = r" "?b = b" by (auto split: option.splits)
      moreover have "no_better ranks (x # y # zs) r"
        using n False calculation unfolding no_better_Cons by (auto simp: not_less)
      ultimately show ?thesis using eq b by simp
    qed
  qed
qed (simp_all add: no_better_def)

lemma find_best_Some: "find_best ranks ps = Some i \<Longrightarrow> \<exists>t < size_max. least_at ranks ps i t"
  using best_pair_result [of ranks ps 0 size_max None] unfolding find_best_def by auto

lemma find_best_None: "find_best ranks ps = None \<Longrightarrow> no_better ranks ps size_max"
  using best_pair_result [of ranks ps 0 size_max None] unfolding find_best_def by auto

section \<open>What the tokenizer guarantees\<close>

lemma load_tokenizer_encoder:
  "load_tokenizer file = Inr t \<Longrightarrow> byte_encoder t = (\<lambda>b. Some (byte_code b))"
  unfolding load_tokenizer_def make_byte_encoder_eq
  by (auto split: option.splits sum.splits)

lemma decode_whisper_tokens_eq:
  "\<forall>p \<in> set ps. \<not> special_token p \<Longrightarrow> decode_whisper_tokens ps = concat (map decode_token ps)"
  by (induction ps) simp_all

lemma encode_eq:
  assumes "byte_encoder t = (\<lambda>b. Some (byte_code b))" and "encode t str max_tokens = Inr ps"
    and "str \<noteq> []" and "max_tokens \<noteq> 0"
  defines "all \<equiv> bpe_merge (merge_ranks t) (map byte_code str)"
  shows "ps = drop (length all - max_tokens) all \<and> (\<forall>p \<in> set all. vocabulary t p \<noteq> None)"
  using assms by (auto simp: encode_def encode_bytes_eq Let_def split: if_splits)

lemma encoded_pieces:
  "\<forall>p \<in> set (bpe_merge ranks (map byte_code str)). bpe_codec.piece p"
  by (rule bpe_merge_pieces) (auto intro: bpe_codec.piece_code)


lemma byte_code_printable:
  assumes "unat b \<in> {33..<127}"
  shows "byte_code b = [b]"
proof -
  define i where "i = unat b - 33"
  have "i < length [33..<127::nat]" using assms by (auto simp: i_def)
  then have "fst byte_table ! i = unat b" "snd byte_table ! i = unat b"
    using assms by (simp_all add: byte_table_eq printable_bytes_def nth_append i_def)
  moreover have "i < 256" using assms by (auto simp: i_def)
  moreover have "(ucast (of_nat (unat b) :: u32) :: u8) = b"
    using assms by (simp add: word_unat_eq_iff unat_ucast_mod unsigned_of_nat take_bit_nat_eq_self)
  moreover have "(of_nat (unat b) :: u32) \<le> 0x7F"
    using assms by (simp add: word_le_nat_alt unat_ucast_u8_u32)
  ultimately have "byte_code (of_nat (unat b)) = [b]"
    using byte_code_nth [of i] by (simp add: append_utf8_def del: of_nat_unat)
  then show ?thesis by simp
qed

definition sample_document :: json where
  "sample_document = JObject [(key_model, JObject
     [(key_vocab, JObject [([0x61, 0x62], JInt 7), ([0x63], JInt 8)]),
      (key_merges, JArray [JString [0x61, 0x20, 0x62]])])]"

definition sample_tokenizer :: tokenizer where
  "sample_tokenizer = \<lparr>merge_ranks = [[0x61, 0, 0x62] \<mapsto> 0], byte_encoder = (\<lambda>b. Some (byte_code b)),
     vocabulary = [[0x63] \<mapsto> 8, [0x61, 0x62] \<mapsto> 7]\<rparr>"

lemma load_sample: "load_tokenizer (Some (Some sample_document)) = Inr sample_tokenizer"
  unfolding load_tokenizer_def make_byte_encoder_eq
  by (simp add: sample_document_def sample_tokenizer_def key_model_def key_vocab_def key_merges_def
      load_merges_def string_merge_def emplace_def pair_key_def)

lemma encode_sample:
  "encode sample_tokenizer [0x61, 0x62, 0x63] 5 = Inr [[0x61, 0x62], [0x63]]"
proof -
  have b: "byte_code 0x61 = [0x61]" "byte_code 0x62 = [0x62]" "byte_code 0x63 = [0x63]"
    by (rule byte_code_printable; simp)+
  show ?thesis
    by (simp add: encode_def sample_tokenizer_def b find_best_def pair_key_def
        size_max_def bpe_merge.simps)
qed


text \<open>C8: what encode returns: at most \<open>max_tokens\<close> tokens, each in the vocabulary, that
  spell a suffix of the prompt's byte alphabet encoding (the whole of it when they were not cut).\<close>

theorem encode_sound:
  assumes "load_tokenizer file = Inr t" and "encode t str max_tokens = Inr ps"
  shows "length ps \<le> max_tokens \<and> (\<forall>p \<in> set ps. vocabulary t p \<noteq> None)
    \<and> (max_tokens \<noteq> 0 \<longrightarrow> (\<exists>cut. concat (map byte_code str) = concat cut @ concat ps
         \<and> (length ps < max_tokens \<longrightarrow> cut = [])))"
proof (cases "str = [] \<or> max_tokens = 0")
  case True
  with assms(2) show ?thesis by (auto simp: encode_def)
next
  case False
  let ?all = "bpe_merge (merge_ranks t) (map byte_code str)"
  let ?n = "length ?all - max_tokens"
  have ps: "ps = drop ?n ?all" and v: "\<forall>p \<in> set ?all. vocabulary t p \<noteq> None"
    using encode_eq [OF load_tokenizer_encoder [OF assms(1)] assms(2)] False by auto
  have "concat (map byte_code str) = concat (take ?n ?all) @ concat ps"
    unfolding ps concat_append [symmetric] by (simp add: concat_bpe_merge)
  moreover have "length ps < max_tokens \<Longrightarrow> take ?n ?all = []" using ps by simp
  ultimately show ?thesis using ps v by (auto dest: in_set_dropD)
qed

theorem encode_sound_witness:
  "vocabulary sample_tokenizer [0x61, 0x62] \<noteq> None \<and> vocabulary sample_tokenizer [0x63] \<noteq> None"
  using encode_sound [OF load_sample encode_sample] by simp

lemma least_at_unique: "least_at ranks ps i t \<Longrightarrow> least_at ranks ps j s \<Longrightarrow> i = j"
  unfolding least_at_def no_better_def by (meson linorder_neqE_nat not_less)

text \<open>C9: the merge loop is the greedy BPE algorithm: while some adjacent pair has a rank, it
  merges the pair of least rank (the leftmost of them) everywhere, and it stops only when no adjacent
  pair of the result has a rank.\<close>

lemma bpe_merge_step:
  assumes "least_at ranks ps i t" and "t < size_max"
  shows "bpe_merge ranks ps = bpe_merge ranks (merge_pass (ps ! i) (ps ! Suc i) ps)"
proof -
  have t: "Suc i < length ps" "rank_at ranks ps i = Some t" using assms(1) by (auto simp: least_at_def)
  have "find_best ranks ps \<noteq> None"
    using find_best_None [of ranks ps] t assms(2) unfolding no_better_def by (metis not_le)
  then obtain k where k: "find_best ranks ps = Some k" by auto
  then have "k = i" using find_best_Some [OF k] assms(1) by (auto dest: least_at_unique)
  with k t show ?thesis by (subst bpe_merge.simps) simp
qed

lemma bpe_merge_done:
  assumes "Suc j < length (bpe_merge ranks ps)" and "rank_at ranks (bpe_merge ranks ps) j = Some s"
  shows "size_max \<le> s"
proof -
  have "no_better ranks (bpe_merge ranks ps) size_max"
    using assms(1) by (intro find_best_None bpe_merge_final) simp
  with assms show ?thesis by (auto simp: no_better_def)
qed

theorem bpe_merge_greedy:
  assumes "\<forall>k s. ranks k = Some s \<longrightarrow> s < size_max" and "least_at ranks ps i t"
  shows "bpe_merge ranks ps = bpe_merge ranks (merge_pass (ps ! i) (ps ! Suc i) ps)
    \<and> (\<forall>j. Suc j < length (bpe_merge ranks ps) \<longrightarrow> rank_at ranks (bpe_merge ranks ps) j = None)"
proof -
  have "t < size_max" using assms by (auto simp: least_at_def rank_at_def)
  moreover have "rank_at ranks (bpe_merge ranks ps) j = None" if "Suc j < length (bpe_merge ranks ps)" for j
    using bpe_merge_done [OF that] assms(1) that unfolding rank_at_def by (metis not_le option.exhaust)
  ultimately show ?thesis using bpe_merge_step [OF assms(2)] by blast
qed

theorem bpe_merge_greedy_witness:
  "bpe_merge [[0x61, 0, 0x62] \<mapsto> 0] [[0x61], [0x62], [0x63]]
     = bpe_merge [[0x61, 0, 0x62] \<mapsto> 0] [[0x61, 0x62], [0x63 :: u8]]"
proof -
  let ?r = "[[0x61, 0, 0x62] \<mapsto> 0] :: u8 list \<rightharpoonup> nat"
  have "\<forall>k s. ?r k = Some s \<longrightarrow> s < size_max" by (auto simp: size_max_def split: if_splits)
  moreover have "least_at ?r [[0x61], [0x62], [0x63]] 0 0"
    by (simp add: least_at_def no_better_def pair_key_def)
  ultimately show ?thesis
    using bpe_merge_greedy [of ?r "[[0x61], [0x62], [0x63]]" 0 0] by simp
qed

text \<open>The key of a pair determines the pair when the left token holds no NUL byte. In general it
  does not: a NUL in a token lets two pairs collide.\<close>

lemma pair_key_inj:
  assumes "0 \<notin> set l" and "0 \<notin> set l'" and "pair_key l r = pair_key l' r'"
  shows "l = l' \<and> r = r'"
proof -
  have t: "takeWhile (\<lambda>b. b \<noteq> 0) (pair_key x y) = x" if "0 \<notin> set x" for x y :: "u8 list"
    using that by (auto simp: pair_key_def takeWhile_append)
  have "l = l'" using t [OF assms(1), of r] t [OF assms(2), of r'] assms(3) by simp
  then show ?thesis using assms(3) by (simp add: pair_key_def)
qed

lemma pair_key_collision: "pair_key [0x61, 0] [0x62] = pair_key [0x61] [0, 0x62]"
  by (simp add: pair_key_def)

text \<open>Both merge formats of tokenizer.json, strings "left right" and arrays [left, right],
  load the same ranks: a pair's rank is the position of its first occurrence in the list.\<close>

fun first_ranks :: "(u8 list \<times> u8 list) list \<Rightarrow> nat \<Rightarrow> (u8 list \<rightharpoonup> nat) \<Rightarrow> (u8 list \<rightharpoonup> nat)" where
  "first_ranks [] rank m = m"
| "first_ranks ((l, r) # ps) rank m = first_ranks ps (Suc rank) (emplace (pair_key l r) rank m)"

lemma add_merges_read:
  "\<forall>(l, r) \<in> set ps. read (f (l, r)) = Inr (l, r) \<Longrightarrow>
    add_merges read (map f ps) rank m = Inr (first_ranks ps rank m)"
  by (induction ps arbitrary: rank m) auto

lemma emplace_Some: "m k = Some v \<Longrightarrow> emplace k' v' m k = Some v"
  by (auto simp: emplace_def split: option.splits)

lemma first_ranks_keep: "m k = Some v \<Longrightarrow> first_ranks ps rank m k = Some v"
  by (induction ps rank m rule: first_ranks.induct) (auto simp: emplace_Some)

lemma first_ranks_nth:
  assumes "\<forall>(l, r) \<in> set ps. 0 \<notin> set l" and "i < length ps" and "ps ! i = (l, r)"
    and "\<forall>j < i. ps ! j \<noteq> (l, r)" and "m (pair_key l r) = None"
  shows "first_ranks ps rank m (pair_key l r) = Some (rank + i)"
  using assms
proof (induction ps arbitrary: i rank m)
  case (Cons p ps)
  obtain l' r' where p: "p = (l', r')" by (cases p)
  show ?case
  proof (cases i)
    case 0
    then show ?thesis
      using Cons.prems p by (auto simp: emplace_def intro: first_ranks_keep)
  next
    case (Suc k)
    have "(l', r') \<noteq> (l, r)" using Cons.prems(4) Suc p by auto
    moreover have "0 \<notin> set l" "0 \<notin> set l'"
      using Cons.prems(1,2,3) Suc p nth_mem [of k ps] by auto
    ultimately have "emplace (pair_key l' r') rank m (pair_key l r) = None"
      using Cons.prems(5) pair_key_inj [of l' l r' r]
      by (auto simp: emplace_def split: option.splits)
    moreover have "\<forall>j < k. ps ! j \<noteq> (l, r)" using Cons.prems(4) Suc by auto
    ultimately show ?thesis
      using Cons.IH [of k "emplace (pair_key l' r') rank m" "Suc rank"] Cons.prems Suc p by simp
  qed
qed simp

theorem merge_formats_agree:
  assumes "ps \<noteq> []" and "\<forall>(l, r) \<in> set ps. l \<noteq> [] \<and> r \<noteq> [] \<and> 0x20 \<notin> set l \<and> 0 \<notin> set l"
  shows "\<exists>ranks. load_merges (JArray (map (\<lambda>(l, r). JString (l @ [0x20] @ r)) ps)) = Inr ranks
    \<and> load_merges (JArray (map (\<lambda>(l, r). JArray [JString l, JString r]) ps)) = Inr ranks
    \<and> (\<forall>i < length ps. (\<forall>j < i. ps ! j \<noteq> ps ! i) \<longrightarrow>
         ranks (pair_key (fst (ps ! i)) (snd (ps ! i))) = Some i)"
proof -
  have s: "\<forall>(l, r) \<in> set ps. string_merge ((\<lambda>(l, r). JString (l @ [0x20] @ r)) (l, r)) = Inr (l, r)"
    using assms(2) by (auto simp: string_merge_def Let_def takeWhile_append)
  have a: "\<forall>(l, r) \<in> set ps. array_merge ((\<lambda>(l, r). JArray [JString l, JString r]) (l, r)) = Inr (l, r)"
    using assms(2) by (auto simp: array_merge_def)
  obtain q qs where q: "ps = q # qs" using assms(1) by (cases ps) auto
  have "load_merges (JArray (map (\<lambda>(l, r). JString (l @ [0x20] @ r)) ps)) = Inr (first_ranks ps 0 Map.empty)"
    using add_merges_read [OF s, of 0 Map.empty] q by (cases q) (simp add: load_merges_def)
  moreover have "load_merges (JArray (map (\<lambda>(l, r). JArray [JString l, JString r]) ps)) = Inr (first_ranks ps 0 Map.empty)"
    using add_merges_read [OF a, of 0 Map.empty] q by (cases q) (simp add: load_merges_def)
  moreover have "first_ranks ps 0 Map.empty (pair_key (fst (ps ! i)) (snd (ps ! i))) = Some i"
    if "i < length ps" "\<forall>j < i. ps ! j \<noteq> ps ! i" for i
    using first_ranks_nth [of ps i "fst (ps ! i)" "snd (ps ! i)" Map.empty 0] that assms(2)
    by auto
  ultimately show ?thesis by blast
qed

theorem merge_formats_agree_witness:
  "\<exists>ranks. load_merges (JArray [JString [0x61, 0x20, 0x62]]) = Inr ranks
     \<and> load_merges (JArray [JArray [JString [0x61], JString [0x62]]]) = Inr ranks"
  using merge_formats_agree [of "[([0x61], [0x62])]"] by simp blast

end
