(* ===== verification/Fft.thy ===== *)
theory Fft
  imports Complex_Main Prelude
begin

text \<open>
  The 400-point mixed-radix FFT of CTranslate2/whisper-feature-extractor.cpp. The two work areas
  are lists, a pointer into one of them is an offset, and the recursion swaps their roles as the
  code does. Coefficients are elements of a commutative ring: the rounding of \<open>float\<close> is not
  modelled, the indices, strides and the table look-ups are.
\<close>

section \<open>The factorisation\<close>

definition kFftSize :: nat where
  "kFftSize = 400"

definition fft_factor :: "nat \<Rightarrow> nat" where
  "fft_factor n = (if n = 400 \<or> n = 200 \<or> n = 100 \<or> n = 50 then 2 else if n = 25 then 5 else n)"

definition fft_part_size :: "nat \<Rightarrow> nat" where
  "fft_part_size n = (if n = 400 then 200 else if n = 200 then 100 else if n = 100 then 50
    else if n = 50 then 25 else if n = 25 then 5 else 0)"

definition fft_root_stride :: "nat \<Rightarrow> nat" where
  "fft_root_stride n = (if n = 400 then 1 else if n = 200 then 2 else if n = 100 then 4
    else if n = 50 then 8 else if n = 25 then 16 else if n = 5 then 80 else 0)"

definition fft_roots :: "complex list" where
  "fft_roots = map (\<lambda>index. Complex (cos (- 2 * pi * real index * (1 / real kFftSize)))
     (sin (- 2 * pi * real index * (1 / real kFftSize)))) [0..<kFftSize]"

definition fft_root :: "'a list \<Rightarrow> nat \<Rightarrow> nat \<Rightarrow> 'a" where
  "fft_root roots n exponent = roots ! (((exponent mod n) * fft_root_stride n) mod kFftSize)"

section \<open>The transform\<close>

text \<open>\<open>fft roots inp io stride (out, scr) oo so n\<close>: the input pointer is \<open>inp + io\<close>, the output
  \<open>out + oo\<close>, the scratch area \<open>scr + so\<close>; the result is the two areas.\<close>

function fft :: "'a::comm_ring_1 list \<Rightarrow> 'a list \<Rightarrow> nat \<Rightarrow> nat \<Rightarrow> 'a list \<times> 'a list
    \<Rightarrow> nat \<Rightarrow> nat \<Rightarrow> nat \<Rightarrow> 'a list \<times> 'a list" where
  "fft roots inp io stride (out, scr) oo so n =
     (if n \<le> 1 then (if n = 1 then (out[oo := inp ! io], scr) else (out, scr))
      else if fft_factor n = n then
        (for_range 0 n (\<lambda>k out.
           for_range 0 n (\<lambda>t out. out[oo + k := out ! (oo + k) + inp ! (io + t * stride) * fft_root roots n (k * t)])
             (out[oo + k := 0])) out, scr)
      else
        let part_size = fft_part_size n;
            (out, scr) = for_range 0 (fft_factor n) (\<lambda>part (out, scr).
              let (scr, out) = fft roots inp (io + part * stride) (stride * fft_factor n) (scr, out)
                    (so + part * part_size) (oo + part * part_size) part_size
              in (out, scr)) (out, scr)
        in (for_range 0 n (\<lambda>k out.
              for_range 0 (fft_factor n) (\<lambda>part out.
                out[oo + k := out ! (oo + k) + scr ! (so + (part * part_size + k mod part_size)) * fft_root roots n (part * k)])
                (out[oo + k := 0])) out, scr))"
  by pat_completeness auto
termination
  by (relation "measure (\<lambda>(roots, inp, io, stride, bufs, oo, so, n). n)")
    (auto simp: fft_part_size_def fft_factor_def split: if_splits)

declare fft.simps [simp del]

section \<open>It computes the discrete Fourier transform\<close>

text \<open>The \<open>k\<close>-th coefficient of the transform of \<open>n\<close> samples taken at a stride, for the root
  \<open>w\<close>.\<close>

definition dft :: "'a::comm_ring_1 \<Rightarrow> 'a list \<Rightarrow> nat \<Rightarrow> nat \<Rightarrow> nat \<Rightarrow> nat \<Rightarrow> 'a" where
  "dft w inp io stride n k = (\<Sum>t<n. inp ! (io + t * stride) * w ^ (k * t))"

definition root_table :: "'a::comm_ring_1 \<Rightarrow> 'a list \<Rightarrow> bool" where
  "root_table w roots \<longleftrightarrow> length roots = kFftSize \<and> w ^ kFftSize = 1 \<and> (\<forall>i < kFftSize. roots ! i = w ^ i)"

definition fft_sizes :: "nat set" where
  "fft_sizes = {400, 200, 100, 50, 25, 5}"

lemma fft_size_facts:
  assumes "n \<in> fft_sizes"
  shows "n * fft_root_stride n = 400" and "1 < n"
    and "fft_factor n \<noteq> n \<Longrightarrow> fft_part_size n \<in> fft_sizes \<and> fft_part_size n < n
      \<and> fft_part_size n * fft_factor n = n
      \<and> fft_root_stride (fft_part_size n) = fft_root_stride n * fft_factor n"
  using assms by (auto simp: fft_sizes_def fft_root_stride_def fft_factor_def fft_part_size_def)

lemma power_mod_period:
  fixes w :: "'a::comm_ring_1"
  assumes "w ^ n = 1"
  shows "w ^ (e mod n) = w ^ e"
proof -
  have "w ^ e = w ^ (n * (e div n) + e mod n)" by simp
  also have "\<dots> = (w ^ n) ^ (e div n) * w ^ (e mod n)" by (simp only: power_add power_mult)
  finally show ?thesis using assms by simp
qed

lemma fft_root_power:
  assumes "root_table w roots" and "n \<in> fft_sizes"
  shows "fft_root roots n e = (w ^ fft_root_stride n) ^ e"
proof -
  let ?s = "fft_root_stride n"
  have w: "w ^ 400 = 1" "\<And>i. i < 400 \<Longrightarrow> roots ! i = w ^ i"
    using assms(1) by (auto simp: root_table_def kFftSize_def)
  have "(w ^ ?s) ^ n = 1"
    using fft_size_facts(1) [OF assms(2)] w(1) by (simp flip: power_mult add: mult.commute)
  have "fft_root roots n e = w ^ (((e mod n) * ?s) mod 400)"
    using w(2) by (simp add: fft_root_def kFftSize_def)
  also have "\<dots> = (w ^ ?s) ^ (e mod n)"
    using power_mod_period [OF w(1)] by (simp add: power_mult mult.commute flip: power_mult)
  also have "\<dots> = (w ^ ?s) ^ e"
    using power_mod_period [OF \<open>(w ^ ?s) ^ n = 1\<close>] .
  finally show ?thesis .
qed

text \<open>Decimation in time: \<open>f\<close> interleaved transforms of size \<open>p\<close> give one of size \<open>p * f\<close>.\<close>

lemma dft_split:
  fixes w :: "'a::comm_ring_1"
  assumes "w ^ (p * f) = 1"
  shows "(\<Sum>part<f. dft (w ^ f) inp (io + part * stride) (stride * f) p (k mod p) * w ^ (part * k))
    = dft w inp io stride (p * f) k"
proof -
  have rf: "(w ^ f) ^ p = 1" using assms by (simp flip: power_mult add: mult.commute)
  have root: "(w ^ f) ^ (t * (k mod p)) = w ^ (t * (f * k))" for t
  proof -
    have "(w ^ f) ^ (t * (k mod p)) = ((w ^ f) ^ (k mod p)) ^ t"
      by (simp only: power_mult mult.commute [of t "k mod p"])
    also have "\<dots> = ((w ^ f) ^ k) ^ t" by (simp only: power_mod_period [OF rf])
    also have "\<dots> = w ^ (t * (f * k))" by (simp add: mult.commute flip: power_mult)
    finally show ?thesis .
  qed
  have "(\<Sum>part<f. dft (w ^ f) inp (io + part * stride) (stride * f) p (k mod p) * w ^ (part * k))
      = (\<Sum>part<f. \<Sum>t<p. inp ! (io + (t * f + part) * stride) * w ^ (k * (t * f + part)))"
    unfolding dft_def sum_distrib_right
    by (intro sum.cong refl) (simp add: root power_add algebra_simps)
  also have "\<dots> = (\<Sum>t<p. \<Sum>part<f. inp ! (io + (t * f + part) * stride) * w ^ (k * (t * f + part)))"
    by (rule sum.swap)
  also have "\<dots> = (\<Sum>t<p. \<Sum>i\<in>{t * f..<t * f + f}. inp ! (io + i * stride) * w ^ (k * i))"
  proof (rule sum.cong [OF refl])
    fix t :: nat
    show "(\<Sum>part<f. inp ! (io + (t * f + part) * stride) * w ^ (k * (t * f + part)))
      = (\<Sum>i\<in>{t * f..<t * f + f}. inp ! (io + i * stride) * w ^ (k * i))"
      using sum.shift_bounds_nat_ivl [of "\<lambda>i. inp ! (io + i * stride) * w ^ (k * i)" 0 "t * f" f]
      by (simp add: atLeast0LessThan add.commute)
  qed
  also have "\<dots> = dft w inp io stride (p * f) k"
    by (simp add: dft_def sum.nat_group)
  finally show ?thesis .
qed

text \<open>What a call promises: its output window holds the transform, and both areas are unchanged
  outside their windows.\<close>

definition fft_result :: "'a::comm_ring_1 \<Rightarrow> 'a list \<Rightarrow> nat \<Rightarrow> nat \<Rightarrow> 'a list \<Rightarrow> 'a list \<Rightarrow> nat \<Rightarrow> nat
    \<Rightarrow> nat \<Rightarrow> 'a list \<times> 'a list \<Rightarrow> bool" where
  "fft_result w inp io stride out scr oo so n r \<longleftrightarrow>
     length (fst r) = length out \<and> length (snd r) = length scr
   \<and> (\<forall>i < length out. fst r ! i = (if oo \<le> i \<and> i < oo + n then dft w inp io stride n (i - oo) else out ! i))
   \<and> (\<forall>i < length scr. \<not> (so \<le> i \<and> i < so + n) \<longrightarrow> snd r ! i = scr ! i)"

text \<open>The innermost loops of the two cases accumulate a sum into each output element.\<close>

lemma for_range_rows:
  fixes g :: "nat \<Rightarrow> nat \<Rightarrow> 'a::comm_ring_1"
  shows "for_range 0 n (\<lambda>k out. for_range 0 m (\<lambda>t out. out[j + k := out ! (j + k) + g k t]) (out[j + k := 0])) out
    = for_range 0 n (\<lambda>k out. out[j + k := (\<Sum>t<m. g k t)]) out"
  by (rule for_range_cong) (simp_all add: for_range_accumulate)

lemma fft_step_parts:
  fixes F :: "nat \<Rightarrow> 'a::comm_ring_1 list \<times> 'a list \<Rightarrow> 'a list \<times> 'a list"
  assumes call: "\<And>part o' s'. part < f \<Longrightarrow> length o' = length out \<Longrightarrow> length s' = length scr \<Longrightarrow>
      fft_result (w ^ f) inp (io + part * stride) (stride * f) s' o' (so + part * p) (oo + part * p) p (F part (s', o'))"
  shows "\<exists>out1 scr1. for_range 0 f (\<lambda>part (out, scr). let (scr, out) = F part (scr, out) in (out, scr)) (out, scr) = (out1, scr1)
    \<and> length out1 = length out \<and> length scr1 = length scr
    \<and> (\<forall>i < length scr. scr1 ! i = (if so \<le> i \<and> i < so + p * f
          then dft (w ^ f) inp (io + ((i - so) div p) * stride) (stride * f) p ((i - so) mod p) else scr ! i))
    \<and> (\<forall>i < length out. \<not> (oo \<le> i \<and> i < oo + p * f) \<longrightarrow> out1 ! i = out ! i)"
proof -
  let ?P = "\<lambda>q (out1, scr1). length out1 = length out \<and> length scr1 = length scr
    \<and> (\<forall>i < length scr. scr1 ! i = (if so \<le> i \<and> i < so + p * q
          then dft (w ^ f) inp (io + ((i - so) div p) * stride) (stride * f) p ((i - so) mod p) else scr ! i))
    \<and> (\<forall>i < length out. \<not> (oo \<le> i \<and> i < oo + p * q) \<longrightarrow> out1 ! i = out ! i)"
  let ?r = "for_range 0 f (\<lambda>part (out, scr). let (scr, out) = F part (scr, out) in (out, scr)) (out, scr)"
  have "?P f ?r"
  proof (rule for_range_invariant [where P = ?P])
    fix q r
    assume q: "q < f" and P: "?P q r"
    obtain o1 s1 where r: "r = (o1, s1)" by (cases r)
    obtain s2 o2 where F: "F q (s1, o1) = (s2, o2)" by (cases "F q (s1, o1)")
    have len: "length o1 = length out" "length s1 = length scr" using P r by auto
    note res = call [OF q len, unfolded F fft_result_def, simplified, rule_format]
    have div: "(i - so) div p = q \<and> (i - so) mod p = i - (so + q * p)"
      if "so + q * p \<le> i" "i < so + q * p + p" for i
    proof -
      note i = that
      obtain j where j: "i = so + q * p + j" using le_Suc_ex [OF i(1)] by auto
      then have jp: "j < p" using that(2) by (metis nat_add_left_cancel_less)
      have e: "i - so = q * p + j" "i - (so + q * p) = j" using j by (metis add.assoc add_diff_cancel_left')+
      show ?thesis unfolding e using jp by simp
    qed
    have "s2 ! i = (if so \<le> i \<and> i < so + p * Suc q
        then dft (w ^ f) inp (io + ((i - so) div p) * stride) (stride * f) p ((i - so) mod p) else scr ! i)"
      if i: "i < length scr" for i
    proof (cases "so + q * p \<le> i \<and> i < so + q * p + p")
      case True
      then have "so \<le> i \<and> i < so + p * Suc q" by (simp add: algebra_simps)
      then show ?thesis using True res i len div [of i] by simp
    next
      case False
      then have "so \<le> i \<and> i < so + p * Suc q \<longleftrightarrow> so \<le> i \<and> i < so + p * q"
        by (auto simp: algebra_simps)
      moreover have "s2 ! i = s1 ! i" using False res i len by auto
      ultimately show ?thesis using P r i by simp
    qed
    moreover have "o2 ! i = out ! i" if "i < length out" "\<not> (oo \<le> i \<and> i < oo + p * Suc q)" for i
    proof -
      have "\<not> (oo + q * p \<le> i \<and> i < oo + q * p + p)" "\<not> (oo \<le> i \<and> i < oo + p * q)"
        using that by (auto simp: algebra_simps)
      then show ?thesis using P r res len that(1) by auto
    qed
    ultimately show "?P (Suc q) (case r of (out, scr) \<Rightarrow> let (scr, out) = F q (scr, out) in (out, scr))"
      using r F res len by simp
  qed auto
  then show ?thesis by (cases ?r) simp
qed

lemma fft_correct_gen:
  fixes w :: "'a::comm_ring_1"
  assumes "root_table w roots" and "n \<in> fft_sizes" and "oo + n \<le> length out" and "so + n \<le> length scr"
  shows "fft_result (w ^ fft_root_stride n) inp io stride out scr oo so n (fft roots inp io stride (out, scr) oo so n)"
  using assms(2-)
proof (induction n arbitrary: io stride out scr oo so rule: less_induct)
  case (less n)
  let ?w = "w ^ fft_root_stride n"
  note facts = fft_size_facts [OF less.prems(1)] and root = fft_root_power [OF assms(1) less.prems(1)]
  show ?case
  proof (cases "fft_factor n = n")
    case True
    then have "fft roots inp io stride (out, scr) oo so n =
        (for_range 0 n (\<lambda>k out. out[oo + k := dft ?w inp io stride n k]) out, scr)"
      using facts(2) by (simp add: fft.simps [of _ _ _ _ _ _ _ _ n] root dft_def for_range_rows)
    then show ?thesis by (simp add: fft_result_def nth_for_range_update)
  next
    case False
    let ?p = "fft_part_size n" and ?f = "fft_factor n"
    let ?F = "\<lambda>part bufs. fft roots inp (io + part * stride) (stride * ?f) bufs (so + part * ?p) (oo + part * ?p) ?p"
    have p: "?p \<in> fft_sizes" "?p < n" "?p * ?f = n" "fft_root_stride ?p = fft_root_stride n * ?f"
      using facts(3) [OF False] by auto
    have w: "w ^ fft_root_stride ?p = ?w ^ ?f" by (simp add: p(4) power_mult)
    have "?w ^ n = 1"
      using assms(1) facts(1) by (simp add: root_table_def kFftSize_def mult.commute flip: power_mult)
    have "fft_result (?w ^ ?f) inp (io + part * stride) (stride * ?f) s' o' (so + part * ?p) (oo + part * ?p) ?p (?F part (s', o'))"
      if "part < ?f" "length o' = length out" "length s' = length scr" for part o' s'
    proof -
      have "part * ?p + ?p \<le> n" using that(1) p(3) by (metis mult_Suc Suc_leI add.commute mult.commute mult_le_mono1)
      then show ?thesis
        using less.IH [OF p(2,1), of "so + part * ?p" s' "oo + part * ?p" o'] less.prems that by (simp add: w)
    qed
    from fft_step_parts [OF this] obtain out1 scr1 where
      parts: "for_range 0 ?f (\<lambda>part (out, scr). let (scr, out) = ?F part (scr, out) in (out, scr)) (out, scr) = (out1, scr1)"
      and len: "length out1 = length out" "length scr1 = length scr"
      and s1: "\<And>i. i < length scr \<Longrightarrow> scr1 ! i = (if so \<le> i \<and> i < so + n
          then dft (?w ^ ?f) inp (io + ((i - so) div ?p) * stride) (stride * ?f) ?p ((i - so) mod ?p) else scr ! i)"
      and o1: "\<And>i. i < length out \<Longrightarrow> \<not> (oo \<le> i \<and> i < oo + n) \<Longrightarrow> out1 ! i = out ! i"
      unfolding p(3) by blast
    have "scr1 ! (so + (part * ?p + k mod ?p)) = dft (?w ^ ?f) inp (io + part * stride) (stride * ?f) ?p (k mod ?p)"
      if "part < ?f" for part k
    proof -
      have "k mod ?p < ?p" using p(1) by (auto simp: fft_sizes_def)
      moreover then have "part * ?p + k mod ?p < Suc part * ?p" by simp
      moreover have "Suc part * ?p \<le> ?f * ?p" using that by (intro mult_le_mono1) simp
      ultimately show ?thesis using s1 less.prems p(3) by (simp add: mult.commute)
    qed
    then have "(\<Sum>part<?f. scr1 ! (so + (part * ?p + k mod ?p)) * ?w ^ (part * k)) = dft ?w inp io stride n k" for k
      using dft_split [of ?w ?p ?f inp io stride k] \<open>?w ^ n = 1\<close> p(3) by simp
    then have "fft roots inp io stride (out, scr) oo so n =
        (for_range 0 n (\<lambda>k out. out[oo + k := dft ?w inp io stride n k]) out1, scr1)"
      using facts(2) False
      by (simp add: fft.simps [of _ _ _ _ _ _ _ _ n] parts [unfolded Let_def] root for_range_rows Let_def)
    then show ?thesis by (simp add: fft_result_def nth_for_range_update len s1 o1)
  qed
qed

section \<open>The transform the feature extractor runs\<close>

lemma fft_roots_cis: "index < kFftSize \<Longrightarrow> fft_roots ! index = cis (- 2 * pi / 400) ^ index"
proof -
  assume i: "index < kFftSize"
  have "fft_roots ! index = map (\<lambda>index. cis (- 2 * pi * real index * (1 / real kFftSize))) [0..<kFftSize] ! index"
    by (simp only: fft_roots_def cis.code)
  also have "\<dots> = cis (- 2 * pi * real index * (1 / real kFftSize))"
    by (subst nth_map) (use i in simp_all)
  also have "- 2 * pi * real index * (1 / real kFftSize) = real index * (- 2 * pi / 400)"
    by (simp add: kFftSize_def)
  finally show ?thesis by (simp only: DeMoivre)
qed

lemma fft_roots_table: "root_table (cis (- 2 * pi / 400)) fft_roots"
proof -
  have "cis (- 2 * pi / 400) ^ 400 = cis (- (2 * pi))" by (simp add: DeMoivre)
  also have "\<dots> = 1" by (metis cis_cnj cis_2pi complex_cnj_one)
  finally show ?thesis using fft_roots_cis by (simp add: root_table_def kFftSize_def fft_roots_def)
qed

text \<open>C11: on buffers of 400 elements, and whatever the output and the scratch area held before, the
  mixed-radix recursion leaves in the output the discrete Fourier transform of the input: its k-th
  element is the sum over t of input[t] times exp(-2 pi i k t / 400).\<close>

theorem fft_is_dft:
  assumes "length inp = 400" and "length out = 400" and "length scr = 400"
  shows "fst (fft fft_roots inp 0 1 (out, scr) 0 0 kFftSize) =
    map (\<lambda>k. \<Sum>t<400. inp ! t * cis (- 2 * pi * real k * real t / 400)) [0..<400]"
proof -
  let ?r = "fft fft_roots inp 0 1 (out, scr) 0 0 kFftSize"
  have "fft_result (cis (- 2 * pi / 400) ^ fft_root_stride 400) inp 0 1 out scr 0 0 400
      (fft fft_roots inp 0 1 (out, scr) 0 0 400)"
    by (rule fft_correct_gen [OF fft_roots_table]) (simp_all add: assms fft_sizes_def)
  then have len: "length (fst ?r) = 400"
    and nth: "\<And>k. k < 400 \<Longrightarrow> fst ?r ! k = dft (cis (- 2 * pi / 400)) inp 0 1 400 k"
    using assms(2) by (simp_all add: fft_result_def kFftSize_def fft_root_stride_def)
  have "dft (cis (- 2 * pi / 400)) inp 0 1 400 k =
      (\<Sum>t<400. inp ! t * cis (- 2 * pi * real k * real t / 400))" for k
    by (simp add: dft_def DeMoivre mult_ac)
  then show ?thesis using len nth by (intro nth_equalityI) simp_all
qed

theorem fft_is_dft_witness:
  "fst (fft fft_roots (1 # replicate 399 0) 0 1 (replicate 400 7, replicate 400 9) 0 0 kFftSize) = replicate 400 1"
proof -
  have "(\<Sum>t<400. (1 # replicate 399 0) ! t * cis (- 2 * pi * real k * real t / 400)) = 1" for k
  proof -
    have "(\<Sum>t<400. (1 # replicate 399 0) ! t * cis (- 2 * pi * real k * real t / 400))
        = (\<Sum>t\<in>{0::nat}. (1 # replicate 399 0) ! t * cis (- 2 * pi * real k * real t / 400))"
      by (rule sum.mono_neutral_right) (auto simp: nth_Cons')
    then show ?thesis by simp
  qed
  then show ?thesis
    using fft_is_dft [of "1 # replicate 399 0" "replicate 400 7" "replicate 400 9"]
    by (simp add: map_replicate_const del: upt_conv_Cons)
qed

end
