(* ===== verification/ParallelFor.thy ===== *)
theory ParallelFor
  imports Prelude
begin

text \<open>
  How CTranslate2/upstream/src/cpu/parallel.h splits a range over the thread pool: \<open>parallel_for\<close>
  (the branch without OpenMP, the one the project builds) and the class \<open>blocks\<close> of
  BS_thread_pool.hpp. The result of \<open>parallel_for\<close> is the list of calls \<open>f(begin, end)\<close> it makes;
  the calls of one list may run concurrently.
\<close>

definition ceil_divide :: "nat \<Rightarrow> nat \<Rightarrow> nat" where
  "ceil_divide x y = (x + y - 1) div y"

record blocks =
  block_size :: nat
  num_blocks :: nat
  remainder :: nat
  first_index :: nat
  index_after_last :: nat

definition make_blocks :: "nat \<Rightarrow> nat \<Rightarrow> nat \<Rightarrow> blocks" where
  "make_blocks first after n =
     (if after > first then
        let total_size = after - first;
            nb = min n total_size;
            bs = total_size div nb;
            r = total_size mod nb
        in if bs = 0
           then \<lparr>block_size = 1, num_blocks = (if total_size > 1 then total_size else 1), remainder = r,
                 first_index = first, index_after_last = after\<rparr>
           else \<lparr>block_size = bs, num_blocks = nb, remainder = r,
                 first_index = first, index_after_last = after\<rparr>
      else \<lparr>block_size = 0, num_blocks = 0, remainder = 0, first_index = first, index_after_last = after\<rparr>)"

definition block_start :: "blocks \<Rightarrow> nat \<Rightarrow> nat" where
  "block_start b block = first_index b + block * block_size b + (if block < remainder b then block else remainder b)"

definition block_end :: "blocks \<Rightarrow> nat \<Rightarrow> nat" where
  "block_end b block = (if block = num_blocks b - 1 then index_after_last b else block_start b (block + 1))"

definition enqueue_blocks :: "nat \<Rightarrow> nat \<Rightarrow> nat \<Rightarrow> nat \<Rightarrow> (nat \<times> nat) list" where
  "enqueue_blocks thread_count first after n =
     (if after > first then
        let blks = make_blocks first after (if n \<noteq> 0 then n else thread_count)
        in map (\<lambda>i. (block_start blks i, block_end blks i)) [0..<num_blocks blks]
      else [])"

definition parallel_for :: "nat \<Rightarrow> nat \<Rightarrow> nat \<Rightarrow> nat \<Rightarrow> nat \<Rightarrow> (nat \<times> nat) list" where
  "parallel_for num_threads thread_count begin_index end_index grain_size =
     (if begin_index \<ge> end_index then []
      else
        let size = end_index - begin_index;
            n = (if grain_size > 0 then min num_threads (ceil_divide size grain_size) else num_threads)
        in if n = 1 then [(begin_index, end_index)]
           else enqueue_blocks thread_count begin_index end_index n)"

section \<open>The blocks partition the range\<close>

lemma make_blocks_pos:
  assumes "first < after" and "0 < n"
  shows "make_blocks first after n = \<lparr>block_size = (after - first) div min n (after - first),
    num_blocks = min n (after - first), remainder = (after - first) mod min n (after - first),
    first_index = first, index_after_last = after\<rparr>"
proof -
  have "(after - first) div min n (after - first) \<noteq> 0"
    using assms by (simp add: div_eq_0_iff)
  then show ?thesis using assms by (simp add: make_blocks_def Let_def)
qed

lemma block_bounds:
  assumes "first < after" and "0 < n"
  defines "b \<equiv> make_blocks first after n"
  shows "block_start b 0 = first"
    and "block_start b (num_blocks b) = after"
    and "i < num_blocks b \<Longrightarrow> block_end b i = block_start b (Suc i)"
    and "i < num_blocks b \<Longrightarrow> block_start b i < block_end b i"
    and "i < num_blocks b \<Longrightarrow> block_end b i - block_start b i - block_size b \<le> 1"
    and "0 < num_blocks b" and "num_blocks b \<le> n"
proof -
  let ?t = "after - first"
  let ?nb = "min n ?t"
  have eq: "b = \<lparr>block_size = ?t div ?nb, num_blocks = ?nb, remainder = ?t mod ?nb,
      first_index = first, index_after_last = after\<rparr>"
    unfolding b_def using assms by (intro make_blocks_pos)
  have nb: "0 < ?nb" using assms by simp
  have r: "?t mod ?nb < ?nb" using nb by (rule mod_less_divisor)
  have bs: "0 < ?t div ?nb" using nb by (simp add: div_greater_zero_iff)
  show s0: "block_start b 0 = first" by (simp add: block_start_def eq)
  have "?nb * (?t div ?nb) + ?t mod ?nb = ?t" by simp
  moreover have "\<not> ?nb < ?t mod ?nb" using r by (rule less_not_sym)
  ultimately show sn: "block_start b (num_blocks b) = after"
    using assms(1) by (simp only: block_start_def eq blocks.simps if_False add.assoc le_add_diff_inverse less_imp_le)
  have last: "index_after_last b = after" by (simp add: eq)
  show e: "block_end b i = block_start b (Suc i)" if i: "i < num_blocks b" for i
  proof (cases "i = num_blocks b - 1")
    case True
    then have "Suc i = num_blocks b" using i by linarith
    then show ?thesis using True by (simp only: block_end_def last sn if_True simp_thms)
  qed (simp add: block_end_def)
  have step: "block_start b (Suc i) = block_start b i + block_size b + (if i < remainder b then 1 else 0)" for i
    by (simp add: block_start_def)
  show "block_start b i < block_end b i" if "i < num_blocks b"
    using bs e [OF that] by (simp add: step) (simp add: eq)
  show "block_end b i - block_start b i - block_size b \<le> 1" if "i < num_blocks b"
    using e [OF that] by (simp add: step)
  show "0 < num_blocks b" "num_blocks b \<le> n" using nb by (simp_all add: eq)
qed

lemma concat_ranges:
  assumes "\<And>i. i < m \<Longrightarrow> s i \<le> (s (Suc i) :: nat)"
  shows "concat (map (\<lambda>i. [s i..<s (Suc i)]) [0..<m]) = [s 0..<s m] \<and> s 0 \<le> s m"
  using assms
proof (induction m)
  case (Suc m)
  then have "concat (map (\<lambda>i. [s i..<s (Suc i)]) [0..<m]) = [s 0..<s m]" "s 0 \<le> s m" "s m \<le> s (Suc m)"
    by simp_all
  then show ?case by (simp add: upt_split [of "s 0" "s m" "s (Suc m)"])
qed simp

lemma enqueue_blocks_partition:
  assumes "first < after" and "0 < n"
  shows "concat (map (\<lambda>(b, e). [b..<e]) (enqueue_blocks k first after n)) = [first..<after]"
    and "length (enqueue_blocks k first after n) \<le> n"
    and "(b, e) \<in> set (enqueue_blocks k first after n) \<Longrightarrow> b < e"
proof -
  let ?b = "make_blocks first after n"
  have eq: "enqueue_blocks k first after n = map (\<lambda>i. (block_start ?b i, block_end ?b i)) [0..<num_blocks ?b]"
    using assms by (simp add: enqueue_blocks_def Let_def)
  note facts = block_bounds [OF assms]
  have "map (\<lambda>i. [block_start ?b i..<block_end ?b i]) [0..<num_blocks ?b]
      = map (\<lambda>i. [block_start ?b i..<block_start ?b (Suc i)]) [0..<num_blocks ?b]"
    using facts(3) by simp
  moreover have "concat (map (\<lambda>i. [block_start ?b i..<block_start ?b (Suc i)]) [0..<num_blocks ?b]) = [first..<after]"
    using concat_ranges [of "num_blocks ?b" "block_start ?b"] facts(1-4) by (simp add: less_imp_le)
  ultimately show "concat (map (\<lambda>(b, e). [b..<e]) (enqueue_blocks k first after n)) = [first..<after]"
    by (simp only: eq map_map comp_def prod.case)
  show "length (enqueue_blocks k first after n) \<le> n" using facts(7) by (simp add: eq)
  show "b < e" if "(b, e) \<in> set (enqueue_blocks k first after n)"
    using that facts(4) by (auto simp: eq)
qed

text \<open>The calls of one \<open>parallel_for\<close> partition the range in order, none is empty, and there are no
  more of them than threads.\<close>

lemma parallel_for_partition:
  assumes "0 < num_threads"
  shows "concat (map (\<lambda>(b, e). [b..<e]) (parallel_for num_threads k begin_index end_index grain)) = [begin_index..<end_index]"
    and "length (parallel_for num_threads k begin_index end_index grain) \<le> num_threads"
    and "(b, e) \<in> set (parallel_for num_threads k begin_index end_index grain) \<Longrightarrow> b < e"
proof -
  let ?n = "if grain > 0 then min num_threads (ceil_divide (end_index - begin_index) grain) else num_threads"
  have n: "?n \<le> num_threads" "begin_index < end_index \<Longrightarrow> 0 < ?n"
    using assms by (auto simp: ceil_divide_def div_greater_zero_iff)
  have *: "concat (map (\<lambda>(b, e). [b..<e]) (parallel_for num_threads k begin_index end_index grain)) = [begin_index..<end_index]
    \<and> length (parallel_for num_threads k begin_index end_index grain) \<le> num_threads
    \<and> ((b, e) \<in> set (parallel_for num_threads k begin_index end_index grain) \<longrightarrow> b < e)"
  proof (cases "begin_index < end_index \<and> ?n \<noteq> 1")
    case True
    then have "parallel_for num_threads k begin_index end_index grain = enqueue_blocks k begin_index end_index ?n"
      unfolding parallel_for_def Let_def by auto
    then show ?thesis
      using enqueue_blocks_partition [of begin_index end_index ?n] n True by (metis le_trans)
  next
    case False
    then show ?thesis using assms by (auto simp: parallel_for_def Let_def)
  qed
  then show "concat (map (\<lambda>(b, e). [b..<e]) (parallel_for num_threads k begin_index end_index grain)) = [begin_index..<end_index]"
    and "length (parallel_for num_threads k begin_index end_index grain) \<le> num_threads" by auto
  show "b < e" if "(b, e) \<in> set (parallel_for num_threads k begin_index end_index grain)"
    using * that by auto
qed

end
