(* ===== verification/FeatureExtractor.thy ===== *)
theory FeatureExtractor
  imports Fft ParallelFor
begin

text \<open>
  CTranslate2/whisper-feature-extractor.cpp: PCM samples to the normalised log-Mel features of
  Whisper. Floats are reals and \<open>complex<float>\<close> is \<open>complex\<close>: rounding is not modelled. \<open>neon\<close> is
  the compile-time choice APP_FEATURE_HAS_NEON. The frames are computed by concurrent calls over
  the blocks of \<open>parallel_for\<close>; a schedule says in which order the tasks take their steps.
\<close>

section \<open>Constants\<close>

definition kSampleRate :: nat where "kSampleRate = 16000"
definition kFftHalfSize :: nat where "kFftHalfSize = 200"
definition kFftBins :: nat where "kFftBins = 201"
definition kHopLength :: nat where "kHopLength = 160"
definition kChunkSamples :: nat where "kChunkSamples = 30 * kSampleRate"
definition kFrames :: nat where "kFrames = 3000"
definition kFeatureParallelGrainFrames :: nat where "kFeatureParallelGrainFrames = 16"
definition kNeonFloatLanes :: nat where "kNeonFloatLanes = 4"
definition kInvFftSize :: real where "kInvFftSize = 1 / real kFftSize"
definition kHalf :: real where "kHalf = 0.5"
definition kHzPerLinearMel :: real where "kHzPerLinearMel = 66.6666666666666667"
definition kInvHzPerLinearMel :: real where "kInvHzPerLinearMel = 1 / kHzPerLinearMel"
definition kMinLogHz :: real where "kMinLogHz = 1000"
definition kInvMinLogHz :: real where "kInvMinLogHz = 1 / kMinLogHz"
definition kMinLogMel :: real where "kMinLogMel = 15"
definition kMelLogStep :: real where "kMelLogStep = 0.0687517774209491"
definition kInvMelLogStep :: real where "kInvMelLogStep = 1 / kMelLogStep"
definition kMinimumMelEnergy :: real where "kMinimumMelEnergy = 1 / 10000000000"
definition kInitialLogMel :: real where "kInitialLogMel = - 10"
definition kDynamicRange :: real where "kDynamicRange = 8"
definition kNormalizationOffset :: real where "kNormalizationOffset = 4"
definition kNormalizationScale :: real where "kNormalizationScale = 0.25"

lemmas feature_constants = kFftSize_def kSampleRate_def kFftHalfSize_def kFftBins_def kHopLength_def
  kChunkSamples_def kFrames_def kFeatureParallelGrainFrames_def kNeonFloatLanes_def

section \<open>Mel filters\<close>

definition hz_to_mel :: "real \<Rightarrow> real" where
  "hz_to_mel frequency =
     (if frequency < kMinLogHz then frequency * kInvHzPerLinearMel
      else kMinLogMel + ln (frequency * kInvMinLogHz) * kInvMelLogStep)"

definition mel_to_hz :: "real \<Rightarrow> real" where
  "mel_to_hz mel =
     (if mel < kMinLogMel then mel * kHzPerLinearMel
      else kMinLogHz * exp (kMelLogStep * (mel - kMinLogMel)))"

definition kMaxMel :: real where
  "kMaxMel = hz_to_mel (real kSampleRate * kHalf)"

definition inv_frequency_intervals :: "nat \<Rightarrow> real" where
  "inv_frequency_intervals n_mels =
     (if n_mels = 80 then 1 / 81 else if n_mels = 128 then 1 / 129 else 1 / real (n_mels + 1))"

definition mel_frequencies :: "nat \<Rightarrow> real list" where
  "mel_frequencies n_mels = map (\<lambda>i. mel_to_hz (kMaxMel * real i * inv_frequency_intervals n_mels)) [0..<n_mels + 2]"

definition filter_row :: "real list \<Rightarrow> nat \<Rightarrow> real list \<Rightarrow> real list" where
  "filter_row frequencies mel filters =
     (let inv_mel_span = 1 / (frequencies ! (mel + 2) - frequencies ! mel);
          inv_lower_span = 1 / (frequencies ! (mel + 1) - frequencies ! mel);
          inv_upper_span = 1 / (frequencies ! (mel + 2) - frequencies ! (mel + 1));
          normalization = 2 * inv_mel_span
      in for_range 0 kFftBins (\<lambda>bin filters.
           let hz = real (bin * kSampleRate) * kInvFftSize;
               lower = (hz - frequencies ! mel) * inv_lower_span;
               upper = (frequencies ! (mel + 2) - hz) * inv_upper_span
           in filters[mel * kFftBins + bin := normalization * max 0 (min lower upper)]) filters)"

definition make_mel_filters :: "nat \<Rightarrow> real list" where
  "make_mel_filters n_mels =
     for_range 0 n_mels (filter_row (mel_frequencies n_mels)) (replicate (n_mels * kFftBins) 0)"

section \<open>One frame\<close>

text \<open>The loop of \<open>reflected_sample\<close>; sizes up to 1 return before it.\<close>

function reflect_index :: "int \<Rightarrow> int \<Rightarrow> int" where
  "reflect_index sz index =
     (if sz \<le> 1 then index
      else if index < 0 \<or> index \<ge> sz
      then reflect_index sz (if index < 0 then - index else 2 * sz - index - 2)
      else index)"
  by pat_completeness auto
termination
  by (relation "measure (\<lambda>(sz, index). nat \<bar>2 * index - (sz - 1)\<bar>)") auto

declare reflect_index.simps [simp del]

definition reflected_sample :: "real list \<Rightarrow> int \<Rightarrow> real" where
  "reflected_sample audio index =
     (let size = int (length audio)
      in if size \<le> 1 then (if size = 1 then audio ! 0 else 0)
         else audio ! nat (reflect_index size index))"

definition make_windowed_frame :: "bool \<Rightarrow> real list \<Rightarrow> real list \<Rightarrow> int \<Rightarrow> complex list \<Rightarrow> complex list" where
  "make_windowed_frame neon audio hann start outp =
     (let is_contiguous = start \<ge> 0 \<and> start + int kFftSize \<le> int (length audio);
          (index, outp) =
            (if neon \<and> is_contiguous
             then lanes_loop kNeonFloatLanes kFftSize
               (\<lambda>index. store_block index (map (\<lambda>lane.
                  Complex (audio ! (nat start + index + lane) * hann ! (index + lane)) 0) [0..<kNeonFloatLanes]))
               0 outp
             else (0, outp))
      in if is_contiguous
         then for_range index kFftSize (\<lambda>index outp.
                outp[index := Complex (audio ! (nat start + index) * hann ! index) 0]) outp
         else for_range index kFftSize (\<lambda>index outp.
                outp[index := Complex (reflected_sample audio (start + int index) * hann ! index) 0]) outp)"

definition complex_norm :: "complex \<Rightarrow> real" where
  "complex_norm z = Re z * Re z + Im z * Im z"

definition calculate_power :: "bool \<Rightarrow> complex list \<Rightarrow> real list \<Rightarrow> real list" where
  "calculate_power neon fft_output powers =
     (let (bin, powers) =
            (if neon
             then lanes_loop kNeonFloatLanes kFftBins
               (\<lambda>bin. store_block bin (map (\<lambda>lane.
                  Re (fft_output ! (bin + lane)) * Re (fft_output ! (bin + lane))
                  + Im (fft_output ! (bin + lane)) * Im (fft_output ! (bin + lane))) [0..<kNeonFloatLanes]))
               0 powers
             else (0, powers))
      in for_range bin kFftBins (\<lambda>bin powers. powers[bin := complex_norm (fft_output ! bin)]) powers)"

text \<open>\<open>left\<close> and \<open>right\<close> are the arrays from the pointers on.\<close>

definition dot_product :: "bool \<Rightarrow> real list \<Rightarrow> real list \<Rightarrow> nat \<Rightarrow> real" where
  "dot_product neon left right count =
     (let (index, result) =
            (if neon
             then let (index, sum) = lanes_loop kNeonFloatLanes count
                        (\<lambda>index sum. map (\<lambda>lane. sum ! lane + left ! (index + lane) * right ! (index + lane)) [0..<kNeonFloatLanes])
                        0 (replicate kNeonFloatLanes 0);
                      pair_sum = [sum ! 0 + sum ! 2, sum ! 1 + sum ! 3]
                  in (index, pair_sum ! 0 + pair_sum ! 1)
             else (0, 0))
      in for_range index count (\<lambda>index result. result + left ! index * right ! index) result)"

definition normalize_value :: "real \<Rightarrow> real \<Rightarrow> real" where
  "normalize_value floor_value value = (max value floor_value + kNormalizationOffset) * kNormalizationScale"

definition normalize_features :: "bool \<Rightarrow> real list \<Rightarrow> real \<Rightarrow> real list" where
  "normalize_features neon values maximum =
     (let floor_value = maximum - kDynamicRange;
          (index, outp) =
            (if neon
             then lanes_loop kNeonFloatLanes (length values)
               (\<lambda>index values. store_block index (map (\<lambda>lane.
                  (max (values ! (index + lane)) floor_value + kNormalizationOffset) * kNormalizationScale)
                  [0..<kNeonFloatLanes]) values) 0 values
             else (0, values))
      in for_range index (length values) (\<lambda>index outp. outp[index := normalize_value floor_value (outp ! index)]) outp)"

section \<open>Reflection\<close>

text \<open>The mirrored index in closed form: a triangular wave of period \<open>2 * (size - 1)\<close>.\<close>

definition mirrored :: "int \<Rightarrow> int \<Rightarrow> int" where
  "mirrored sz index =
     (let m = index mod (2 * (sz - 1)) in if m < sz then m else 2 * (sz - 1) - m)"

lemma mirrored_id: "0 \<le> index \<Longrightarrow> index < sz \<Longrightarrow> 1 < sz \<Longrightarrow> mirrored sz index = index"
  by (simp add: mirrored_def)

lemma mirrored_minus: 
  assumes "1 < sz" shows "mirrored sz (- index) = mirrored sz index"
proof (cases "index mod (2 * (sz - 1)) = 0")
  case True
  then have "(- index) mod (2 * (sz - 1)) = 0" by (simp add: zmod_zminus1_eq_if)
  then show ?thesis using True by (simp add: mirrored_def)
next
  case False
  then have "(- index) mod (2 * (sz - 1)) = 2 * (sz - 1) - index mod (2 * (sz - 1))"
    by (simp add: zmod_zminus1_eq_if)
  moreover have "0 \<le> index mod (2 * (sz - 1))" "index mod (2 * (sz - 1)) < 2 * (sz - 1)"
    using assms by simp_all
  ultimately show ?thesis using assms False by (auto simp: mirrored_def Let_def)
qed

lemma mirrored_period: "mirrored sz (index + 2 * (sz - 1)) = mirrored sz index"
  by (simp add: mirrored_def)

lemma reflect_index_mirrored: "1 < sz \<Longrightarrow> reflect_index sz index = mirrored sz index"
proof (induction sz index rule: reflect_index.induct)
  case (1 sz index)
  show ?case
  proof (cases "index < 0 \<or> index \<ge> sz")
    case True
    then have "reflect_index sz index = mirrored sz (if index < 0 then - index else 2 * sz - index - 2)"
      using 1 by (simp add: reflect_index.simps [of sz index])
    moreover have "mirrored sz (2 * sz - index - 2) = mirrored sz index"
      using mirrored_period [of sz "- index"] mirrored_minus [of sz index] 1(2)
      by (simp add: algebra_simps)
    ultimately show ?thesis using mirrored_minus [of sz index] 1(2) by simp
  next
    case False
    then show ?thesis using 1(2) by (simp add: reflect_index.simps [of sz index] mirrored_id)
  qed
qed

lemma mirrored_bounds:
  assumes "1 < sz" shows "0 \<le> mirrored sz index" and "mirrored sz index < sz"
proof -
  define m where "m = index mod (2 * (sz - 1))"
  have "0 \<le> m" "m < 2 * (sz - 1)"
    using assms by (simp_all add: m_def)
  then show "0 \<le> mirrored sz index" and "mirrored sz index < sz"
    using assms unfolding mirrored_def Let_def m_def [symmetric] by auto
qed

text \<open>The sample the reflect padding reads at any index.\<close>

definition padded_sample :: "real list \<Rightarrow> int \<Rightarrow> real" where
  "padded_sample audio index =
     (if audio = [] then 0 else if length audio = 1 then audio ! 0
      else audio ! nat (mirrored (int (length audio)) index))"

lemma reflected_sample_eq: "reflected_sample audio index = padded_sample audio index"
proof (cases "length audio \<le> 1")
  case False
  then have "reflect_index (int (length audio)) index = mirrored (int (length audio)) index"
    by (intro reflect_index_mirrored) simp
  then show ?thesis using False by (auto simp: reflected_sample_def padded_sample_def)
qed (auto simp: reflected_sample_def padded_sample_def le_Suc_eq)

lemma padded_sample_inside: "0 \<le> index \<Longrightarrow> index < int (length audio) \<Longrightarrow> padded_sample audio index = audio ! nat index"
  by (cases "length audio \<le> 1") (auto simp: padded_sample_def mirrored_id le_Suc_eq)

section \<open>The vector paths compute what the scalar loops compute\<close>

lemma nth_map_upt_lane: "lane < n \<Longrightarrow> map h [0..<n] ! lane = h lane"
  by simp

lemma store_block_steps:
  "store_block index (map (\<lambda>lane. h (index + lane)) [0..<n]) xs =
    for_range index (index + n) (\<lambda>i xs. xs[i := h i]) xs"
proof -
  have "for_range 0 m (\<lambda>l xs. xs[index + l := h (index + l)]) xs =
      for_range index (index + m) (\<lambda>i xs. xs[i := h i]) xs" for m
    by (induction m) simp_all
  moreover have "store_block index (map (\<lambda>lane. h (index + lane)) [0..<n]) xs
      = for_range 0 n (\<lambda>l xs. xs[index + l := h (index + l)]) xs"
    unfolding store_block_def by (rule for_range_cong) simp_all
  ultimately show ?thesis by simp
qed

lemma vector_store_loop:
  "(case (if vec then lanes_loop w n (\<lambda>i. store_block i (map (\<lambda>lane. h (i + lane)) [0..<w])) 0 xs else (0, xs)) of
     (i, xs) \<Rightarrow> for_range i n (\<lambda>i xs. xs[i := h i]) xs)
   = for_range 0 n (\<lambda>i xs. xs[i := h i]) xs"
  using lanes_then_scalar [where P = "\<lambda>_. True" and w = w and n = n and i = 0 and s = xs
      and f = "\<lambda>i. store_block i (map (\<lambda>lane. h (i + lane)) [0..<w])" and g = "\<lambda>i xs. xs[i := h i]"]
  by (simp add: store_block_steps)

lemma for_range_store:
  assumes "length xs = n"
  shows "for_range 0 n (\<lambda>i xs. xs[i := h i]) xs = map h [0..<n]"
  using nth_for_range_update [of _ xs n 0 h] assms by (intro nth_equalityI) simp_all

lemma make_windowed_frame_eq:
  assumes "length outp = kFftSize"
  shows "make_windowed_frame neon audio hann start outp =
    map (\<lambda>i. Complex (padded_sample audio (start + int i) * hann ! i) 0) [0..<kFftSize]"
proof (cases "start \<ge> 0 \<and> start + int kFftSize \<le> int (length audio)")
  case True
  have "make_windowed_frame neon audio hann start outp =
      for_range 0 kFftSize (\<lambda>i outp. outp[i := Complex (audio ! (nat start + i) * hann ! i) 0]) outp"
    using True vector_store_loop [where vec = neon and w = kNeonFloatLanes and n = kFftSize and xs = outp
      and h = "\<lambda>i. Complex (audio ! (nat start + i) * hann ! i) 0"]
    by (simp add: make_windowed_frame_def Let_def add.assoc cong: if_cong)
  also have "\<dots> = map (\<lambda>i. Complex (audio ! (nat start + i) * hann ! i) 0) [0..<kFftSize]"
    using assms by (rule for_range_store)
  also have "\<dots> = map (\<lambda>i. Complex (padded_sample audio (start + int i) * hann ! i) 0) [0..<kFftSize]"
    using True by (simp add: padded_sample_inside nat_add_distrib)
  finally show ?thesis .
next
  case False
  then have "make_windowed_frame neon audio hann start outp =
      for_range 0 kFftSize (\<lambda>i outp. outp[i := Complex (padded_sample audio (start + int i) * hann ! i) 0]) outp"
    unfolding make_windowed_frame_def Let_def reflected_sample_eq by auto
  then show ?thesis using for_range_store [OF assms] by simp
qed

lemma complex_norm_cmod: "complex_norm z = (cmod z)\<^sup>2"
  using cmod_power2 [of z] by (simp only: complex_norm_def power2_eq_square)

lemma calculate_power_eq:
  assumes "length powers = kFftBins"
  shows "calculate_power neon fft_output powers = map (\<lambda>bin. (cmod (fft_output ! bin))\<^sup>2) [0..<kFftBins]"
proof -
  have "calculate_power neon fft_output powers =
      for_range 0 kFftBins (\<lambda>i xs. xs[i := complex_norm (fft_output ! i)]) powers"
    using vector_store_loop [where vec = neon and w = kNeonFloatLanes and n = kFftBins and xs = powers
      and h = "\<lambda>i. complex_norm (fft_output ! i)"]
    by (cases neon) (simp_all add: calculate_power_def complex_norm_def)
  then show ?thesis using for_range_store [OF assms] by (simp add: complex_norm_cmod)
qed

lemma normalize_features_eq:
  "normalize_features neon values maximum = map (normalize_value (maximum - kDynamicRange)) values"
proof -
  let ?h = "normalize_value (maximum - kDynamicRange)"
  let ?g = "\<lambda>i xs. xs[i := ?h (xs ! i)]"
  have eq: "for_range a b ?g xs = take a xs @ map ?h (take (b - a) (drop a xs)) @ drop b xs"
    if "a \<le> b" "b \<le> length xs" for a b xs
    using that
  proof (induction b rule: dec_induct)
    case (step m)
    then have "take (Suc m - a) (drop a xs) = take (m - a) (drop a xs) @ [xs ! m]"
      by (simp add: Suc_diff_le take_Suc_conv_app_nth)
    moreover have "drop m xs = xs ! m # drop (Suc m) xs" using step by (simp add: Cons_nth_drop_Suc)
    moreover have "for_range a m ?g xs ! m = xs ! m" and "length (for_range a m ?g xs) = length xs"
      using step by (simp_all add: nth_append)
    ultimately show ?case using step by (simp add: list_update_append min_absorb2)
  qed simp
  have block: "store_block i (map (\<lambda>lane. (max (xs ! (i + lane)) (maximum - kDynamicRange) + kNormalizationOffset) * kNormalizationScale)
      [0..<kNeonFloatLanes]) xs = for_range i (i + kNeonFloatLanes) ?g xs" if "i + kNeonFloatLanes \<le> length xs" for i xs
  proof -
    have "store_block i (map (\<lambda>lane. ?h (xs ! (i + lane))) [0..<kNeonFloatLanes]) xs
        = for_range i (i + kNeonFloatLanes) (\<lambda>k ys. ys[k := ?h (xs ! k)]) xs"
      by (rule store_block_steps)
    also have "\<dots> = for_range i (i + kNeonFloatLanes) ?g xs"
      by (simp add: kNeonFloatLanes_def numeral_eq_Suc)
    finally show ?thesis by (simp add: normalize_value_def)
  qed
  have "normalize_features neon values maximum = for_range 0 (length values) ?g values"
    using lanes_then_scalar [where P = "\<lambda>xs. length xs = length values" and w = kNeonFloatLanes and n = "length values"
      and i = 0 and s = "values" and g = ?g and f = "\<lambda>index values. store_block index (map (\<lambda>lane.
                  (max (values ! (index + lane)) (maximum - kDynamicRange) + kNormalizationOffset) * kNormalizationScale)
                  [0..<kNeonFloatLanes]) values"]
    by (auto simp: normalize_features_def Let_def block)
  then show ?thesis using eq [of 0 "length values" "values"] by simp
qed

lemma dot_lanes:
  fixes g :: "nat \<Rightarrow> real"
  assumes "w * m \<le> count" and "0 < w"
  shows "\<exists>m'. w * m' \<le> count \<and>
    lanes_loop w count (\<lambda>index acc. map (\<lambda>lane. acc ! lane + g (index + lane)) [0..<w])
      (w * m) (map (\<lambda>lane. \<Sum>j<m. g (w * j + lane)) [0..<w])
      = (w * m', map (\<lambda>lane. \<Sum>j<m'. g (w * j + lane)) [0..<w])"
  using assms(1)
proof (induction "count - w * m" arbitrary: m rule: less_induct)
  case less
  let ?f = "\<lambda>index acc. map (\<lambda>lane. acc ! lane + g (index + lane)) [0..<w]"
  let ?s = "\<lambda>m. map (\<lambda>lane. \<Sum>j<m. g (w * j + lane)) [0..<w]"
  show ?case
  proof (cases "w * m + w \<le> count")
    case True
    have eq: "?f (w * m) (?s m) = ?s (Suc m)" by simp
    have "lanes_loop w count ?f (w * m) (?s m) = lanes_loop w count ?f (w * m + w) (?f (w * m) (?s m))"
      by (subst lanes_loop.simps) (simp only: True assms(2) if_True simp_thms)
    then have "lanes_loop w count ?f (w * m) (?s m) = lanes_loop w count ?f (w * Suc m) (?s (Suc m))"
      by (simp only: eq mult_Suc_right add.commute [of w])
    moreover have "w * Suc m \<le> count" using True by simp
    moreover then have "count - w * Suc m < count - w * m" using assms(2) by (intro diff_less_mono2) simp_all
    ultimately show ?thesis using less.hyps [of "Suc m"] by presburger
  next
    case False
    then have "lanes_loop w count ?f (w * m) (?s m) = (w * m, ?s m)"
      by (simp add: lanes_loop.simps [of w count ?f "w * m"])
    then show ?thesis using less.prems by blast
  qed
qed

lemma sum_by_fours:
  "(\<Sum>j<m. g (4 * j)) + (\<Sum>j<m. g (4 * j + 2)) + ((\<Sum>j<m. g (4 * j + 1)) + (\<Sum>j<m. g (4 * j + 3)))
    = (\<Sum>i<4 * m. g i)" for g :: "nat \<Rightarrow> real"
  by (induction m) (simp_all add: lessThan_Suc eval_nat_numeral algebra_simps)

lemma dot_product_eq: "dot_product neon left right count = (\<Sum>i<count. left ! i * right ! i)"
proof -
  let ?g = "\<lambda>i. left ! i * right ! i"
  have tail: "for_range a b (\<lambda>i r. r + ?g i) r = r + sum ?g {a..<b}" if "a \<le> b" for a b and r :: real
    using that by (induction b rule: dec_induct) simp_all
  show ?thesis
  proof (cases neon)
    case True
    obtain m where m: "4 * m \<le> count"
      "lanes_loop 4 count (\<lambda>index acc. map (\<lambda>lane. acc ! lane + ?g (index + lane)) [0..<4]) 0 (replicate 4 0)
        = (4 * m, map (\<lambda>lane. \<Sum>j<m. ?g (4 * j + lane)) [0..<4])"
      using dot_lanes [of 4 0 count ?g] by (auto simp: map_replicate_const simp del: upt_rec_numeral upt_conv_Cons)
    have "dot_product neon left right count = (\<Sum>i<4 * m. ?g i) + sum ?g {4 * m..<count}"
      using True m tail [OF m(1)] sum_by_fours [of ?g m]
      by (simp add: dot_product_def kNeonFloatLanes_def del: upt_rec_numeral upt_conv_Cons)
    also have "\<dots> = (\<Sum>i<count. ?g i)"
      using m(1) by (metis sum.lessThan_Suc_shift lessThan_atLeast0 sum.atLeastLessThan_concat zero_le)
    finally show ?thesis .
  next
    case False
    then show ?thesis using tail [of 0 count 0] by (simp add: dot_product_def atLeast0LessThan)
  qed
qed

section \<open>The mel filter bank\<close>

definition mel_weight :: "nat \<Rightarrow> nat \<Rightarrow> nat \<Rightarrow> real" where
  "mel_weight n_mels mel bin =
     (let f = mel_frequencies n_mels; hz = real (bin * kSampleRate) * kInvFftSize
      in 2 * (1 / (f ! (mel + 2) - f ! mel))
         * max 0 (min ((hz - f ! mel) * (1 / (f ! (mel + 1) - f ! mel)))
                      ((f ! (mel + 2) - hz) * (1 / (f ! (mel + 2) - f ! (mel + 1))))))"

lemma make_mel_filters_rows:
  "m \<le> n_mels \<Longrightarrow> for_range 0 m (filter_row (mel_frequencies n_mels)) (replicate (n_mels * kFftBins) 0)
    = concat (map (\<lambda>mel. map (mel_weight n_mels mel) [0..<kFftBins]) [0..<m]) @ replicate ((n_mels - m) * kFftBins) 0"
proof (induction m)
  case (Suc m)
  let ?rows = "\<lambda>m. concat (map (\<lambda>mel. map (mel_weight n_mels mel) [0..<kFftBins]) [0..<m])"
  have len: "length (?rows m) = m * kFftBins" for m by (induction m) simp_all
  have split: "replicate ((n_mels - m) * kFftBins) (0::real) =
      replicate kFftBins 0 @ replicate ((n_mels - Suc m) * kFftBins) 0"
    using Suc.prems by (simp flip: replicate_add) (metis Suc_diff_le diff_Suc_Suc mult_Suc)
  have row: "filter_row (mel_frequencies n_mels) m filters =
      for_range 0 kFftBins (\<lambda>bin filters. filters[m * kFftBins + bin := mel_weight n_mels m bin]) filters" for filters
    by (simp add: filter_row_def mel_weight_def Let_def)
  have "filter_row (mel_frequencies n_mels) m (?rows m @ replicate kFftBins 0 @ zs)
      = ?rows m @ map (mel_weight n_mels m) [0..<kFftBins] @ zs" for zs
    unfolding row by (rule nth_equalityI) (auto simp: nth_for_range_update len nth_append)
  then show ?case using Suc by (simp add: split)
qed simp

lemma make_mel_filters_eq:
  "make_mel_filters n_mels = concat (map (\<lambda>mel. map (mel_weight n_mels mel) [0..<kFftBins]) [0..<n_mels])"
  using make_mel_filters_rows [of n_mels n_mels] by (simp add: make_mel_filters_def)

lemma nth_concat_rows:
  "mel < m \<Longrightarrow> bin < k \<Longrightarrow> concat (map (\<lambda>mel. map (h mel) [0..<k]) [0..<m]) ! (mel * k + bin) = h mel bin"
proof (induction m)
  case (Suc m)
  have len: "length (concat (map (\<lambda>mel. map (h mel) [0..<k]) [0..<m])) = m * k"
    by (induction m) simp_all
  show ?case
  proof (cases "mel = m")
    case False
    then have "mel < m" using Suc by simp
    moreover then have "mel * k + bin < m * k"
      using Suc.prems(2) by (metis Suc_leI add.commute mult_Suc nat_add_left_cancel_less order_less_le_trans mult_le_mono1)
    ultimately show ?thesis using Suc by (simp add: nth_append len)
  qed (use Suc.prems len in \<open>simp add: nth_append\<close>)
qed simp

lemma nth_make_mel_filters:
  "mel < n_mels \<Longrightarrow> bin < kFftBins \<Longrightarrow> make_mel_filters n_mels ! (mel * kFftBins + bin) = mel_weight n_mels mel bin"
  by (simp add: make_mel_filters_eq nth_concat_rows)

lemma length_make_mel_filters [simp]: "length (make_mel_filters n_mels) = n_mels * kFftBins"
proof -
  have "length (concat (map (\<lambda>mel. map (h mel) [0..<kFftBins]) [0..<m])) = m * kFftBins" for h :: "nat \<Rightarrow> nat \<Rightarrow> real" and m
    by (induction m) simp_all
  then show ?thesis by (simp add: make_mel_filters_eq)
qed

section \<open>Work areas\<close>

record thread_workspace =
  tw_power :: "real list"
  tw_fft_input :: "complex list"
  tw_fft_output :: "complex list"
  tw_fft_scratch :: "complex list"

record feature_workspace =
  ws_audio :: "real list"
  ws_hann :: "real list"
  ws_custom_filters :: "real list"
  ws_custom_filter_mels :: nat
  ws_num_threads :: nat
  ws_thread_workspaces :: "thread_workspace list"
  ws_thread_maxima :: "real list"

definition empty_thread_workspace :: thread_workspace where
  "empty_thread_workspace = \<lparr>tw_power = [], tw_fft_input = [], tw_fft_output = [], tw_fft_scratch = []\<rparr>"

definition empty_workspace :: feature_workspace where
  "empty_workspace = \<lparr>ws_audio = [], ws_hann = [], ws_custom_filters = [], ws_custom_filter_mels = 0,
     ws_num_threads = 1, ws_thread_workspaces = [], ws_thread_maxima = []\<rparr>"

datatype feature_error = NMelsNotPositive

definition resize_thread_workspace :: "thread_workspace \<Rightarrow> thread_workspace" where
  "resize_thread_workspace tw =
     \<lparr>tw_power = resize kFftBins 0 (tw_power tw), tw_fft_input = resize kFftSize 0 (tw_fft_input tw),
      tw_fft_output = resize kFftSize 0 (tw_fft_output tw), tw_fft_scratch = resize kFftSize 0 (tw_fft_scratch tw)\<rparr>"

definition hann_window :: "real list" where
  "hann_window = map (\<lambda>index. 0.5 - 0.5 * cos (2 * pi * real index * kInvFftSize)) [0..<kFftSize]"

definition prepare_whisper_feature_workspace ::
  "nat \<Rightarrow> feature_workspace \<Rightarrow> nat \<Rightarrow> feature_error + feature_workspace" where
  "prepare_whisper_feature_workspace n_mels ws num_threads =
     (if n_mels = 0 then Inl NMelsNotPositive
      else
        let n = (if num_threads > 0 then num_threads else ws_num_threads ws);
            ws = ws\<lparr>ws_num_threads := n,
                    ws_audio := resize kChunkSamples 0 (ws_audio ws),
                    ws_thread_workspaces :=
                      map resize_thread_workspace (resize n empty_thread_workspace (ws_thread_workspaces ws)),
                    ws_thread_maxima := resize n 0 (ws_thread_maxima ws)\<rparr>;
            ws = (if length (ws_hann ws) \<noteq> kFftSize then ws\<lparr>ws_hann := hann_window\<rparr> else ws)
        in Inr (if n_mels \<noteq> 80 \<and> n_mels \<noteq> 128 \<and> ws_custom_filter_mels ws \<noteq> n_mels
                then ws\<lparr>ws_custom_filters := make_mel_filters n_mels, ws_custom_filter_mels := n_mels\<rparr>
                else ws))"

section \<open>The tasks of one extraction\<close>

text \<open>The body of the frame loop, on the work area of the task, the shared output and the local
  maximum.\<close>

definition process_frame ::
  "bool \<Rightarrow> nat \<Rightarrow> real list \<Rightarrow> real list \<Rightarrow> real list \<Rightarrow> nat
    \<Rightarrow> thread_workspace \<times> real list \<times> real \<Rightarrow> thread_workspace \<times> real list \<times> real" where
  "process_frame neon n_mels filters audio hann frame = (\<lambda>(tw, outp, local_maximum).
     let start = int (frame * kHopLength) - int kFftHalfSize;
         fft_input = make_windowed_frame neon audio hann start (tw_fft_input tw);
         (fft_output, fft_scratch) = fft fft_roots fft_input 0 1 (tw_fft_output tw, tw_fft_scratch tw) 0 0 kFftSize;
         powers = calculate_power neon fft_output (tw_power tw);
         (outp, local_maximum) = for_range 0 n_mels (\<lambda>mel (outp, local_maximum).
           let energy = dot_product neon (drop (mel * kFftBins) filters) powers kFftBins;
               value = log 10 (max energy kMinimumMelEnergy)
           in (outp[mel * kFrames + frame := value], max local_maximum value)) (outp, local_maximum)
     in (\<lparr>tw_power = powers, tw_fft_input = fft_input, tw_fft_output = fft_output, tw_fft_scratch = fft_scratch\<rparr>,
         outp, local_maximum))"

text \<open>A task waits with its block, then runs with its work-area index, its next frame, its end and
  its local maximum, then has stored its maximum.\<close>

datatype task_state = Waiting nat nat | Running nat nat nat real | Finished nat

record feature_run =
  run_output :: "real list"
  run_next :: nat
  run_workspaces :: "thread_workspace list"
  run_maxima :: "real list"
  run_tasks :: "task_state list"

text \<open>One step of task \<open>i\<close>: \<open>fetch_add\<close> on the shared counter, one frame, or the store of the
  local maximum.\<close>

definition task_step :: "bool \<Rightarrow> nat \<Rightarrow> real list \<Rightarrow> real list \<Rightarrow> real list \<Rightarrow> nat \<Rightarrow> feature_run \<Rightarrow> feature_run" where
  "task_step neon n_mels filters audio hann i st =
     (if i < length (run_tasks st) then
        case run_tasks st ! i of
          Waiting b e \<Rightarrow>
            st\<lparr>run_next := run_next st + 1,
               run_tasks := (run_tasks st)[i := Running (run_next st) b e kInitialLogMel]\<rparr>
        | Running w frame e local_maximum \<Rightarrow>
            (if frame < e then
               let (tw, outp, m) = process_frame neon n_mels filters audio hann frame
                     (run_workspaces st ! w, run_output st, local_maximum)
               in st\<lparr>run_workspaces := (run_workspaces st)[w := tw], run_output := outp,
                     run_tasks := (run_tasks st)[i := Running w (frame + 1) e m]\<rparr>
             else
               st\<lparr>run_maxima := (run_maxima st)[w := local_maximum],
                  run_tasks := (run_tasks st)[i := Finished w]\<rparr>)
        | Finished w \<Rightarrow> st
      else st)"

text \<open>\<open>parallel_for\<close> returns when every task is done: whatever steps the schedule leaves are taken
  after it.\<close>

definition run_tasks_to_end :: "bool \<Rightarrow> nat \<Rightarrow> real list \<Rightarrow> real list \<Rightarrow> real list \<Rightarrow> nat list \<Rightarrow> feature_run \<Rightarrow> feature_run" where
  "run_tasks_to_end neon n_mels filters audio hann schedule st =
     fold (task_step neon n_mels filters audio hann)
       (schedule @ concat (map (\<lambda>i. replicate (kFrames + 2) i) [0..<length (run_tasks st)])) st"

definition active_frame_count :: "nat \<Rightarrow> nat" where
  "active_frame_count copied_samples = min kFrames ((copied_samples + kFftHalfSize + kHopLength - 1) div kHopLength)"

definition select_filters :: "nat \<Rightarrow> feature_workspace \<Rightarrow> real list" where
  "select_filters n_mels ws =
     (if n_mels = 80 then make_mel_filters 80 else if n_mels = 128 then make_mel_filters 128
      else ws_custom_filters ws)"

text \<open>\<open>pool_threads\<close> is the size of the thread pool, \<open>schedule\<close> the interleaving of the tasks. The
  result holds the features and the work area as it is left.\<close>

definition make_whisper_features ::
  "bool \<Rightarrow> nat \<Rightarrow> nat list \<Rightarrow> real list \<Rightarrow> nat \<Rightarrow> real list \<Rightarrow> feature_workspace
    \<Rightarrow> feature_error + real list \<times> feature_workspace" where
  "make_whisper_features neon pool_threads schedule samples n_mels outp ws =
     (case prepare_whisper_feature_workspace n_mels ws 0 of
        Inl e \<Rightarrow> Inl e
      | Inr ws \<Rightarrow>
          let copied_samples = min (length samples) (length (ws_audio ws));
              audio = store_block 0 (take copied_samples samples) (replicate (length (ws_audio ws)) 0);
              filters = select_filters n_mels ws;
              outp = replicate (length (resize (n_mels * kFrames) 0 outp)) kInitialLogMel;
              active_frames = active_frame_count copied_samples;
              maxima = replicate (length (ws_thread_maxima ws)) kInitialLogMel;
              tasks = parallel_for (ws_num_threads ws) pool_threads 0 active_frames kFeatureParallelGrainFrames;
              st = run_tasks_to_end neon n_mels filters audio (ws_hann ws) schedule
                     \<lparr>run_output = outp, run_next = 0, run_workspaces = ws_thread_workspaces ws,
                      run_maxima = maxima, run_tasks = map (\<lambda>(b, e). Waiting b e) tasks\<rparr>;
              maximum = foldl max (hd (run_maxima st)) (take (run_next st) (run_maxima st))
          in Inr (normalize_features neon (run_output st) maximum,
                  ws\<lparr>ws_audio := audio, ws_thread_workspaces := run_workspaces st, ws_thread_maxima := run_maxima st\<rparr>))"

end
