(* ===== verification/FeatureSchedule.thy ===== *)
theory FeatureSchedule
  imports FeatureExtractor
begin

text \<open>
  Why the features do not depend on the schedule: an invariant of the interleaved tasks ties the
  shared output, the local maxima and the work-area indexes to the frames that have been processed.
\<close>

section \<open>One frame, whatever the work area held\<close>

definition mel_value :: "real list \<Rightarrow> real list \<Rightarrow> real list \<Rightarrow> nat \<Rightarrow> nat \<Rightarrow> real" where
  "mel_value filters audio hann mel frame =
     log 10 (max (\<Sum>bin<kFftBins. filters ! (mel * kFftBins + bin) *
       (cmod (\<Sum>t<400. complex_of_real (padded_sample audio (int (frame * kHopLength) - int kFftHalfSize + int t) * hann ! t)
          * cis (- 2 * pi * real bin * real t / 400)))\<^sup>2) kMinimumMelEnergy)"

definition tw_ok :: "thread_workspace \<Rightarrow> bool" where
  "tw_ok tw \<longleftrightarrow> length (tw_power tw) = kFftBins \<and> length (tw_fft_input tw) = kFftSize
     \<and> length (tw_fft_output tw) = kFftSize \<and> length (tw_fft_scratch tw) = kFftSize"

lemma fft_roots_transform:
  assumes "length inp = kFftSize" and "length out = kFftSize" and "length scr = kFftSize"
  shows "length (fst (fft fft_roots inp 0 1 (out, scr) 0 0 kFftSize)) = kFftSize"
    and "length (snd (fft fft_roots inp 0 1 (out, scr) 0 0 kFftSize)) = kFftSize"
    and "k < kFftSize \<Longrightarrow> fst (fft fft_roots inp 0 1 (out, scr) 0 0 kFftSize) ! k
      = (\<Sum>t<400. inp ! t * cis (- 2 * pi * real k * real t / 400))"
proof -
  have "fft_result (cis (- 2 * pi / 400) ^ fft_root_stride 400) inp 0 1 out scr 0 0 400
      (fft fft_roots inp 0 1 (out, scr) 0 0 400)"
    by (rule fft_correct_gen [OF fft_roots_table]) (simp_all add: assms fft_sizes_def kFftSize_def)
  moreover have "dft (cis (- 2 * pi / 400)) inp 0 1 400 k =
      (\<Sum>t<400. inp ! t * cis (- 2 * pi * real k * real t / 400))" for k
    by (simp add: dft_def DeMoivre mult_ac)
  ultimately show "length (fst (fft fft_roots inp 0 1 (out, scr) 0 0 kFftSize)) = kFftSize"
    and "length (snd (fft fft_roots inp 0 1 (out, scr) 0 0 kFftSize)) = kFftSize"
    and "k < kFftSize \<Longrightarrow> fst (fft fft_roots inp 0 1 (out, scr) 0 0 kFftSize) ! k
      = (\<Sum>t<400. inp ! t * cis (- 2 * pi * real k * real t / 400))"
    using assms by (simp_all add: fft_result_def kFftSize_def fft_root_stride_def mult_ac)
qed

lemma mel_loop:
  fixes v :: "nat \<Rightarrow> real"
  assumes "m \<le> n_mels" and "frame < kFrames" and "length outp = n_mels * kFrames"
  shows "\<exists>out' m'. for_range 0 m (\<lambda>mel (outp, lm). (outp[mel * kFrames + frame := v mel], max lm (v mel))) (outp, lm) = (out', m')
    \<and> length out' = length outp
    \<and> (\<forall>mel < n_mels. \<forall>fr < kFrames. out' ! (mel * kFrames + fr) =
          (if mel < m \<and> fr = frame then v mel else outp ! (mel * kFrames + fr)))
    \<and> m' = Max (insert lm (v ` {..<m}))"
  using assms(1)
proof (induction m)
  case (Suc m)
  then obtain out' m' where IH: "for_range 0 m (\<lambda>mel (outp, lm). (outp[mel * kFrames + frame := v mel], max lm (v mel))) (outp, lm) = (out', m')"
    "length out' = length outp" "m' = Max (insert lm (v ` {..<m}))"
    "\<And>mel fr. mel < n_mels \<Longrightarrow> fr < kFrames \<Longrightarrow> out' ! (mel * kFrames + fr) =
          (if mel < m \<and> fr = frame then v mel else outp ! (mel * kFrames + fr))"
    by force
  have inj: "mel * kFrames + fr = m * kFrames + frame \<longleftrightarrow> mel = m \<and> fr = frame" if "fr < kFrames" for mel fr
  proof
    assume eq: "mel * kFrames + fr = m * kFrames + frame"
    have "(mel * kFrames + fr) div kFrames = mel" "(m * kFrames + frame) div kFrames = m"
      using that assms(2) by simp_all
    then show "mel = m \<and> fr = frame" using eq by simp
  qed simp
  have pos: "m * kFrames + frame < length out'"
  proof -
    have "Suc m * kFrames \<le> n_mels * kFrames" using Suc.prems by (rule mult_le_mono1)
    then show ?thesis using assms IH(2) by simp
  qed
  have "out'[m * kFrames + frame := v m] ! (mel * kFrames + fr) =
      (if mel < Suc m \<and> fr = frame then v mel else outp ! (mel * kFrames + fr))"
    if "mel < n_mels" "fr < kFrames" for mel fr
  proof (cases "mel = m \<and> fr = frame")
    case True
    then show ?thesis using pos by simp
  next
    case False
    then have "m * kFrames + frame \<noteq> mel * kFrames + fr" using inj [OF that(2)] by metis
    then have "out'[m * kFrames + frame := v m] ! (mel * kFrames + fr) = out' ! (mel * kFrames + fr)"
      by (rule nth_list_update_neq)
    then show ?thesis using IH(4) [OF that] False by (metis less_Suc_eq)
  qed
  moreover have "max m' (v m) = Max (insert lm (v ` {..<Suc m}))"
  proof -
    have "Max (insert lm (v ` {..<Suc m})) = Max (insert (v m) (insert lm (v ` {..<m})))"
      by (metis lessThan_Suc image_insert insert_commute)
    also have "\<dots> = max (v m) (Max (insert lm (v ` {..<m})))" by (rule Max_insert) simp_all
    finally show ?thesis by (simp only: IH(3) max.commute)
  qed
  ultimately show ?case using IH(1,2) by simp
qed simp

lemma process_frame_spec:
  fixes filters audio hann :: "real list"
  assumes "length filters = n_mels * kFftBins" and "tw_ok tw" and "frame < kFrames" and "length outp = n_mels * kFrames"
  defines "v \<equiv> \<lambda>mel. mel_value filters audio hann mel frame"
  shows "\<exists>tw' out' m'. process_frame neon n_mels filters audio hann frame (tw, outp, lm) = (tw', out', m')
    \<and> tw_ok tw' \<and> length out' = length outp
    \<and> (\<forall>mel < n_mels. \<forall>fr < kFrames. out' ! (mel * kFrames + fr) =
          (if fr = frame then v mel else outp ! (mel * kFrames + fr)))
    \<and> m' = Max (insert lm (v ` {..<n_mels}))"
proof -
  let ?start = "int (frame * kHopLength) - int kFftHalfSize"
  define fin where "fin = make_windowed_frame neon audio hann ?start (tw_fft_input tw)"
  have inp: "fin = map (\<lambda>i. Complex (padded_sample audio (?start + int i) * hann ! i) 0) [0..<kFftSize]"
    unfolding fin_def using assms(2) by (intro make_windowed_frame_eq) (simp add: tw_ok_def)
  obtain fo fs where f: "fft fft_roots fin 0 1 (tw_fft_output tw, tw_fft_scratch tw) 0 0 kFftSize = (fo, fs)"
    by (cases "fft fft_roots fin 0 1 (tw_fft_output tw, tw_fft_scratch tw) 0 0 kFftSize")
  note tr = fft_roots_transform [of fin "tw_fft_output tw" "tw_fft_scratch tw", unfolded f fst_conv snd_conv]
  have lin: "length fin = kFftSize" by (simp add: inp)
  have len: "length fin = kFftSize" "length fo = kFftSize" "length fs = kFftSize"
    using tr(1,2) assms(2) lin by (simp_all add: tw_ok_def)
  let ?p = "calculate_power neon fo (tw_power tw)"
  have p: "?p = map (\<lambda>bin. (cmod (fo ! bin))\<^sup>2) [0..<kFftBins]"
    using assms(2) by (intro calculate_power_eq) (simp add: tw_ok_def)
  have fo: "fo ! bin = (\<Sum>t<400. complex_of_real (padded_sample audio (?start + int t) * hann ! t)
      * cis (- 2 * pi * real bin * real t / 400))" if "bin < kFftBins" for bin
  proof -
    have "fo ! bin = (\<Sum>t<400. fin ! t * cis (- 2 * pi * real bin * real t / 400))"
      using that tr(3) [of bin] len assms(2) by (simp add: tw_ok_def kFftBins_def kFftSize_def)
    also have "\<dots> = (\<Sum>t<400. complex_of_real (padded_sample audio (?start + int t) * hann ! t)
      * cis (- 2 * pi * real bin * real t / 400))"
      by (rule sum.cong) (simp_all add: inp kFftSize_def complex_of_real_def)
    finally show ?thesis .
  qed
  have v: "log 10 (max (dot_product neon (drop (mel * kFftBins) filters) ?p kFftBins) kMinimumMelEnergy) = v mel"
    if "mel < n_mels" for mel
  proof -
    have "mel * kFftBins \<le> length filters" using that assms(1) by simp
    moreover have "kFftBins \<le> kFftSize" by (simp add: kFftBins_def kFftSize_def)
    ultimately have "dot_product neon (drop (mel * kFftBins) filters) ?p kFftBins =
        (\<Sum>bin<kFftBins. filters ! (mel * kFftBins + bin) *
       (cmod (\<Sum>t<400. complex_of_real (padded_sample audio (?start + int t) * hann ! t)
          * cis (- 2 * pi * real bin * real t / 400)))\<^sup>2)"
      unfolding dot_product_eq by (intro sum.cong refl) (simp only: nth_drop p fo lessThan_iff nth_map_upt_lane)
    then show ?thesis by (simp only: v_def mel_value_def)
  qed
  obtain out' m' where l: "for_range 0 n_mels (\<lambda>mel (outp, lm). (outp[mel * kFrames + frame := v mel], max lm (v mel))) (outp, lm) = (out', m')"
    "length out' = length outp"
    "\<forall>mel < n_mels. \<forall>fr < kFrames. out' ! (mel * kFrames + fr) = (if mel < n_mels \<and> fr = frame then v mel else outp ! (mel * kFrames + fr))"
    "m' = Max (insert lm (v ` {..<n_mels}))"
    using mel_loop [OF order_refl assms(3,4), of v lm] by blast
  have "process_frame neon n_mels filters audio hann frame (tw, outp, lm) =
     (\<lparr>tw_power = ?p, tw_fft_input = fin, tw_fft_output = fo, tw_fft_scratch = fs\<rparr>, out', m')"
    using l(1) for_range_cong [OF refl refl refl, of 0 n_mels
        "\<lambda>mel (outp, lm). (outp[mel * kFrames + frame := log 10 (max (dot_product neon (drop (mel * kFftBins) filters) ?p kFftBins) kMinimumMelEnergy)],
           max lm (log 10 (max (dot_product neon (drop (mel * kFftBins) filters) ?p kFftBins) kMinimumMelEnergy)))"
        "\<lambda>mel (outp, lm). (outp[mel * kFrames + frame := v mel], max lm (v mel))" "(outp, lm)"]
    unfolding process_frame_def prod.case Let_def fin_def [symmetric] f by (simp add: v)
  moreover have "tw_ok \<lparr>tw_power = ?p, tw_fft_input = fin, tw_fft_output = fo, tw_fft_scratch = fs\<rparr>"
    using len p by (simp add: tw_ok_def)
  ultimately show ?thesis using l by auto
qed

section \<open>The invariant of the interleaved tasks\<close>

definition frame_maximum :: "nat \<Rightarrow> (nat \<Rightarrow> nat \<Rightarrow> real) \<Rightarrow> nat set \<Rightarrow> real" where
  "frame_maximum n v S = Max (insert kInitialLogMel ((\<lambda>(mel, fr). v mel fr) ` ({..<n} \<times> S)))"

lemma Max_insert_Max:
  fixes A B :: "real set"
  assumes "finite A" and "A \<noteq> {}" and "finite B"
  shows "Max (insert (Max A) B) = Max (A \<union> B)"
  using assms by (cases "B = {}") (simp_all add: Max_Un)

lemma frame_maximum_insert:
  assumes "finite S"
  shows "Max (insert (frame_maximum n v S) ((\<lambda>mel. v mel fr) ` {..<n})) = frame_maximum n v (insert fr S)"
proof -
  have "(\<lambda>(mel, fr). v mel fr) ` ({..<n} \<times> insert fr S) =
      (\<lambda>(mel, fr). v mel fr) ` ({..<n} \<times> S) \<union> (\<lambda>mel. v mel fr) ` {..<n}"
    by auto
  moreover have "Max (insert (frame_maximum n v S) ((\<lambda>mel. v mel fr) ` {..<n}))
      = Max (insert kInitialLogMel ((\<lambda>(mel, fr). v mel fr) ` ({..<n} \<times> S)) \<union> (\<lambda>mel. v mel fr) ` {..<n})"
    unfolding frame_maximum_def using assms by (intro Max_insert_Max) simp_all
  ultimately show ?thesis by (simp add: frame_maximum_def)
qed

lemma frame_maximum_Max:
  assumes "finite I" and "\<And>i. i \<in> I \<Longrightarrow> finite (S i)" and "I \<noteq> {}"
  shows "Max ((\<lambda>i. frame_maximum n v (S i)) ` I) = frame_maximum n v (\<Union>i\<in>I. S i)"
  using assms(1,3,2)
proof (induction I rule: finite_ne_induct)
  case (insert i I)
  let ?X = "\<lambda>S. insert kInitialLogMel ((\<lambda>(mel, fr). v mel fr) ` ({..<n} \<times> S))"
  have "Max (?X (S i) \<union> ?X (\<Union>i\<in>I. S i)) = max (Max (?X (S i))) (Max (?X (\<Union>i\<in>I. S i)))"
    using insert by (intro Max_Un) auto
  moreover have "?X (S i) \<union> ?X (\<Union>i\<in>I. S i) = ?X (\<Union>i\<in>insert i I. S i)" by auto
  ultimately have "frame_maximum n v (\<Union>i\<in>insert i I. S i) = max (frame_maximum n v (S i)) (frame_maximum n v (\<Union>i\<in>I. S i))"
    by (simp add: frame_maximum_def)
  then show ?case using insert by simp
qed simp

fun task_slot :: "task_state \<Rightarrow> nat option" where
  "task_slot (Waiting b e) = None"
| "task_slot (Running w f e m) = Some w"
| "task_slot (Finished w) = Some w"

fun task_frames :: "nat \<times> nat \<Rightarrow> task_state \<Rightarrow> nat set" where
  "task_frames (b, e) (Waiting b' e') = {}"
| "task_frames (b, e) (Running w f e' m) = {b..<f}"
| "task_frames (b, e) (Finished w) = {b..<e}"

fun task_inv :: "nat \<Rightarrow> (nat \<Rightarrow> nat \<Rightarrow> real) \<Rightarrow> real list \<Rightarrow> nat \<times> nat \<Rightarrow> task_state \<Rightarrow> bool" where
  "task_inv n v maxima (b, e) (Waiting b' e') \<longleftrightarrow> b' = b \<and> e' = e"
| "task_inv n v maxima (b, e) (Running w f e' m) \<longleftrightarrow> b \<le> f \<and> f \<le> e \<and> e' = e \<and> m = frame_maximum n v {b..<f}"
| "task_inv n v maxima (b, e) (Finished w) \<longleftrightarrow> maxima ! w = frame_maximum n v {b..<e}"

definition frames_done :: "(nat \<times> nat) list \<Rightarrow> task_state list \<Rightarrow> nat set" where
  "frames_done blocks ts = (\<Union>i < length blocks. task_frames (blocks ! i) (ts ! i))"

definition slots_ok :: "nat \<Rightarrow> task_state list \<Rightarrow> bool" where
  "slots_ok next_slot ts \<longleftrightarrow>
     (\<forall>i < length ts. \<forall>j < length ts. task_slot (ts ! i) \<noteq> None \<longrightarrow> task_slot (ts ! i) = task_slot (ts ! j) \<longrightarrow> i = j)
   \<and> {w. \<exists>i < length ts. task_slot (ts ! i) = Some w} = {..<next_slot}"

definition output_ok :: "nat \<Rightarrow> (nat \<Rightarrow> nat \<Rightarrow> real) \<Rightarrow> nat set \<Rightarrow> real list \<Rightarrow> bool" where
  "output_ok n v S outp \<longleftrightarrow> length outp = n * kFrames
     \<and> (\<forall>mel < n. \<forall>fr < kFrames. outp ! (mel * kFrames + fr) = (if fr \<in> S then v mel fr else kInitialLogMel))"

definition run_inv :: "nat \<Rightarrow> (nat \<Rightarrow> nat \<Rightarrow> real) \<Rightarrow> nat \<Rightarrow> (nat \<times> nat) list \<Rightarrow> feature_run \<Rightarrow> bool" where
  "run_inv n v nt blocks st \<longleftrightarrow>
     length (run_tasks st) = length blocks \<and> length blocks \<le> nt
   \<and> length (run_workspaces st) = nt \<and> (\<forall>w < nt. tw_ok (run_workspaces st ! w))
   \<and> length (run_maxima st) = nt
   \<and> output_ok n v (frames_done blocks (run_tasks st)) (run_output st)
   \<and> (\<forall>i < length blocks. task_inv n v (run_maxima st) (blocks ! i) (run_tasks st ! i))
   \<and> slots_ok (run_next st) (run_tasks st)"

lemma slots_bound: 
  assumes "slots_ok k ts" shows "k \<le> length ts"
proof -
  have "{..<k} \<subseteq> (\<lambda>i. the (task_slot (ts ! i))) ` {..<length ts}"
  proof
    fix w assume "w \<in> {..<k}"
    then obtain i where "i < length ts" "task_slot (ts ! i) = Some w"
      using assms unfolding slots_ok_def by blast
    then show "w \<in> (\<lambda>i. the (task_slot (ts ! i))) ` {..<length ts}" by force
  qed
  then have "card {..<k} \<le> card {..<length ts}" by (rule surj_card_le [rotated]) simp
  then show ?thesis by simp
qed

lemma slots_start:
  assumes "slots_ok k ts" and "i < length ts" and "task_slot (ts ! i) = None" and "task_slot t = Some k"
  shows "slots_ok (Suc k) (ts[i := t])"
proof -
  have old: "task_slot (ts ! j) \<noteq> Some k" if "j < length ts" for j
    using assms(1) that unfolding slots_ok_def by (metis (mono_tags, lifting) lessThan_iff less_irrefl mem_Collect_eq)
  have new: "task_slot (ts[i := t] ! j) = (if j = i then Some k else task_slot (ts ! j))" for j
    using assms(2,4) by (simp add: nth_list_update)
  have "{w. \<exists>j < length ts. task_slot (ts[i := t] ! j) = Some w} = insert k {w. \<exists>j < length ts. task_slot (ts ! j) = Some w}"
    unfolding new using assms(2,3) by (auto split: if_splits) (metis option.distinct(1))
  also have "\<dots> = {..<Suc k}" using assms(1) by (simp only: slots_ok_def lessThan_Suc)
  finally have set: "{w. \<exists>j < length ts. task_slot (ts[i := t] ! j) = Some w} = {..<Suc k}" .
  have "i1 = j1" if "i1 < length ts" "j1 < length ts" "task_slot (ts[i := t] ! i1) \<noteq> None"
      "task_slot (ts[i := t] ! i1) = task_slot (ts[i := t] ! j1)" for i1 j1
    using assms(1) that old [of i1] old [of j1] unfolding new slots_ok_def by (metis (full_types))
  then show ?thesis
    unfolding slots_ok_def length_list_update using set by (intro conjI allI impI) blast+
qed

lemma slots_same:
  assumes "slots_ok k ts" and "i < length ts" and "task_slot t = task_slot (ts ! i)"
  shows "slots_ok k (ts[i := t])"
proof -
  have eq: "task_slot (ts[i := t] ! j) = task_slot (ts ! j)" for j
    using assms(2,3) by (cases "j = i") simp_all
  show ?thesis using assms(1) unfolding slots_ok_def length_list_update eq .
qed

lemma slot_bound: "slots_ok k ts \<Longrightarrow> i < length ts \<Longrightarrow> task_slot (ts ! i) = Some w \<Longrightarrow> w < k"
  unfolding slots_ok_def by (metis (mono_tags, lifting) lessThan_iff mem_Collect_eq)

lemma frames_done_update:
  assumes "i < length blocks" and "length ts = length blocks"
  shows "frames_done blocks (ts[i := t]) =
    (\<Union>j \<in> {..<length blocks} - {i}. task_frames (blocks ! j) (ts ! j)) \<union> task_frames (blocks ! i) t"
    and "frames_done blocks ts =
    (\<Union>j \<in> {..<length blocks} - {i}. task_frames (blocks ! j) (ts ! j)) \<union> task_frames (blocks ! i) (ts ! i)"
  using assms unfolding frames_done_def by (auto simp: nth_list_update split: if_splits)

section \<open>Every step keeps the invariant\<close>

lemma task_inv_maxima:
  assumes "task_inv n v maxima blk t" and "task_slot t \<noteq> Some w"
  shows "task_inv n v (maxima[w := m]) blk t"
  using assms by (cases blk; cases t) auto

lemma output_ok_frame:
  assumes "output_ok n v S outp" and "frame < kFrames" and "length out' = length outp"
    and "\<forall>mel < n. \<forall>fr < kFrames. out' ! (mel * kFrames + fr) = (if fr = frame then v mel frame else outp ! (mel * kFrames + fr))"
  shows "output_ok n v (insert frame S) out'"
  using assms unfolding output_ok_def by auto

lemma frames_done_finite: "finite (frames_done blocks ts)"
proof -
  have "finite (task_frames blk t)" for blk t by (cases blk; cases t) auto
  then show ?thesis by (simp add: frames_done_def)
qed

lemma run_inv_step:
  assumes inv: "run_inv n (mel_value filters audio hann) nt blocks st"
    and filters: "length filters = n * kFftBins"
    and blocks: "\<And>b e. (b, e) \<in> set blocks \<Longrightarrow> b < e \<and> e \<le> kFrames"
  shows "run_inv n (mel_value filters audio hann) nt blocks (task_step neon n filters audio hann i st)"
proof (cases "i < length (run_tasks st)")
  case False
  then show ?thesis using inv by (simp add: task_step_def)
next
  case i: True
  let ?v = "mel_value filters audio hann"
  let ?ts = "run_tasks st"
  obtain b e where blk: "blocks ! i = (b, e)" by (cases "blocks ! i")
  have len: "length ?ts = length blocks" and ib: "i < length blocks"
    using inv i by (auto simp: run_inv_def)
  have be: "b < e" "e \<le> kFrames" using blocks [of b e] blk ib by (metis nth_mem)+
  have ti: "task_inv n ?v (run_maxima st) (b, e) (?ts ! i)"
    using inv ib blk by (auto simp: run_inv_def)
  have sl: "slots_ok (run_next st) ?ts" using inv by (simp add: run_inv_def)
  have others: "task_inv n ?v (run_maxima st) (blocks ! j) (?ts ! j)" if "j < length blocks" for j
    using inv that by (simp add: run_inv_def)
  have next_nt: "run_next st \<le> nt" using slots_bound [OF sl] inv by (auto simp: run_inv_def)
  show ?thesis
  proof (cases "?ts ! i")
    case (Waiting b' e')
    let ?t = "Running (run_next st) b' e' kInitialLogMel"
    have "frames_done blocks (?ts[i := ?t]) = frames_done blocks ?ts"
      using ti Waiting by (simp add: frames_done_update [OF ib len] blk)
    moreover have "slots_ok (Suc (run_next st)) (?ts[i := ?t])"
      using sl i Waiting by (intro slots_start) simp_all
    moreover have "task_inv n ?v (run_maxima st) (blocks ! j) (?ts[i := ?t] ! j)" if "j < length blocks" for j
      using others [OF that] ti Waiting blk be len that by (cases "j = i") (auto simp: frame_maximum_def)
    ultimately show ?thesis
      using inv i Waiting by (simp add: task_step_def run_inv_def)
  next
    case (Running w f e' m)
    have w: "w < run_next st" using slot_bound [OF sl i] Running by simp
    have f: "b \<le> f" "f \<le> e" "e' = e" "m = frame_maximum n ?v {b..<f}" using ti Running by auto
    show ?thesis
    proof (cases "f < e")
      case True
      have "tw_ok (run_workspaces st ! w)" and out: "output_ok n ?v (frames_done blocks ?ts) (run_output st)"
        using inv w next_nt by (auto simp: run_inv_def)
      moreover then have "length (run_output st) = n * kFrames" by (simp add: output_ok_def)
      moreover have "f < kFrames" using True be by simp
      ultimately obtain tw' out' m' where p:
        "process_frame neon n filters audio hann f (run_workspaces st ! w, run_output st, m) = (tw', out', m')"
        "tw_ok tw'" "length out' = length (run_output st)"
        "\<forall>mel < n. \<forall>fr < kFrames. out' ! (mel * kFrames + fr) =
          (if fr = f then ?v mel f else run_output st ! (mel * kFrames + fr))"
        "m' = Max (insert m ((\<lambda>mel. ?v mel f) ` {..<n}))"
        using process_frame_spec [OF filters, where tw = "run_workspaces st ! w" and frame = f
            and outp = "run_output st" and audio = audio and hann = hann and neon = neon and lm = m]
        by blast
      have ext: "{b..<Suc f} = insert f {b..<f}" using f(1) by auto
      let ?t = "Running w (f + 1) e m'"
      have "frames_done blocks (?ts[i := ?t]) = insert f (frames_done blocks ?ts)"
        using Running by (simp add: frames_done_update [OF ib len] blk ext)
      then have "output_ok n ?v (frames_done blocks (?ts[i := ?t])) out'"
        using output_ok_frame [OF out _ p(3,4)] True be by simp
      moreover have "m' = frame_maximum n ?v {b..<f + 1}"
        using frame_maximum_insert [of "{b..<f}" n ?v f] p(5) f(4) by (simp add: ext)
      then have "task_inv n ?v (run_maxima st) (blocks ! j) (?ts[i := ?t] ! j)" if "j < length blocks" for j
        using others [OF that] True f(1) blk len that by (cases "j = i") auto
      moreover have "slots_ok (run_next st) (?ts[i := ?t])"
        using sl i Running by (intro slots_same) simp_all
      moreover have "\<forall>x < nt. tw_ok ((run_workspaces st)[w := tw'] ! x)"
        using inv p(2) w next_nt by (auto simp: run_inv_def nth_list_update)
      ultimately show ?thesis
        using inv i Running True f(3) by (simp add: task_step_def run_inv_def p(1))
    next
      case False
      then have fe: "f = e" using f by simp
      let ?t = "Finished w"
      have "frames_done blocks (?ts[i := ?t]) = frames_done blocks ?ts"
        using Running fe by (simp add: frames_done_update [OF ib len] blk)
      moreover have "slots_ok (run_next st) (?ts[i := ?t])"
        using sl i Running by (intro slots_same) simp_all
      moreover have "task_inv n ?v ((run_maxima st)[w := m]) (blocks ! j) (?ts[i := ?t] ! j)" if "j < length blocks" for j
      proof (cases "j = i")
        case True
        then show ?thesis using f fe blk len ib w next_nt inv by (simp add: run_inv_def)
      next
        case False
        then have "task_slot (?ts ! j) \<noteq> Some w"
          using sl i Running that len unfolding slots_ok_def by (metis option.distinct(1) task_slot.simps(2))
        then show ?thesis using task_inv_maxima [OF others [OF that]] False by simp
      qed
      ultimately show ?thesis
        using inv i Running False f(3) by (simp add: task_step_def run_inv_def)
    qed
  next
    case (Finished w)
    then show ?thesis using inv i by (simp add: task_step_def)
  qed
qed

section \<open>Running to the end\<close>

fun task_left :: "task_state \<Rightarrow> nat" where
  "task_left (Waiting b e) = e - b + 2"
| "task_left (Running w f e m) = e - f + 1"
| "task_left (Finished w) = 0"

lemma task_step_left:
  "length (run_tasks (task_step neon n filters audio hann i st)) = length (run_tasks st)"
  "task_left (run_tasks (task_step neon n filters audio hann i st) ! j) \<le> task_left (run_tasks st ! j)"
  "i < length (run_tasks st) \<Longrightarrow>
    task_left (run_tasks (task_step neon n filters audio hann i st) ! i) \<le> task_left (run_tasks st ! i) - 1"
proof -
  have "length (run_tasks (task_step neon n filters audio hann i st)) = length (run_tasks st)
    \<and> task_left (run_tasks (task_step neon n filters audio hann i st) ! j) \<le> task_left (run_tasks st ! j) - (if i = j \<and> i < length (run_tasks st) then 1 else 0)" for j
  proof (cases "i < length (run_tasks st)")
    case True
    then show ?thesis
      by (cases "i = j") (auto simp: task_step_def nth_list_update split: task_state.split prod.split)
  qed (simp add: task_step_def)
  from this [of j] this [of i]
  show "length (run_tasks (task_step neon n filters audio hann i st)) = length (run_tasks st)"
    "task_left (run_tasks (task_step neon n filters audio hann i st) ! j) \<le> task_left (run_tasks st ! j)"
    "i < length (run_tasks st) \<Longrightarrow>
    task_left (run_tasks (task_step neon n filters audio hann i st) ! i) \<le> task_left (run_tasks st ! i) - 1"
    by (auto split: if_splits)
qed

lemma fold_step_left:
  "length (run_tasks (fold (task_step neon n filters audio hann) sched st)) = length (run_tasks st)
   \<and> (i < length (run_tasks st) \<longrightarrow>
      task_left (run_tasks (fold (task_step neon n filters audio hann) sched st) ! i)
        \<le> task_left (run_tasks st ! i) - count_list sched i)"
proof (induction sched arbitrary: st)
  case (Cons k sched)
  let ?st = "task_step neon n filters audio hann k st"
  have "task_left (run_tasks ?st ! i) \<le> task_left (run_tasks st ! i) - (if k = i then 1 else 0)"
    if "i < length (run_tasks st)"
    using that task_step_left(2) [where i = k and j = i and st = st] task_step_left(3) [where i = k and st = st] by auto
  then show ?case using Cons [of ?st] task_step_left(1) [where i = k and st = st] by fastforce
qed simp

lemma task_left_0: "task_left t = 0 \<Longrightarrow> \<exists>w. t = Finished w"
  by (cases t) auto

lemma count_drain:
  assumes "i < m"
  shows "count_list (sched @ concat (map (\<lambda>i. replicate k i) [0..<m])) i \<ge> k"
proof -
  have "count_list (replicate k i) i = k" for k by (induction k) simp_all
  then have "k \<le> count_list (concat (map (\<lambda>i. replicate k i) [0..<m])) i"
    using assms by (induction m) (auto simp: less_Suc_eq)
  then show ?thesis by simp
qed

lemma run_to_end_inv:
  assumes "run_inv n (mel_value filters audio hann) nt blocks st"
    and "length filters = n * kFftBins"
    and "\<And>b e. (b, e) \<in> set blocks \<Longrightarrow> b < e \<and> e \<le> kFrames"
  shows "run_inv n (mel_value filters audio hann) nt blocks (fold (task_step neon n filters audio hann) sched st)"
  using assms(1)
proof (induction sched arbitrary: st)
  case (Cons i sched)
  then show ?case using run_inv_step [OF Cons.prems assms(2,3)] by simp
qed simp

lemma run_to_end_finished:
  assumes "run_tasks st = map (\<lambda>(b, e). Waiting b e) blocks"
    and "\<And>b e. (b, e) \<in> set blocks \<Longrightarrow> b < e \<and> e \<le> kFrames" and "i < length blocks"
  shows "\<exists>w. run_tasks (run_tasks_to_end neon n filters audio hann sched st) ! i = Finished w"
proof (rule task_left_0)
  obtain b e where be: "blocks ! i = (b, e)" by (cases "blocks ! i")
  then have "e \<le> kFrames" using assms(2) [of b e] nth_mem [OF assms(3)] by simp
  then have "task_left (run_tasks st ! i) \<le> kFrames + 2" using assms be by simp
  moreover have "kFrames + 2 \<le> count_list (sched @ concat (map (\<lambda>i. replicate (kFrames + 2) i) [0..<length (run_tasks st)])) i"
    using assms(1,3) by (intro count_drain) simp
  moreover have "task_left (run_tasks (run_tasks_to_end neon n filters audio hann sched st) ! i)
    \<le> task_left (run_tasks st ! i) - count_list (sched @ concat (map (\<lambda>i. replicate (kFrames + 2) i) [0..<length (run_tasks st)])) i"
    using fold_step_left assms(1,3) unfolding run_tasks_to_end_def by (metis length_map)
  ultimately show "task_left (run_tasks (run_tasks_to_end neon n filters audio hann sched st) ! i) = 0"
    by linarith
qed

lemma foldl_max: "foldl max a xs = Max (insert a (set xs))" for a :: real
proof -
  have "foldl max a xs = fold max xs a"
    by (induction xs arbitrary: a) (simp_all add: max.commute)
  also have "\<dots> = Max (set (a # xs))" by (simp only: Max.set_eq_fold)
  finally show ?thesis by simp
qed

lemma final_maximum:
  assumes inv: "run_inv n v nt blocks st" and fin: "\<And>i. i < length blocks \<Longrightarrow> \<exists>w. run_tasks st ! i = Finished w"
    and "blocks \<noteq> []"
  shows "foldl max (hd (run_maxima st)) (take (run_next st) (run_maxima st)) =
      frame_maximum n v (\<Union>(b, e) \<in> set blocks. {b..<e})"
    and "frames_done blocks (run_tasks st) = (\<Union>(b, e) \<in> set blocks. {b..<e})"
proof -
  have len: "length (run_tasks st) = length blocks" and sl: "slots_ok (run_next st) (run_tasks st)"
    and ti: "\<And>i. i < length blocks \<Longrightarrow> task_inv n v (run_maxima st) (blocks ! i) (run_tasks st ! i)"
    and mx: "run_next st \<le> length (run_maxima st)"
    using inv slots_bound [of "run_next st" "run_tasks st"] by (auto simp: run_inv_def)
  let ?S = "\<lambda>i. {fst (blocks ! i)..<snd (blocks ! i)}"
  have m: "run_tasks st ! i = Finished w \<Longrightarrow> i < length blocks \<Longrightarrow> run_maxima st ! w = frame_maximum n v (?S i)" for i w
    using ti [of i] by (cases "blocks ! i") simp
  have slots: "{w. \<exists>i < length blocks. run_tasks st ! i = Finished w} = {..<run_next st}"
  proof -
    have "task_slot (run_tasks st ! i) = Some w \<longleftrightarrow> run_tasks st ! i = Finished w" if "i < length blocks" for i w
      using fin [OF that] by auto
    then have "{w. \<exists>i < length blocks. run_tasks st ! i = Finished w}
        = {w. \<exists>i < length (run_tasks st). task_slot (run_tasks st ! i) = Some w}"
      using len by auto
    then show ?thesis using sl unfolding slots_ok_def by simp
  qed
  have image: "(\<lambda>w. run_maxima st ! w) ` {..<run_next st} = (\<lambda>i. frame_maximum n v (?S i)) ` {..<length blocks}"
  proof (intro equalityI subsetI)
    fix x assume "x \<in> (\<lambda>w. run_maxima st ! w) ` {..<run_next st}"
    then obtain w where "x = run_maxima st ! w" "w \<in> {..<run_next st}" by blast
    then obtain i where "i < length blocks" "run_tasks st ! i = Finished w" using slots by blast
    then show "x \<in> (\<lambda>i. frame_maximum n v (?S i)) ` {..<length blocks}"
      using m \<open>x = run_maxima st ! w\<close> by auto
  next
    fix x assume "x \<in> (\<lambda>i. frame_maximum n v (?S i)) ` {..<length blocks}"
    then obtain i where i: "i < length blocks" "x = frame_maximum n v (?S i)" by auto
    then obtain w where w: "run_tasks st ! i = Finished w" using fin by blast
    then have "w \<in> {..<run_next st}" using slots i(1) by blast
    moreover have "x = run_maxima st ! w" using m [OF w i(1)] i(2) by simp
    ultimately show "x \<in> (\<lambda>w. run_maxima st ! w) ` {..<run_next st}" by (rule image_eqI [rotated])
  qed
  obtain w0 where "run_tasks st ! 0 = Finished w0" using fin [of 0] assms(3) by auto
  then have "w0 < run_next st" using slots assms(3) by blast
  then have pos: "0 < run_next st" by simp
  have union: "(\<Union>i<length blocks. ?S i) = (\<Union>(b, e) \<in> set blocks. {b..<e})"
    by (auto simp: set_conv_nth case_prod_unfold)
  have "set (take (run_next st) (run_maxima st)) = (\<lambda>w. run_maxima st ! w) ` {..<run_next st}"
    using mx by (simp add: nth_image lessThan_atLeast0)
  moreover have "hd (run_maxima st) \<in> set (take (run_next st) (run_maxima st))"
    using mx pos by (cases "run_maxima st") (auto simp: take_Cons' )
  ultimately have "foldl max (hd (run_maxima st)) (take (run_next st) (run_maxima st)) =
      Max ((\<lambda>i. frame_maximum n v (?S i)) ` {..<length blocks})"
    by (simp add: foldl_max insert_absorb image)
  also have "\<dots> = frame_maximum n v (\<Union>i<length blocks. ?S i)"
    using assms(3) by (intro frame_maximum_Max) auto
  finally show "foldl max (hd (run_maxima st)) (take (run_next st) (run_maxima st)) =
      frame_maximum n v (\<Union>(b, e) \<in> set blocks. {b..<e})" by (simp only: union)
  have "task_frames (blocks ! i) (run_tasks st ! i) = ?S i" if "i < length blocks" for i
    using fin [OF that] by (cases "blocks ! i") auto
  then show "frames_done blocks (run_tasks st) = (\<Union>(b, e) \<in> set blocks. {b..<e})"
    unfolding frames_done_def union [symmetric] by simp
qed

section \<open>The work area between extractions\<close>

definition ws_ok :: "feature_workspace \<Rightarrow> bool" where
  "ws_ok ws \<longleftrightarrow> 0 < ws_num_threads ws
     \<and> (length (ws_hann ws) = kFftSize \<longrightarrow> ws_hann ws = hann_window)
     \<and> (ws_custom_filter_mels ws \<noteq> 0 \<longrightarrow> ws_custom_filters ws = make_mel_filters (ws_custom_filter_mels ws))"

lemma empty_workspace_ok: "ws_ok empty_workspace"
  by (simp add: ws_ok_def empty_workspace_def kFftSize_def)

lemma prepare_ok:
  assumes "ws_ok ws" and "0 < n_mels"
  obtains ws' where "prepare_whisper_feature_workspace n_mels ws num_threads = Inr ws'" and "ws_ok ws'"
    and "ws_hann ws' = hann_window" and "length (ws_audio ws') = kChunkSamples"
    and "length (ws_thread_workspaces ws') = ws_num_threads ws'"
    and "\<forall>tw \<in> set (ws_thread_workspaces ws'). tw_ok tw"
    and "length (ws_thread_maxima ws') = ws_num_threads ws'"
    and "select_filters n_mels ws' = make_mel_filters n_mels"
    and "ws_num_threads ws' = (if num_threads > 0 then num_threads else ws_num_threads ws)"
proof -
  have "length hann_window = kFftSize" by (simp add: hann_window_def)
  moreover have "tw_ok (resize_thread_workspace tw)" for tw
    by (simp add: tw_ok_def resize_thread_workspace_def)
  ultimately show thesis
    using assms that
    by (cases "prepare_whisper_feature_workspace n_mels ws num_threads")
      (auto simp: prepare_whisper_feature_workspace_def Let_def ws_ok_def select_filters_def split: if_splits)
qed

section \<open>The features\<close>

text \<open>The log-Mel features of a clip, without work areas, threads or vector paths: the clip padded to
  30 seconds, the logarithm of the filtered power spectrum of each active frame, the floor at 8 below
  the maximum, the final scaling.\<close>

definition feature_cell :: "real list \<Rightarrow> nat \<Rightarrow> nat \<Rightarrow> nat \<Rightarrow> real" where
  "feature_cell samples n_mels mel frame =
     (if frame < active_frame_count (min (length samples) kChunkSamples)
      then mel_value (make_mel_filters n_mels) (take kChunkSamples (samples @ replicate kChunkSamples 0)) hann_window mel frame
      else kInitialLogMel)"

definition feature_maximum :: "real list \<Rightarrow> nat \<Rightarrow> real" where
  "feature_maximum samples n_mels = frame_maximum n_mels (feature_cell samples n_mels) {..<kFrames}"

definition feature_spec :: "real list \<Rightarrow> nat \<Rightarrow> real list" where
  "feature_spec samples n_mels =
     map (normalize_value (feature_maximum samples n_mels - kDynamicRange))
       (concat (map (\<lambda>mel. map (feature_cell samples n_mels mel) [0..<kFrames]) [0..<n_mels]))"

lemma frame_maximum_active:
  assumes "A \<le> kFrames"
  shows "frame_maximum n (\<lambda>mel fr. if fr < A then v mel fr else kInitialLogMel) {..<kFrames} = frame_maximum n v {..<A}"
proof -
  have "insert kInitialLogMel ((\<lambda>(mel, fr). if fr < A then v mel fr else kInitialLogMel) ` ({..<n} \<times> {..<kFrames}))
      = insert kInitialLogMel ((\<lambda>(mel, fr). v mel fr) ` ({..<n} \<times> {..<A}))" (is "?L = ?R")
  proof (intro equalityI subsetI)
    fix x assume "x \<in> ?L"
    then show "x \<in> ?R" by (auto split: if_splits)
  next
    fix x assume "x \<in> ?R"
    then consider "x = kInitialLogMel" | mel fr where "x = v mel fr" "mel < n" "fr < A" by auto
    then show "x \<in> ?L"
    proof cases
      case 2
      then have "(mel, fr) \<in> {..<n} \<times> {..<kFrames}" using assms by simp
      then show ?thesis using 2 by (intro insertI2 image_eqI [of _ _ "(mel, fr)"]) simp_all
    qed simp
  qed
  then show ?thesis by (simp add: frame_maximum_def)
qed

lemma output_ok_rows:
  assumes "output_ok n v S outp"
  shows "outp = concat (map (\<lambda>mel. map (\<lambda>fr. if fr \<in> S then v mel fr else kInitialLogMel) [0..<kFrames]) [0..<n])"
    (is "_ = ?R")
proof (rule nth_equalityI)
  have len: "length (concat (map (\<lambda>mel. map (h mel) [0..<kFrames]) [0..<m])) = m * kFrames" for h :: "nat \<Rightarrow> nat \<Rightarrow> real" and m
    by (induction m) simp_all
  show "length outp = length ?R" using assms by (simp add: len output_ok_def)
  fix i assume "i < length outp"
  then have i: "i < n * kFrames" using assms by (simp add: output_ok_def)
  have k: "0 < kFrames" by (simp add: kFrames_def)
  have "i div kFrames < n" using i by (simp add: less_mult_imp_div_less)
  moreover have "i mod kFrames < kFrames" using k by simp
  ultimately have "outp ! (i div kFrames * kFrames + i mod kFrames) = ?R ! (i div kFrames * kFrames + i mod kFrames)"
    using assms by (simp only: output_ok_def nth_concat_rows)
  then show "outp ! i = ?R ! i" by (simp only: div_mult_mod_eq)
qed

lemma store_block_prefix:
  "length vs \<le> length xs \<Longrightarrow> store_block 0 vs xs = vs @ drop (length vs) xs"
  by (intro nth_equalityI) (auto simp: store_block_def nth_for_range_update [where j = 0, simplified] nth_append)

lemma tasks_cover:
  fixes k grain :: nat
  assumes "0 < nt" and "A \<le> kFrames"
  defines "blocks \<equiv> parallel_for nt k 0 A grain"
  shows "(\<Union>(b, e) \<in> set blocks. {b..<e}) = {..<A}" and "length blocks \<le> nt"
    and "(b, e) \<in> set blocks \<Longrightarrow> b < e \<and> e \<le> kFrames" and "0 < A \<Longrightarrow> blocks \<noteq> []"
proof -
  note p = parallel_for_partition [OF assms(1), where k = k and begin_index = 0 and end_index = A and grain = grain, folded blocks_def]
  have "set (concat (map (\<lambda>(b, e). [b..<e]) blocks)) = {..<A}" using p(1) by auto
  then show u: "(\<Union>(b, e) \<in> set blocks. {b..<e}) = {..<A}" by (auto simp: case_prod_unfold)
  show "length blocks \<le> nt" by (rule p(2))
  show "b < e \<and> e \<le> kFrames" if "(b, e) \<in> set blocks"
  proof -
    have "b < e" using p(3) that .
    then have "e - 1 \<in> (\<Union>(b, e) \<in> set blocks. {b..<e})" using that by (intro UN_I [of "(b, e)"]) auto
    then show ?thesis using u assms(2) \<open>b < e\<close> by auto
  qed
  show "blocks \<noteq> []" if "0 < A" using u that by auto
qed

lemma active_frames_bounds: "0 < active_frame_count c" "active_frame_count c \<le> kFrames"
  by (simp_all add: active_frame_count_def kFrames_def kFftHalfSize_def kHopLength_def div_greater_zero_iff)

lemma make_whisper_features_eq:
  assumes "ws_ok ws" and "0 < n_mels"
  shows "\<exists>ws'. make_whisper_features neon pool_threads schedule samples n_mels outp ws
      = Inr (feature_spec samples n_mels, ws') \<and> ws_ok ws'"
proof -
  obtain wsp where prep: "prepare_whisper_feature_workspace n_mels ws 0 = Inr wsp" and ok: "ws_ok wsp"
    and hann: "ws_hann wsp = hann_window" and audio: "length (ws_audio wsp) = kChunkSamples"
    and tws: "length (ws_thread_workspaces wsp) = ws_num_threads wsp" "\<forall>tw \<in> set (ws_thread_workspaces wsp). tw_ok tw"
    and mx: "length (ws_thread_maxima wsp) = ws_num_threads wsp"
    and sel: "select_filters n_mels wsp = make_mel_filters n_mels"
    using prepare_ok [OF assms, of 0] by metis
  let ?c = "min (length samples) kChunkSamples"
  let ?A = "active_frame_count ?c"
  let ?nt = "ws_num_threads wsp"
  let ?audio = "take kChunkSamples (samples @ replicate kChunkSamples 0)"
  let ?v = "mel_value (make_mel_filters n_mels) ?audio hann_window"
  have aud: "store_block 0 (take ?c samples) (replicate kChunkSamples 0) = ?audio"
    by (subst store_block_prefix) (auto simp: min_def)
  define blocks where "blocks = parallel_for ?nt pool_threads 0 ?A kFeatureParallelGrainFrames"
  have nt: "0 < ?nt" using ok by (simp add: ws_ok_def)
  note cover = tasks_cover [OF nt active_frames_bounds(2) [of ?c], where k = pool_threads and grain = kFeatureParallelGrainFrames,
      folded blocks_def]
  define st0 where "st0 = \<lparr>run_output = replicate (n_mels * kFrames) kInitialLogMel, run_next = 0,
    run_workspaces = ws_thread_workspaces wsp, run_maxima = replicate ?nt kInitialLogMel,
    run_tasks = map (\<lambda>(b, e). Waiting b e) blocks\<rparr>"
  define st where "st = run_tasks_to_end neon n_mels (make_mel_filters n_mels) ?audio hann_window schedule st0"
  have cells: "mel * kFrames + fr < n_mels * kFrames" if "mel < n_mels" "fr < kFrames" for mel fr
  proof -
    have "Suc mel * kFrames \<le> n_mels * kFrames" using that by (intro mult_le_mono1) simp
    then show ?thesis using that by simp
  qed
  have waiting: "task_frames blk (Waiting b e) = {}" "task_inv n v maxima blk (Waiting (fst blk) (snd blk))" for blk b e n v maxima
    by (cases blk, simp)+
  then have "frames_done blocks (run_tasks st0) = {}"
    by (simp add: frames_done_def st0_def case_prod_unfold)
  then have "run_inv n_mels ?v ?nt blocks st0"
    using tws cover(2) cells waiting(2)
    by (auto simp: run_inv_def st0_def output_ok_def slots_ok_def all_set_conv_all_nth case_prod_unfold)
  then have inv: "run_inv n_mels ?v ?nt blocks st"
    unfolding st_def run_tasks_to_end_def using cover(3) by (intro run_to_end_inv) auto
  have fin: "\<exists>w. run_tasks st ! i = Finished w" if "i < length blocks" for i
    unfolding st_def by (rule run_to_end_finished [OF _ cover(3) that]) (simp add: st0_def)
  have "blocks \<noteq> []" using cover(4) active_frames_bounds(1) [of ?c] by blast
  then have final: "foldl max (hd (run_maxima st)) (take (run_next st) (run_maxima st)) = frame_maximum n_mels ?v {..<?A}"
    "frames_done blocks (run_tasks st) = {..<?A}"
    using final_maximum [OF inv] fin unfolding cover(1) by blast+
  have cell: "feature_cell samples n_mels = (\<lambda>mel fr. if fr < ?A then ?v mel fr else kInitialLogMel)"
    by (intro ext) (simp add: feature_cell_def)
  have "run_output st = concat (map (\<lambda>mel. map (feature_cell samples n_mels mel) [0..<kFrames]) [0..<n_mels])"
    using output_ok_rows [of n_mels ?v "{..<?A}" "run_output st"] inv final(2) by (simp add: run_inv_def cell)
  moreover have "foldl max (hd (run_maxima st)) (take (run_next st) (run_maxima st)) = feature_maximum samples n_mels"
    unfolding final(1) feature_maximum_def cell by (rule frame_maximum_active [symmetric]) (rule active_frames_bounds)
  moreover have "make_whisper_features neon pool_threads schedule samples n_mels outp ws =
    Inr (normalize_features neon (run_output st) (foldl max (hd (run_maxima st)) (take (run_next st) (run_maxima st))),
      wsp\<lparr>ws_audio := ?audio, ws_thread_workspaces := run_workspaces st, ws_thread_maxima := run_maxima st\<rparr>)"
    unfolding make_whisper_features_def prep sum.case Let_def audio mx hann sel aud length_resize
      blocks_def [symmetric] st0_def [symmetric] st_def [symmetric] by (rule refl)
  moreover have "ws_ok (wsp\<lparr>ws_audio := ?audio, ws_thread_workspaces := run_workspaces st, ws_thread_maxima := run_maxima st\<rparr>)"
    using ok by (simp add: ws_ok_def)
  ultimately show ?thesis by (simp add: normalize_features_eq feature_spec_def)
qed

text \<open>C12: whatever the thread count, the thread pool, the interleaving of the tasks, the vector
  path, the reused output vector and the reused work area, the extractor returns exactly the
  features of the specification, and leaves the work area fit for the next extraction.\<close>

theorem make_whisper_features_correct:
  assumes "ws_ok ws" and "0 < n_mels"
  shows "\<exists>ws'. make_whisper_features neon pool_threads schedule samples n_mels outp ws
      = Inr (feature_spec samples n_mels, ws') \<and> ws_ok ws'"
  using assms by (rule make_whisper_features_eq)

theorem make_whisper_features_correct_witness:
  "\<exists>ws'. make_whisper_features True 4 [1, 0, 1] [1, 2] 3 [7] (empty_workspace\<lparr>ws_num_threads := 2\<rparr>)
      = Inr (feature_spec [1, 2] 3, ws') \<and> ws_ok ws'"
  using make_whisper_features_correct [of "empty_workspace\<lparr>ws_num_threads := 2\<rparr>" 3 True 4 "[1, 0, 1]" "[1, 2]" "[7]"]
  by (simp add: ws_ok_def empty_workspace_def kFftSize_def)

lemma feature_spec_range:
  "length (feature_spec samples n_mels) = n_mels * kFrames
   \<and> (\<exists>m \<ge> - 7 / 2. set (feature_spec samples n_mels) \<subseteq> {m..m + 2})"
proof -
  let ?M = "feature_maximum samples n_mels"
  let ?X = "insert kInitialLogMel ((\<lambda>(mel, fr). feature_cell samples n_mels mel fr) ` ({..<n_mels} \<times> {..<kFrames}))"
  have M: "?M = Max ?X" by (simp add: feature_maximum_def frame_maximum_def)
  have fin: "finite ?X" by simp
  have "kInitialLogMel \<le> ?M" unfolding M using fin by (intro Max_ge) simp_all
  then have M10: "- 10 \<le> ?M" by (simp add: kInitialLogMel_def)
  have le: "feature_cell samples n_mels mel fr \<le> ?M" if "mel < n_mels" "fr < kFrames" for mel fr
    unfolding M using fin that by (intro Max_ge) auto
  have "set (feature_spec samples n_mels) \<subseteq> {(?M - 4) / 4..(?M - 4) / 4 + 2}"
    using le by (auto simp: feature_spec_def normalize_value_def kDynamicRange_def kNormalizationOffset_def
        kNormalizationScale_def max_def field_simps)
  moreover have "length (concat (map (\<lambda>mel. map (h mel) [0..<kFrames]) [0..<m])) = m * kFrames" for h :: "nat \<Rightarrow> nat \<Rightarrow> real" and m
    by (induction m) simp_all
  ultimately show ?thesis using M10 by (intro conjI exI [of _ "(?M - 4) / 4"]) (simp_all add: feature_spec_def)
qed

text \<open>C13: the extractor returns n_mels rows of 3000 values, and the values span at most 2, the
  dynamic range of 8 after scaling: they lie between m and m + 2 for an m of at least -3.5.\<close>

theorem feature_range:
  assumes "ws_ok ws" and "0 < n_mels"
  shows "\<exists>features ws' m. make_whisper_features neon pool_threads schedule samples n_mels outp ws = Inr (features, ws')
    \<and> length features = n_mels * kFrames \<and> - 7 / 2 \<le> m \<and> set features \<subseteq> {m..m + 2}"
  using make_whisper_features_eq [OF assms, of neon pool_threads schedule samples outp]
    feature_spec_range [of samples n_mels] by blast

theorem feature_range_witness:
  "\<exists>features ws' m. make_whisper_features False 1 [] [] 2 [] empty_workspace = Inr (features, ws')
    \<and> length features = 2 * kFrames \<and> - 7 / 2 \<le> m \<and> set features \<subseteq> {m..m + 2}"
  using feature_range [OF empty_workspace_ok, of 2 False 1 "[]" "[]" "[]"] by simp

end
