(* ===== verification/WhisperParams.thy ===== *)
theory WhisperParams
  imports Complex_Main Prelude
begin

text \<open>
  The parameter structs of Whisper/include/whisper.h and their defaults in Whisper/src/whisper.cpp.
  C \<open>int\<close> fields are \<open>int\<close> (only copied here), floats are reals, a C string or array pointer is an
  option, a callback pointer is an optional address; the greedy and beam_search structs are
  flattened into their fields.
\<close>

definition WHISPER_SAMPLING_GREEDY :: int where "WHISPER_SAMPLING_GREEDY = 0"
definition WHISPER_SAMPLING_BEAM_SEARCH :: int where "WHISPER_SAMPLING_BEAM_SEARCH = 1"
definition WHISPER_AHEADS_NONE :: int where "WHISPER_AHEADS_NONE = 0"

definition FLT_MAX :: real where
  "FLT_MAX = (2 - 1 / 2 ^ 23) * 2 ^ 127"

record whisper_context_params =
  cp_use_gpu :: "bool"
  cp_flash_attn :: "bool"
  cp_gpu_device :: "int"
  cp_dtw_token_timestamps :: "bool"
  cp_dtw_aheads_preset :: "int"
  cp_dtw_n_top :: "int"
  cp_dtw_aheads :: "(int \<times> int) list"
  cp_dtw_mem_size :: "64 word"

definition whisper_context_default_params :: whisper_context_params where
  "whisper_context_default_params =
    \<lparr>cp_use_gpu = True,
     cp_flash_attn = True,
     cp_gpu_device = 0,
     cp_dtw_token_timestamps = False,
     cp_dtw_aheads_preset = WHISPER_AHEADS_NONE,
     cp_dtw_n_top = - 1,
     cp_dtw_aheads = [],
     cp_dtw_mem_size = 1024 * 1024 * 128\<rparr>"

record whisper_vad_context_params =
  vc_n_threads :: "int"
  vc_use_gpu :: "bool"
  vc_gpu_device :: "int"

definition whisper_vad_default_context_params :: whisper_vad_context_params where
  "whisper_vad_default_context_params =
    \<lparr>vc_n_threads = 4,
     vc_use_gpu = False,
     vc_gpu_device = 0\<rparr>"

record whisper_vad_params =
  vp_threshold :: "real"
  vp_min_speech_duration_ms :: "int"
  vp_min_silence_duration_ms :: "int"
  vp_max_speech_duration_s :: "real"
  vp_speech_pad_ms :: "int"
  vp_samples_overlap :: "real"

definition whisper_vad_default_params :: whisper_vad_params where
  "whisper_vad_default_params =
    \<lparr>vp_threshold = 0.5,
     vp_min_speech_duration_ms = 250,
     vp_min_silence_duration_ms = 100,
     vp_max_speech_duration_s = FLT_MAX,
     vp_speech_pad_ms = 30,
     vp_samples_overlap = 0.1\<rparr>"

record whisper_full_params =
  fp_strategy :: "int"
  fp_n_threads :: "int"
  fp_n_max_text_ctx :: "int"
  fp_offset_ms :: "int"
  fp_duration_ms :: "int"
  fp_translate :: "bool"
  fp_no_context :: "bool"
  fp_no_timestamps :: "bool"
  fp_single_segment :: "bool"
  fp_print_special :: "bool"
  fp_print_progress :: "bool"
  fp_print_realtime :: "bool"
  fp_print_timestamps :: "bool"
  fp_token_timestamps :: "bool"
  fp_thold_pt :: "real"
  fp_thold_ptsum :: "real"
  fp_max_len :: "int"
  fp_split_on_word :: "bool"
  fp_max_tokens :: "int"
  fp_debug_mode :: "bool"
  fp_audio_ctx :: "int"
  fp_tdrz_enable :: "bool"
  fp_suppress_regex :: "string option"
  fp_initial_prompt :: "string option"
  fp_carry_initial_prompt :: "bool"
  fp_prompt_tokens :: "int list option"
  fp_prompt_n_tokens :: "int"
  fp_language :: "string option"
  fp_detect_language :: "bool"
  fp_suppress_blank :: "bool"
  fp_suppress_nst :: "bool"
  fp_temperature :: "real"
  fp_max_initial_ts :: "real"
  fp_length_penalty :: "real"
  fp_temperature_inc :: "real"
  fp_entropy_thold :: "real"
  fp_logprob_thold :: "real"
  fp_no_speech_thold :: "real"
  fp_greedy_best_of :: "int"
  fp_beam_search_beam_size :: "int"
  fp_beam_search_patience :: "real"
  fp_new_segment_callback :: "nat option"
  fp_progress_callback :: "nat option"
  fp_encoder_begin_callback :: "nat option"
  fp_abort_callback :: "nat option"
  fp_logits_filter_callback :: "nat option"
  fp_grammar_rules :: "nat option"
  fp_n_grammar_rules :: "nat"
  fp_i_start_rule :: "nat"
  fp_grammar_penalty :: "real"
  fp_vad :: "bool"
  fp_vad_model_path :: "string option"
  fp_vad_params :: "whisper_vad_params"

text \<open>\<open>hw\<close> is \<open>std::thread::hardware_concurrency()\<close>.\<close>

definition whisper_full_default_params :: "int \<Rightarrow> int \<Rightarrow> whisper_full_params" where
  "whisper_full_default_params hw strategy =
    \<lparr>fp_strategy = strategy,
     fp_n_threads = min 4 hw,
     fp_n_max_text_ctx = 16384,
     fp_offset_ms = 0,
     fp_duration_ms = 0,
     fp_translate = False,
     fp_no_context = True,
     fp_no_timestamps = False,
     fp_single_segment = False,
     fp_print_special = False,
     fp_print_progress = True,
     fp_print_realtime = False,
     fp_print_timestamps = True,
     fp_token_timestamps = False,
     fp_thold_pt = 0.01,
     fp_thold_ptsum = 0.01,
     fp_max_len = 0,
     fp_split_on_word = False,
     fp_max_tokens = 0,
     fp_debug_mode = False,
     fp_audio_ctx = 0,
     fp_tdrz_enable = False,
     fp_suppress_regex = None,
     fp_initial_prompt = None,
     fp_carry_initial_prompt = False,
     fp_prompt_tokens = None,
     fp_prompt_n_tokens = 0,
     fp_language = Some ''en'',
     fp_detect_language = False,
     fp_suppress_blank = True,
     fp_suppress_nst = False,
     fp_temperature = 0,
     fp_max_initial_ts = 1,
     fp_length_penalty = - 1,
     fp_temperature_inc = 0.2,
     fp_entropy_thold = 2.4,
     fp_logprob_thold = - 1,
     fp_no_speech_thold = 0.6,
     fp_greedy_best_of = (if strategy = WHISPER_SAMPLING_GREEDY then 5 else - 1),
     fp_beam_search_beam_size = (if strategy = WHISPER_SAMPLING_BEAM_SEARCH then 5 else - 1),
     fp_beam_search_patience = - 1,
     fp_new_segment_callback = None,
     fp_progress_callback = None,
     fp_encoder_begin_callback = None,
     fp_abort_callback = None,
     fp_logits_filter_callback = None,
     fp_grammar_rules = None,
     fp_n_grammar_rules = 0,
     fp_i_start_rule = 0,
     fp_grammar_penalty = 100,
     fp_vad = False,
     fp_vad_model_path = None,
     fp_vad_params = whisper_vad_default_params\<rparr>"

record whisper_token_data =
  td_id :: int
  td_tid :: int
  td_p :: real
  td_plog :: real
  td_pt :: real
  td_ptsum :: real
  td_t0 :: int
  td_t1 :: int
  td_t_dtw :: int
  td_vlen :: real

record whisper_timings =
  tm_sample_ms :: real
  tm_encode_ms :: real
  tm_decode_ms :: real
  tm_batchd_ms :: real
  tm_prompt_ms :: real

end
