(* ===== verification/VadSegments.thy ===== *)
theory VadSegments
  imports WhisperParams
begin

text \<open>
  Voice activity detection of Whisper/src/whisper.cpp: the windows fed to the Silero network, and the
  post-processing that turns its probabilities into speech segments. The network is the parameter
  \<open>compute\<close>; a C \<open>int\<close> is \<open>int\<close> (the properties bound every stored value by the length of the audio),
  division truncates, floats are reals. \<open>continue\<close> is the end of the branch.
\<close>

section \<open>C arithmetic\<close>

definition tdiv :: "int \<Rightarrow> int \<Rightarrow> int" where
  "tdiv a b = (if (a \<ge> 0) = (b \<ge> 0) then \<bar>a\<bar> div \<bar>b\<bar> else - (\<bar>a\<bar> div \<bar>b\<bar>))"

definition trunc_real :: "real \<Rightarrow> int" where
  "trunc_real x = (if x \<ge> 0 then \<lfloor>x\<rfloor> else \<lceil>x\<rceil>)"

definition INT_MAX :: int where
  "INT_MAX = 2147483647"

definition WHISPER_SAMPLE_RATE :: int where
  "WHISPER_SAMPLE_RATE = 16000"

definition cs_to_samples :: "int \<Rightarrow> int" where
  "cs_to_samples cs = trunc_real (real_of_int cs / 100 * real_of_int WHISPER_SAMPLE_RATE + 1 / 2)"

definition samples_to_cs :: "int \<Rightarrow> int" where
  "samples_to_cs samples = trunc_real (real_of_int samples / real_of_int WHISPER_SAMPLE_RATE * 100 + 1 / 2)"

section \<open>Speech probabilities\<close>

record 's whisper_vad_context =
  vad_n_window :: int
  vad_probs :: "real list"
  vad_lstm :: 's

text \<open>The window of one chunk, zero-padded at the end of the audio.\<close>

definition vad_window :: "int \<Rightarrow> real list \<Rightarrow> int \<Rightarrow> real list" where
  "vad_window n_window samples i =
     (let n_samples = int (length samples);
          idx_start = i * n_window;
          idx_end = min (idx_start + n_window) n_samples;
          chunk_len = idx_end - idx_start;
          chunk = take (nat chunk_len) (drop (nat idx_start) samples)
      in if chunk_len < n_window then chunk @ replicate (nat (n_window - chunk_len)) 0 else chunk)"

definition vad_n_chunks :: "int \<Rightarrow> int \<Rightarrow> int" where
  "vad_n_chunks n_window n_samples =
     tdiv n_samples n_window + (if n_samples mod n_window \<noteq> 0 then 1 else 0)"

text \<open>\<open>compute\<close> runs the network on a window: the new recurrent state and the probability, or \<open>None\<close>
  when the graph cannot be computed, which ends the loop.\<close>

fun vad_chunks :: "('s \<Rightarrow> real list \<Rightarrow> ('s \<times> real) option) \<Rightarrow> int \<Rightarrow> real list \<Rightarrow> int list
    \<Rightarrow> 's \<times> real list \<Rightarrow> 's \<times> real list" where
  "vad_chunks compute n_window samples [] st = st"
| "vad_chunks compute n_window samples (i # is) (lstm, probs) =
     (case compute lstm (vad_window n_window samples i) of
        None \<Rightarrow> (lstm, probs)
      | Some (lstm', p) \<Rightarrow> vad_chunks compute n_window samples is (lstm', probs[nat i := p]))"

definition whisper_vad_detect_speech_no_reset ::
  "('s \<Rightarrow> real list \<Rightarrow> ('s \<times> real) option) \<Rightarrow> bool \<Rightarrow> 's whisper_vad_context \<Rightarrow> real list
    \<Rightarrow> bool \<times> 's whisper_vad_context" where
  "whisper_vad_detect_speech_no_reset compute alloc_ok vctx samples =
     (let n_chunks = vad_n_chunks (vad_n_window vctx) (int (length samples));
          probs = resize (nat n_chunks) 0 (vad_probs vctx)
      in if \<not> alloc_ok then (False, vctx\<lparr>vad_probs := probs\<rparr>)
         else let (lstm, probs) = vad_chunks compute (vad_n_window vctx) samples
                    (map int [0..<nat n_chunks]) (vad_lstm vctx, probs)
              in (True, vctx\<lparr>vad_lstm := lstm, vad_probs := probs\<rparr>))"

text \<open>\<open>zero\<close> is the cleared recurrent state.\<close>

definition whisper_vad_reset_state :: "'s \<Rightarrow> 's whisper_vad_context \<Rightarrow> 's whisper_vad_context" where
  "whisper_vad_reset_state zero vctx = vctx\<lparr>vad_lstm := zero\<rparr>"

definition whisper_vad_detect_speech ::
  "('s \<Rightarrow> real list \<Rightarrow> ('s \<times> real) option) \<Rightarrow> bool \<Rightarrow> 's \<Rightarrow> 's whisper_vad_context \<Rightarrow> real list
    \<Rightarrow> bool \<times> 's whisper_vad_context" where
  "whisper_vad_detect_speech compute alloc_ok zero vctx samples =
     whisper_vad_detect_speech_no_reset compute alloc_ok (whisper_vad_reset_state zero vctx) samples"

section \<open>Segments from probabilities\<close>

record vad_consts =
  vc_threshold :: real
  vc_neg_threshold :: real
  vc_n_window :: int
  vc_min_silence_samples :: int
  vc_min_speech_samples :: int
  vc_speech_pad_samples :: int
  vc_max_speech_samples :: int
  vc_min_silence_at_max :: int

definition max_speech_samples :: "real \<Rightarrow> int \<Rightarrow> int \<Rightarrow> int" where
  "max_speech_samples max_speech_duration_s n_window speech_pad_samples =
     (if max_speech_duration_s > 100000 then tdiv INT_MAX 2
      else
        let temp = WHISPER_SAMPLE_RATE * trunc_real max_speech_duration_s - n_window - 2 * speech_pad_samples;
            m = (if temp > INT_MAX then tdiv INT_MAX 2 else temp)
        in if m < 0 then tdiv INT_MAX 2 else m)"

definition neg_threshold_of :: "real \<Rightarrow> real" where
  "neg_threshold_of threshold =
     (let neg_threshold = threshold - 0.15 in if neg_threshold < 0.01 then 0.01 else neg_threshold)"

definition vad_consts_of :: "whisper_vad_params \<Rightarrow> int \<Rightarrow> vad_consts" where
  "vad_consts_of params n_window =
     (let speech_pad_samples = tdiv (WHISPER_SAMPLE_RATE * vp_speech_pad_ms params) 1000
      in \<lparr>vc_threshold = vp_threshold params,
          vc_neg_threshold = neg_threshold_of (vp_threshold params),
          vc_n_window = n_window,
          vc_min_silence_samples = tdiv (WHISPER_SAMPLE_RATE * vp_min_silence_duration_ms params) 1000,
          vc_min_speech_samples = tdiv (WHISPER_SAMPLE_RATE * vp_min_speech_duration_ms params) 1000,
          vc_speech_pad_samples = speech_pad_samples,
          vc_max_speech_samples = max_speech_samples (vp_max_speech_duration_s params) n_window speech_pad_samples,
          vc_min_silence_at_max = tdiv (WHISPER_SAMPLE_RATE * 98) 1000\<rparr>)"

record vad_scan =
  sc_speeches :: "(int \<times> int) list"
  sc_is_speech :: bool
  sc_temp_end :: int
  sc_prev_end :: int
  sc_next_start :: int
  sc_start :: int
  sc_has_speech :: bool

definition scan_start :: vad_scan where
  "scan_start = \<lparr>sc_speeches = [], sc_is_speech = False, sc_temp_end = 0, sc_prev_end = 0,
     sc_next_start = 0, sc_start = 0, sc_has_speech = False\<rparr>"

text \<open>Back to speech: the potential end is forgotten.\<close>

definition scan_resume :: "vad_consts \<Rightarrow> real \<Rightarrow> int \<Rightarrow> vad_scan \<Rightarrow> vad_scan" where
  "scan_resume c curr_prob curr_sample st =
     (if curr_prob \<ge> vc_threshold c \<and> sc_temp_end st \<noteq> 0
      then let st = st\<lparr>sc_temp_end := 0\<rparr>
           in if sc_next_start st < sc_prev_end st then st\<lparr>sc_next_start := curr_sample\<rparr> else st
      else st)"

text \<open>The maximum duration; the flag says that the iteration goes on.\<close>

definition scan_max :: "vad_consts \<Rightarrow> int \<Rightarrow> vad_scan \<Rightarrow> bool \<times> vad_scan" where
  "scan_max c curr_sample st =
     (if sc_is_speech st \<and> curr_sample - sc_start st > vc_max_speech_samples c
      then if sc_prev_end st \<noteq> 0
           then let st = st\<lparr>sc_speeches := sc_speeches st @ [(sc_start st, sc_prev_end st)], sc_has_speech := True\<rparr>;
                    st = (if sc_next_start st < sc_prev_end st
                          then st\<lparr>sc_is_speech := False, sc_has_speech := False\<rparr>
                          else st\<lparr>sc_start := sc_next_start st\<rparr>)
                in (True, st\<lparr>sc_prev_end := 0, sc_next_start := 0, sc_temp_end := 0\<rparr>)
           else (False, st\<lparr>sc_speeches := sc_speeches st @ [(sc_start st, curr_sample)],
                          sc_prev_end := 0, sc_next_start := 0, sc_temp_end := 0,
                          sc_is_speech := False, sc_has_speech := False\<rparr>)
      else (True, st))"

definition scan_silence :: "vad_consts \<Rightarrow> real \<Rightarrow> int \<Rightarrow> vad_scan \<Rightarrow> vad_scan" where
  "scan_silence c curr_prob curr_sample st =
     (if curr_prob < vc_neg_threshold c \<and> sc_is_speech st
      then let st = (if sc_temp_end st = 0 then st\<lparr>sc_temp_end := curr_sample\<rparr> else st);
               st = (if curr_sample - sc_temp_end st > vc_min_silence_at_max c
                     then st\<lparr>sc_prev_end := sc_temp_end st\<rparr> else st)
           in if curr_sample - sc_temp_end st < vc_min_silence_samples c then st
              else let st = (if sc_temp_end st - sc_start st > vc_min_speech_samples c
                             then st\<lparr>sc_speeches := sc_speeches st @ [(sc_start st, sc_temp_end st)]\<rparr> else st)
                   in st\<lparr>sc_prev_end := 0, sc_next_start := 0, sc_temp_end := 0,
                        sc_is_speech := False, sc_has_speech := False\<rparr>
      else st)"

definition scan_step :: "vad_consts \<Rightarrow> real list \<Rightarrow> nat \<Rightarrow> vad_scan \<Rightarrow> vad_scan" where
  "scan_step c probs i st =
     (let curr_prob = probs ! i;
          curr_sample = vc_n_window c * int i;
          st = scan_resume c curr_prob curr_sample st
      in if curr_prob \<ge> vc_threshold c \<and> \<not> sc_is_speech st
         then st\<lparr>sc_is_speech := True, sc_start := curr_sample, sc_has_speech := True\<rparr>
         else let (go_on, st) = scan_max c curr_sample st
              in if go_on then scan_silence c curr_prob curr_sample st else st)"

definition scan_finish :: "vad_consts \<Rightarrow> int \<Rightarrow> vad_scan \<Rightarrow> (int \<times> int) list" where
  "scan_finish c audio_length_samples st =
     (if sc_has_speech st \<and> audio_length_samples - sc_start st > vc_min_speech_samples c
      then sc_speeches st @ [(sc_start st, audio_length_samples)] else sc_speeches st)"

definition raw_speeches :: "vad_consts \<Rightarrow> real list \<Rightarrow> (int \<times> int) list" where
  "raw_speeches c probs =
     scan_finish c (int (length probs) * vc_n_window c) (for_range 0 (length probs) (scan_step c probs) scan_start)"

definition erase :: "nat \<Rightarrow> 'a list \<Rightarrow> 'a list" where
  "erase i xs = take i xs @ drop (Suc i) xs"

definition max_merge_gap_samples :: int where
  "max_merge_gap_samples = tdiv (WHISPER_SAMPLE_RATE * 200) 1000"

function merge_loop :: "nat \<Rightarrow> (int \<times> int) list \<Rightarrow> (int \<times> int) list" where
  "merge_loop i speeches =
     (if i + 1 < length speeches
      then if fst (speeches ! (i + 1)) - snd (speeches ! i) < max_merge_gap_samples
           then merge_loop i (erase (i + 1) (speeches[i := (fst (speeches ! i), snd (speeches ! (i + 1)))]))
           else merge_loop (i + 1) speeches
      else speeches)"
  by pat_completeness auto
termination
  by (relation "measure (\<lambda>(i, speeches). 2 * length speeches - i)") (auto simp: erase_def)

function remove_short :: "int \<Rightarrow> nat \<Rightarrow> (int \<times> int) list \<Rightarrow> (int \<times> int) list" where
  "remove_short min_speech_samples i speeches =
     (if i < length speeches
      then if snd (speeches ! i) - fst (speeches ! i) < min_speech_samples
           then remove_short min_speech_samples i (erase i speeches)
           else remove_short min_speech_samples (i + 1) speeches
      else speeches)"
  by pat_completeness auto
termination
  by (relation "measure (\<lambda>(m, i, speeches). 2 * length speeches - i)") (auto simp: erase_def)

declare merge_loop.simps [simp del] remove_short.simps [simp del]

definition pad_end :: "int \<Rightarrow> int \<Rightarrow> int \<Rightarrow> int" where
  "pad_end pad audio_length_samples e = (if e + pad < audio_length_samples then e + pad else audio_length_samples)"

definition pad_start :: "int \<Rightarrow> int \<Rightarrow> int" where
  "pad_start pad s = (if s > pad then s - pad else 0)"

definition pad_step :: "int \<Rightarrow> int \<Rightarrow> nat \<Rightarrow> (int \<times> int) list \<times> (int \<times> int) list
    \<Rightarrow> (int \<times> int) list \<times> (int \<times> int) list" where
  "pad_step pad audio_length_samples i = (\<lambda>(speeches, segments).
     let speeches = (if i = 0 then speeches[i := (pad_start pad (fst (speeches ! i)), snd (speeches ! i))] else speeches);
         speeches =
           (if i + 1 < length speeches
            then let silence_duration = fst (speeches ! (i + 1)) - snd (speeches ! i)
                 in if silence_duration < 2 * pad
                    then let half = tdiv silence_duration 2 in
                         speeches[i := (fst (speeches ! i), snd (speeches ! i) + half),
                                  i + 1 := (pad_start half (fst (speeches ! (i + 1))), snd (speeches ! (i + 1)))]
                    else speeches[i := (fst (speeches ! i), pad_end pad audio_length_samples (snd (speeches ! i))),
                                  i + 1 := (pad_start pad (fst (speeches ! (i + 1))), snd (speeches ! (i + 1)))]
            else speeches[i := (fst (speeches ! i), pad_end pad audio_length_samples (snd (speeches ! i)))])
     in (speeches, segments[i := (samples_to_cs (fst (speeches ! i)), samples_to_cs (snd (speeches ! i)))]))"

definition pad_speeches :: "int \<Rightarrow> int \<Rightarrow> (int \<times> int) list \<Rightarrow> (int \<times> int) list \<times> (int \<times> int) list" where
  "pad_speeches pad audio_length_samples speeches =
     for_range 0 (length speeches) (pad_step pad audio_length_samples)
       (speeches, replicate (length speeches) (0, 0))"

definition kept_speeches :: "vad_consts \<Rightarrow> real list \<Rightarrow> (int \<times> int) list" where
  "kept_speeches c probs =
     (let speeches = raw_speeches c probs;
          speeches = (if length speeches > 1 then merge_loop 0 speeches else speeches)
      in remove_short (vc_min_speech_samples c) 0 speeches)"

text \<open>The segments, in centiseconds; running out of memory is not modelled.\<close>

definition whisper_vad_segments_from_probs :: "'s whisper_vad_context \<Rightarrow> whisper_vad_params \<Rightarrow> (int \<times> int) list" where
  "whisper_vad_segments_from_probs vctx params =
     (let c = vad_consts_of params (vad_n_window vctx)
      in snd (pad_speeches (vc_speech_pad_samples c) (int (length (vad_probs vctx)) * vad_n_window vctx)
           (kept_speeches c (vad_probs vctx))))"

definition whisper_vad_segments_from_samples ::
  "('s \<Rightarrow> real list \<Rightarrow> ('s \<times> real) option) \<Rightarrow> bool \<Rightarrow> 's \<Rightarrow> 's whisper_vad_context \<Rightarrow> whisper_vad_params
    \<Rightarrow> real list \<Rightarrow> (int \<times> int) list option \<times> 's whisper_vad_context" where
  "whisper_vad_segments_from_samples compute alloc_ok zero vctx params samples =
     (let (ok, vctx) = whisper_vad_detect_speech compute alloc_ok zero vctx samples
      in (if \<not> ok then None else Some (whisper_vad_segments_from_probs vctx params), vctx))"

section \<open>Ordered segments\<close>

fun ordered :: "'a::linorder \<Rightarrow> ('a \<times> 'a) list \<Rightarrow> 'a \<Rightarrow> bool" where
  "ordered lo [] hi \<longleftrightarrow> lo \<le> hi"
| "ordered lo ((s, e) # xs) hi \<longleftrightarrow> lo \<le> s \<and> s \<le> e \<and> ordered e xs hi"

lemma ordered_le: "ordered lo xs hi \<Longrightarrow> lo \<le> hi"
  by (induction lo xs hi rule: ordered.induct) auto

lemma ordered_mono: "ordered lo xs hi \<Longrightarrow> lo' \<le> lo \<Longrightarrow> hi \<le> hi' \<Longrightarrow> ordered lo' xs hi'"
  by (induction lo xs hi arbitrary: lo' rule: ordered.induct) auto

lemma ordered_append: "ordered lo (xs @ ys) hi \<longleftrightarrow> (\<exists>m. ordered lo xs m \<and> ordered m ys hi)"
proof (induction xs arbitrary: lo)
  case Nil
  show ?case using ordered_mono [of _ ys hi] by auto
qed auto

lemma ordered_snoc: "ordered lo (xs @ [(s, e)]) hi \<longleftrightarrow> ordered lo xs s \<and> s \<le> e \<and> e \<le> hi"
  using ordered_mono [of lo xs] by (auto simp: ordered_append)

lemma ordered_filter: "ordered lo xs hi \<Longrightarrow> ordered lo (filter P xs) hi"
  by (induction lo xs hi rule: ordered.induct) (auto intro: ordered_mono)

lemma ordered_member: "ordered lo xs hi \<Longrightarrow> (s, e) \<in> set xs \<Longrightarrow> lo \<le> s \<and> s \<le> e \<and> e \<le> hi"
  by (induction lo xs hi rule: ordered.induct) (auto dest: ordered_le)

lemma tdiv_2: "0 \<le> x \<Longrightarrow> tdiv x 2 = x div 2"
  by (simp add: tdiv_def)

section \<open>The scan\<close>

definition scan_inv :: "int \<Rightarrow> vad_scan \<Rightarrow> bool" where
  "scan_inv position st \<longleftrightarrow>
     0 \<le> position
   \<and> ordered 0 (sc_speeches st) (if sc_is_speech st then sc_start st else position)
   \<and> sc_has_speech st = sc_is_speech st
   \<and> (sc_is_speech st \<longrightarrow> sc_start st \<le> position)
   \<and> (\<not> sc_is_speech st \<longrightarrow> sc_temp_end st = 0 \<and> sc_prev_end st = 0 \<and> sc_next_start st = 0)
   \<and> (sc_temp_end st \<noteq> 0 \<longrightarrow> sc_start st \<le> sc_temp_end st \<and> sc_temp_end st \<le> position)
   \<and> (sc_prev_end st \<noteq> 0 \<longrightarrow> sc_start st \<le> sc_prev_end st \<and> sc_prev_end st \<le> position)
   \<and> sc_next_start st \<le> position"

lemma scan_inv_later: "scan_inv p st \<Longrightarrow> p \<le> q \<Longrightarrow> scan_inv q st"
  unfolding scan_inv_def by (auto intro: ordered_mono)

lemma scan_inv_resume: "scan_inv p st \<Longrightarrow> scan_inv p (scan_resume c prob p st)"
  unfolding scan_inv_def scan_resume_def by (auto simp: Let_def)

lemma scan_inv_max:
  assumes "scan_inv p st" shows "scan_inv p (snd (scan_max c p st))"
proof (cases "sc_is_speech st \<and> p - sc_start st > vc_max_speech_samples c \<and> sc_prev_end st \<noteq> 0")
  case True
  then have "ordered 0 (sc_speeches st @ [(sc_start st, sc_prev_end st)]) (sc_prev_end st)" "sc_prev_end st \<le> p"
    using assms by (auto simp: scan_inv_def ordered_snoc)
  then have "ordered 0 (sc_speeches st @ [(sc_start st, sc_prev_end st)]) p"
    "sc_prev_end st \<le> sc_next_start st \<Longrightarrow> ordered 0 (sc_speeches st @ [(sc_start st, sc_prev_end st)]) (sc_next_start st)"
    using ordered_mono by blast+
  then show ?thesis using assms True by (simp add: scan_max_def scan_inv_def Let_def)
next
  case False
  then show ?thesis using assms by (auto simp: scan_max_def scan_inv_def ordered_snoc)
qed

lemma scan_inv_silence:
  assumes "scan_inv p st" shows "scan_inv p (scan_silence c prob p st)"
proof (cases "prob < vc_neg_threshold c \<and> sc_is_speech st")
  case True
  let ?te = "if sc_temp_end st = 0 then p else sc_temp_end st"
  have te: "sc_start st \<le> ?te" "?te \<le> p" using assms True by (auto simp: scan_inv_def)
  then have "ordered 0 (sc_speeches st @ [(sc_start st, ?te)]) p"
    using assms True by (simp add: scan_inv_def ordered_snoc)
  moreover have "ordered 0 (sc_speeches st) p"
    using assms True ordered_mono [of 0 "sc_speeches st" "sc_start st" 0 p] by (simp add: scan_inv_def)
  ultimately show ?thesis
    using assms True te
    by (cases "sc_temp_end st = 0") (simp_all add: scan_silence_def scan_inv_def Let_def)
qed (use assms in \<open>auto simp: scan_silence_def\<close>)

lemma scan_inv_step:
  assumes "scan_inv (vc_n_window c * int i) st"
  shows "scan_inv (vc_n_window c * int i) (scan_step c probs i st)"
proof -
  let ?p = "vc_n_window c * int i"
  let ?st = "scan_resume c (probs ! i) ?p st"
  have inv: "scan_inv ?p ?st" using assms by (rule scan_inv_resume)
  have "scan_inv ?p (?st\<lparr>sc_is_speech := True, sc_start := ?p, sc_has_speech := True\<rparr>)" if "\<not> sc_is_speech ?st"
    using inv that by (auto simp: scan_inv_def)
  then show ?thesis
    using scan_inv_max [OF inv, of c] scan_inv_silence
    by (auto simp: scan_step_def Let_def split: prod.split)
qed

lemma scan_inv_all:
  assumes "0 \<le> vc_n_window c"
  shows "scan_inv (vc_n_window c * int n) (for_range 0 n (scan_step c probs) scan_start)"
proof (induction n)
  case 0
  show ?case by (simp add: scan_inv_def scan_start_def)
next
  case (Suc n)
  then have "scan_inv (vc_n_window c * int n) (for_range 0 (Suc n) (scan_step c probs) scan_start)"
    using scan_inv_step by simp
  then show ?case by (rule scan_inv_later) (use assms in \<open>simp add: algebra_simps\<close>)
qed

lemma raw_speeches_ordered:
  assumes "0 \<le> vc_n_window c"
  shows "ordered 0 (raw_speeches c probs) (int (length probs) * vc_n_window c)"
proof -
  let ?st = "for_range 0 (length probs) (scan_step c probs) scan_start"
  have "scan_inv (int (length probs) * vc_n_window c) ?st"
    using scan_inv_all [OF assms, of "length probs" probs] by (simp add: mult.commute)
  then show ?thesis
    unfolding raw_speeches_def scan_finish_def
    by (auto simp: scan_inv_def ordered_snoc intro: ordered_mono split: if_splits)
qed

section \<open>Merging and dropping\<close>

lemma merge_at:
  assumes "speeches = pre @ (s1, e1) # (s2, e2) # post" and "i = length pre"
  shows "erase (i + 1) (speeches[i := (fst (speeches ! i), snd (speeches ! (i + 1)))]) = pre @ (s1, e2) # post"
  using assms by (simp add: erase_def nth_append)

lemma list_split_at2:
  assumes "i + 1 < length xs"
  obtains pre x y post where "xs = pre @ x # y # post" and "i = length pre"
proof
  show "xs = take i xs @ xs ! i # xs ! Suc i # drop (Suc (Suc i)) xs" and "i = length (take i xs)"
    using assms by (simp_all add: Cons_nth_drop_Suc)
qed

lemma merge_loop_ordered: "ordered lo xs hi \<Longrightarrow> ordered lo (merge_loop i xs) hi"
proof (induction i xs rule: merge_loop.induct)
  case (1 i xs)
  show ?case
  proof (cases "i + 1 < length xs")
    case True
    then obtain pre s1 e1 s2 e2 post where xs: "xs = pre @ (s1, e1) # (s2, e2) # post" and i: "i = length pre"
      by (metis list_split_at2 surj_pair)
    have "ordered lo (pre @ (s1, e2) # post) hi"
      using 1(3) by (auto simp: xs ordered_append)
    then show ?thesis
      using 1 True merge_at [OF xs i] by (simp add: merge_loop.simps [of i xs])
  qed (use 1 in \<open>simp add: merge_loop.simps [of i xs]\<close>)
qed

lemma merge_loop_covers:
  assumes "ordered lo xs hi" and "(s, e) \<in> set xs"
  shows "\<exists>(s', e') \<in> set (merge_loop i xs). s' \<le> s \<and> e \<le> e'"
  using assms
proof (induction i xs arbitrary: s e rule: merge_loop.induct)
  case (1 i xs)
  show ?case
  proof (cases "i + 1 < length xs \<and> fst (xs ! (i + 1)) - snd (xs ! i) < max_merge_gap_samples")
    case True
    then obtain pre s1 e1 s2 e2 post where xs: "xs = pre @ (s1, e1) # (s2, e2) # post" and i: "i = length pre"
      by (metis list_split_at2 surj_pair)
    let ?ys = "pre @ (s1, e2) # post"
    have ord: "ordered lo ?ys hi" using 1(3) by (auto simp: xs ordered_append)
    have se: "s1 \<le> e1" "e1 \<le> s2" "s2 \<le> e2" using 1(3) by (auto simp: xs ordered_append)
    have eq: "merge_loop i xs = merge_loop i ?ys"
      using True merge_at [OF xs i] by (simp add: merge_loop.simps [of i xs])
    have "\<exists>(s3, e3) \<in> set ?ys. s3 \<le> s \<and> e \<le> e3"
    proof (cases "(s, e) \<in> {(s1, e1), (s2, e2)}")
      case True
      then have "s1 \<le> s \<and> e \<le> e2" using se by auto
      then show ?thesis by (intro bexI [of _ "(s1, e2)"]) auto
    next
      case False
      then have "(s, e) \<in> set pre \<union> set post" using 1(4) by (auto simp: xs)
      then show ?thesis by (intro bexI [of _ "(s, e)"]) auto
    qed
    then obtain s3 e3 where cover: "(s3, e3) \<in> set ?ys" "s3 \<le> s" "e \<le> e3" by auto
    have "\<exists>(s', e') \<in> set (merge_loop i ?ys). s' \<le> s3 \<and> e3 \<le> e'"
      using 1(1) [of s3 e3] True merge_at [OF xs i] ord cover(1) by simp
    then show ?thesis unfolding eq using cover by (auto intro: order_trans)
  next
    case False
    then show ?thesis using 1 by (auto simp: merge_loop.simps [of i xs])
  qed
qed

lemma remove_short_eq:
  "i \<le> length xs \<Longrightarrow> remove_short m i xs = take i xs @ filter (\<lambda>(s, e). m \<le> e - s) (drop i xs)"
proof (induction m i xs rule: remove_short.induct)
  case (1 m i xs)
  show ?case
  proof (cases "i < length xs")
    case True
    then have drop: "drop i xs = xs ! i # drop (Suc i) xs" by (simp add: Cons_nth_drop_Suc)
    show ?thesis
    proof (cases "snd (xs ! i) - fst (xs ! i) < m")
      case short: True
      then show ?thesis
        using 1(1) True drop by (simp add: remove_short.simps [of m i xs] erase_def case_prod_unfold)
    next
      case False
      then show ?thesis
        using 1(2) True drop by (simp add: remove_short.simps [of m i xs] case_prod_unfold take_Suc_conv_app_nth)
    qed
  next
    case False
    then have "i = length xs" using 1(3) by simp
    then show ?thesis by (simp add: remove_short.simps [of m "length xs" xs])
  qed
qed

lemma kept_speeches_ordered:
  assumes "0 \<le> vc_n_window c"
  shows "ordered 0 (kept_speeches c probs) (int (length probs) * vc_n_window c)"
  using raw_speeches_ordered [OF assms, of probs] merge_loop_ordered ordered_filter [where 'a = int]
  by (simp add: kept_speeches_def Let_def remove_short_eq)


section \<open>Padding\<close>

fun padded :: "int \<Rightarrow> int \<Rightarrow> (int \<times> int) list \<Rightarrow> (int \<times> int) list" where
  "padded pad n [] = []"
| "padded pad n [(s, e)] = [(s, pad_end pad n e)]"
| "padded pad n ((s, e) # (s', e') # xs) =
     (if s' - e < 2 * pad
      then (s, e + tdiv (s' - e) 2) # padded pad n ((pad_start (tdiv (s' - e) 2) s', e') # xs)
      else (s, pad_end pad n e) # padded pad n ((pad_start pad s', e') # xs))"

fun pad_front :: "int \<Rightarrow> (int \<times> int) list \<Rightarrow> (int \<times> int) list" where
  "pad_front pad [] = []"
| "pad_front pad ((s, e) # xs) = (pad_start pad s, e) # xs"

abbreviation segment_cs :: "int \<times> int \<Rightarrow> int \<times> int" where
  "segment_cs \<equiv> \<lambda>(s, e). (samples_to_cs s, samples_to_cs e)"

lemma pad_step_last:
  "length pre = k \<Longrightarrow> 0 < k \<Longrightarrow>
   pad_step pad n k (pre @ [(s, e)], segs)
     = (pre @ [(s, pad_end pad n e)], segs[k := segment_cs (s, pad_end pad n e)])"
  by (auto simp: pad_step_def Let_def nth_append list_update_append)

lemma pad_step_inner:
  "length pre = k \<Longrightarrow> 0 < k \<Longrightarrow>
   pad_step pad n k (pre @ (s, e) # (s', e') # xs, segs)
     = (if s' - e < 2 * pad
        then (pre @ (s, e + tdiv (s' - e) 2) # (pad_start (tdiv (s' - e) 2) s', e') # xs,
              segs[k := segment_cs (s, e + tdiv (s' - e) 2)])
        else (pre @ (s, pad_end pad n e) # (pad_start pad s', e') # xs,
              segs[k := segment_cs (s, pad_end pad n e)]))"
  by (auto simp: pad_step_def Let_def nth_append list_update_append)

lemma pad_loop:
  "length pre = k \<Longrightarrow> 0 < k \<Longrightarrow> length segs = k + length xs \<Longrightarrow>
   for_range k (k + length xs) (pad_step pad n) (pre @ xs, segs)
     = (pre @ padded pad n xs, take k segs @ map segment_cs (padded pad n xs))"
proof (induction pad n xs arbitrary: pre k segs rule: padded.induct)
  case (1 pad n)
  then show ?case by simp
next
  case (2 pad n s e)
  then show ?case
    by (simp add: for_range_front pad_step_last upd_conv_take_nth_drop)
next
  case (3 pad n s e s' e' xs)
  let ?y = "if s' - e < 2 * pad then (s, e + tdiv (s' - e) 2) else (s, pad_end pad n e)"
  let ?z = "if s' - e < 2 * pad then (pad_start (tdiv (s' - e) 2) s', e') else (pad_start pad s', e')"
  have step: "pad_step pad n k (pre @ (s, e) # (s', e') # xs, segs) = ((pre @ [?y]) @ ?z # xs, segs[k := segment_cs ?y])"
    using 3 by (simp add: pad_step_inner)
  have "for_range (Suc k) (Suc k + length (?z # xs)) (pad_step pad n) ((pre @ [?y]) @ ?z # xs, segs[k := segment_cs ?y])
      = ((pre @ [?y]) @ padded pad n (?z # xs),
         take (Suc k) (segs[k := segment_cs ?y]) @ map segment_cs (padded pad n (?z # xs)))"
    using 3(1) [of "pre @ [?y]" "Suc k" "segs[k := segment_cs ?y]"]
      3(2) [of "pre @ [?y]" "Suc k" "segs[k := segment_cs ?y]"] 3(3-5) by (auto split: if_splits)
  then show ?case
    using 3(3-5) by (simp add: for_range_front step take_Suc_conv_app_nth del: pad_step_inner)
qed

lemma padded_cases:
  obtains (empty) "xs = []" | (single) s e where "xs = [(s, e)]" | (more) s e s' e' ys where "xs = (s :: 'a, e :: 'b) # (s', e') # ys"
  by (metis list.exhaust surj_pair)

lemma pad_speeches_eq:
  "pad_speeches pad n xs = (padded pad n (pad_front pad xs), map segment_cs (padded pad n (pad_front pad xs)))"
proof (cases xs rule: padded_cases)
  case empty
  then show ?thesis by (simp add: pad_speeches_def)
next
  case (single s e)
  then show ?thesis by (simp add: pad_speeches_def pad_step_def Let_def)
next
  case (more s e s' e' ys)
  let ?s = "pad_start pad s"
  let ?y = "if s' - e < 2 * pad then (?s, e + tdiv (s' - e) 2) else (?s, pad_end pad n e)"
  let ?z = "if s' - e < 2 * pad then (pad_start (tdiv (s' - e) 2) s', e') else (pad_start pad s', e')"
  have "pad_step pad n 0 (xs, replicate (length xs) (0, 0)) = ([?y] @ ?z # ys, (replicate (length xs) (0, 0))[0 := segment_cs ?y])"
    by (simp add: more pad_step_def Let_def)
  then have "pad_speeches pad n xs
      = for_range 1 (1 + length (?z # ys)) (pad_step pad n) ([?y] @ ?z # ys, (replicate (length xs) (0, 0))[0 := segment_cs ?y])"
    unfolding pad_speeches_def by (subst for_range_front) (simp_all add: more)
  also have "\<dots> = ([?y] @ padded pad n (?z # ys), take 1 ((replicate (length xs) (0, 0))[0 := segment_cs ?y]) @ map segment_cs (padded pad n (?z # ys)))"
    by (rule pad_loop) (simp_all add: more)
  finally show ?thesis by (simp add: more)
qed

lemma padded_ordered:
  assumes "0 \<le> pad" and "ordered lo xs n" and "0 \<le> lo"
  shows "ordered lo (padded pad n xs) n"
  using assms
proof (induction pad n xs arbitrary: lo rule: padded.induct)
  case (3 pad n s e s' e' xs)
  then have base: "lo \<le> s" "s \<le> e" "e \<le> s'" "s' \<le> e'" "ordered e' xs n" by auto
  then have n: "e' \<le> n" using ordered_le by blast
  show ?case
  proof (cases "s' - e < 2 * pad")
    case True
    have half: "e + (s' - e) div 2 \<le> pad_start ((s' - e) div 2) s'" "pad_start ((s' - e) div 2) s' \<le> s'"
      using base 3(5) 3(3) by (auto simp: pad_start_def)
    then have "ordered (e + (s' - e) div 2) ((pad_start ((s' - e) div 2) s', e') # xs) n"
      using base by auto
    then show ?thesis using 3(1) True base 3 by (auto simp: tdiv_2)
  next
    case False
    have half: "e + pad \<le> pad_start pad s'" "pad_start pad s' \<le> s'"
      using base 3 False by (auto simp: pad_start_def)
    then have e: "pad_end pad n e = e + pad" using base n 3 by (auto simp: pad_end_def)
    have "ordered (e + pad) ((pad_start pad s', e') # xs) n"
      using base half by auto
    then show ?thesis using 3(2) False base 3 by (auto simp: e)
  qed
qed (auto simp: pad_end_def)

definition grows :: "int \<times> int \<Rightarrow> int \<times> int \<Rightarrow> bool" where
  "grows x y \<longleftrightarrow> fst y \<le> fst x \<and> snd x \<le> snd y"

lemma grows_pair [simp]: "grows (s, e) (s', e') \<longleftrightarrow> s' \<le> s \<and> e \<le> e'"
  by (simp add: grows_def)

lemma grows_refl: "grows x x" and grows_trans: "grows x y \<Longrightarrow> grows y z \<Longrightarrow> grows x z"
  by (auto simp: grows_def)

lemma padded_grows:
  assumes "0 \<le> pad" and "ordered lo xs n" and "0 \<le> lo"
  shows "list_all2 grows xs (padded pad n xs)"
  using assms
proof (induction pad n xs arbitrary: lo rule: padded.induct)
  case (3 pad n s e s' e' xs)
  then have base: "lo \<le> s" "s \<le> e" "e \<le> s'" "s' \<le> e'" "ordered e' xs n" by auto
  then have n: "e' \<le> n" using ordered_le by blast
  have lift: "list_all2 grows ((z, e') # xs) ys \<Longrightarrow> z \<le> s' \<Longrightarrow> list_all2 grows ((s', e') # xs) ys" for z ys
    by (cases ys) auto
  show ?case
  proof (cases "s' - e < 2 * pad")
    case True
    have "0 \<le> (s' - e) div 2" "(s' - e) div 2 \<le> s'" using base 3(5) by auto
    then have z: "pad_start ((s' - e) div 2) s' \<le> s'" "0 \<le> pad_start ((s' - e) div 2) s'"
      by (auto simp: pad_start_def)
    then have "ordered 0 ((pad_start ((s' - e) div 2) s', e') # xs) n" using base by auto
    then show ?thesis using lift z 3(1) True base 3 by (auto simp: tdiv_2)
  next
    case False
    have z: "pad_start pad s' \<le> s'" "0 \<le> pad_start pad s'" using base 3 by (auto simp: pad_start_def)
    then have "ordered 0 ((pad_start pad s', e') # xs) n" using base by auto
    then show ?thesis using lift z 3(2) False base n 3 by (auto simp: pad_end_def)
  qed
qed (auto simp: pad_end_def)

lemma pad_front_grows: "0 \<le> pad \<Longrightarrow> ordered 0 xs n \<Longrightarrow> list_all2 grows xs (pad_front pad xs)"
  by (cases xs) (auto simp: pad_start_def grows_refl intro!: list.rel_refl)

lemma pad_front_ordered: "0 \<le> pad \<Longrightarrow> ordered 0 xs n \<Longrightarrow> ordered 0 (pad_front pad xs) n"
  by (cases xs) (auto simp: pad_start_def)

lemma list_all2_grows_member:
  assumes "list_all2 grows xs ys" and "(s, e) \<in> set xs"
  shows "\<exists>(s', e') \<in> set ys. s' \<le> s \<and> e \<le> e'"
  using assms by (induction rule: list_all2_induct) (auto simp: grows_def)

lemma list_all2_grows_origin:
  assumes "list_all2 grows xs ys" and "(s', e') \<in> set ys"
  shows "\<exists>(s, e) \<in> set xs. s' \<le> s \<and> e \<le> e'"
  using assms by (induction rule: list_all2_induct) (auto simp: grows_def)

lemma pad_speeches_grows:
  assumes "0 \<le> pad" and "ordered 0 xs n"
  shows "list_all2 grows xs (fst (pad_speeches pad n xs))"
proof -
  have "list_all2 grows (pad_front pad xs) (fst (pad_speeches pad n xs))"
    using assms pad_front_ordered padded_grows [of pad 0] by (simp add: pad_speeches_eq)
  then show ?thesis
    using list_all2_trans [of grows grows grows] grows_trans pad_front_grows [OF assms] by blast
qed

lemma pad_speeches_ordered: "0 \<le> pad \<Longrightarrow> ordered 0 xs n \<Longrightarrow> ordered 0 (fst (pad_speeches pad n xs)) n"
  by (simp add: pad_speeches_eq padded_ordered pad_front_ordered)

lemma samples_to_cs_mono:
  assumes "0 \<le> a" and "a \<le> b" shows "samples_to_cs a \<le> samples_to_cs b"
proof -
  have "0 \<le> real_of_int a / 160 + 1 / 2" "0 \<le> real_of_int b / 160 + 1 / 2" "real_of_int a / 160 + 1 / 2 \<le> real_of_int b / 160 + 1 / 2"
    using assms by (auto simp: divide_right_mono)
  then show ?thesis
    by (simp add: samples_to_cs_def trunc_real_def WHISPER_SAMPLE_RATE_def floor_mono)
qed

lemma ordered_map:
  assumes "\<And>x y. lo \<le> x \<Longrightarrow> x \<le> y \<Longrightarrow> f x \<le> f y" and "ordered lo xs hi"
  shows "ordered (f lo) (map (\<lambda>(s, e). (f s, f e)) xs) (f hi)"
  using assms by (induction lo xs hi rule: ordered.induct) (auto intro: order_trans)

lemma ordered_cs:
  "0 \<le> lo \<Longrightarrow> ordered lo xs hi \<Longrightarrow> ordered (samples_to_cs lo) (map segment_cs xs) (samples_to_cs hi)"
  by (rule ordered_map) (auto intro: samples_to_cs_mono)

lemma samples_to_cs_0: "samples_to_cs 0 = 0"
  by (simp add: samples_to_cs_def trunc_real_def)

lemma tdiv_nonneg: "0 \<le> a \<Longrightarrow> 0 < b \<Longrightarrow> tdiv a b = a div b"
  by (simp add: tdiv_def)

lemma kept_speeches_long: "(s, e) \<in> set (kept_speeches c probs) \<Longrightarrow> vc_min_speech_samples c \<le> e - s"
  by (auto simp: kept_speeches_def Let_def remove_short_eq)

lemma snd_pad_speeches: "snd (pad_speeches pad n xs) = map segment_cs (fst (pad_speeches pad n xs))"
  by (simp add: pad_speeches_eq)

lemma vad_consts_of_simps [simp]:
  "vc_threshold (vad_consts_of params w) = vp_threshold params"
  "vc_neg_threshold (vad_consts_of params w) = neg_threshold_of (vp_threshold params)"
  "vc_n_window (vad_consts_of params w) = w"
  "vc_min_speech_samples (vad_consts_of params w) = tdiv (16000 * vp_min_speech_duration_ms params) 1000"
  "vc_speech_pad_samples (vad_consts_of params w) = tdiv (16000 * vp_speech_pad_ms params) 1000"
  by (simp_all add: vad_consts_of_def WHISPER_SAMPLE_RATE_def Let_def)


section \<open>Every speech window is in a segment\<close>

text \<open>What the scan knows about the windows below \<open>i\<close> while no segment reaches the maximal duration.\<close>

definition found :: "int \<Rightarrow> vad_scan \<Rightarrow> nat \<Rightarrow> bool" where
  "found w st j \<longleftrightarrow>
     (\<exists>(s, e) \<in> set (sc_speeches st). s \<le> w * int j \<and> w * (int j + 1) \<le> e)
   \<or> (sc_is_speech st \<and> sc_start st \<le> w * int j \<and> (sc_temp_end st \<noteq> 0 \<longrightarrow> w * (int j + 1) \<le> sc_temp_end st))"

definition finds :: "vad_consts \<Rightarrow> real list \<Rightarrow> nat \<Rightarrow> vad_scan \<Rightarrow> bool" where
  "finds c probs i st \<longleftrightarrow>
     (\<forall>j<i. vc_threshold c \<le> probs ! j \<longrightarrow> found (vc_n_window c) st j)
   \<and> (sc_is_speech st \<longrightarrow> 0 \<le> sc_start st \<and> sc_start st < vc_n_window c * int i
        \<and> (sc_temp_end st \<noteq> 0 \<longrightarrow> sc_start st < sc_temp_end st \<and> sc_temp_end st < vc_n_window c * int i))
   \<and> (\<not> sc_is_speech st \<longrightarrow> sc_temp_end st = 0)
   \<and> sc_has_speech st = sc_is_speech st"

lemma scan_resume_speech [simp]: "sc_is_speech (scan_resume c prob p st) = sc_is_speech st"
  by (simp add: scan_resume_def Let_def)

lemma finds_step:
  assumes inv: "finds c probs i st"
    and w: "0 < vc_n_window c" and min: "vc_min_speech_samples c = 0"
    and thr: "vc_neg_threshold c \<le> vc_threshold c"
    and max: "vc_n_window c * int i \<le> vc_max_speech_samples c"
  shows "finds c probs (Suc i) (scan_step c probs i st)"
proof -
  let ?w = "vc_n_window c" and ?p = "probs ! i"
  have next_pos: "?w * int i < ?w * int (Suc i)" "?w * int (Suc i) = ?w * (int i + 1)"
    using w by (simp_all add: algebra_simps)
  have no_max: "scan_max c (?w * int i) st = (True, st)"
    "scan_max c (?w * int i) (scan_resume c ?p (?w * int i) st) = (True, scan_resume c ?p (?w * int i) st)"
    using inv max by (auto simp: finds_def scan_max_def scan_resume_def Let_def)
  consider (resume) "vc_threshold c \<le> ?p" "sc_is_speech st" | (start) "vc_threshold c \<le> ?p" "\<not> sc_is_speech st"
    | (between) "?p < vc_threshold c" "\<not> (?p < vc_neg_threshold c \<and> sc_is_speech st)"
    | (silence) "?p < vc_neg_threshold c" "sc_is_speech st"
    using thr by linarith
  then show ?thesis
  proof cases
    case resume
    then have "scan_step c probs i st = scan_resume c ?p (?w * int i) st"
      using no_max thr by (simp add: scan_step_def Let_def scan_silence_def)
    then show ?thesis
      using inv resume next_pos
      by (auto simp: finds_def found_def scan_resume_def Let_def less_Suc_eq)
  next
    case start
    then have "scan_step c probs i st = st\<lparr>sc_is_speech := True, sc_start := ?w * int i, sc_has_speech := True\<rparr>"
      using inv by (simp add: scan_step_def Let_def scan_resume_def finds_def)
    moreover have "0 \<le> ?w * int i" using w by simp
    ultimately show ?thesis
      using inv start next_pos by (auto simp: finds_def found_def less_Suc_eq)
  next
    case between
    then have "scan_step c probs i st = st"
      using no_max by (auto simp: scan_step_def Let_def scan_resume_def scan_silence_def)
    then show ?thesis
      using inv between next_pos by (auto simp: finds_def less_Suc_eq)
  next
    case silence
    let ?te = "if sc_temp_end st = 0 then ?w * int i else sc_temp_end st"
    have te: "sc_start st < ?te" "0 \<le> sc_start st" "?te < ?w * int (Suc i)"
      using inv silence next_pos by (auto simp: finds_def)
    have before: "?w * (int j + 1) \<le> ?w * int i" if "j < i" for j
      using that w by (intro mult_left_mono) auto
    have old: "found ?w st j" if "j < Suc i" "vc_threshold c \<le> probs ! j" for j
      using inv silence that thr by (auto simp: finds_def less_Suc_eq)
    have step: "scan_step c probs i st = scan_silence c ?p (?w * int i) st"
      using no_max silence thr by (simp add: scan_step_def Let_def scan_resume_def)
    have res: "sc_speeches (scan_step c probs i st) = sc_speeches st @ [(sc_start st, ?te)]
        \<and> \<not> sc_is_speech (scan_step c probs i st) \<and> sc_temp_end (scan_step c probs i st) = 0
        \<and> \<not> sc_has_speech (scan_step c probs i st)
      \<or> sc_speeches (scan_step c probs i st) = sc_speeches st \<and> sc_is_speech (scan_step c probs i st)
        \<and> sc_temp_end (scan_step c probs i st) = ?te \<and> sc_start (scan_step c probs i st) = sc_start st
        \<and> sc_has_speech (scan_step c probs i st)"
      using silence te min inv unfolding step
      by (cases "sc_temp_end st = 0") (auto simp: scan_silence_def Let_def finds_def)
    have "found ?w (scan_step c probs i st) j" if "j < Suc i" "vc_threshold c \<le> probs ! j" for j
    proof -
      have "j < i" using that silence thr by (auto simp: less_Suc_eq)
      then show ?thesis
        using old [OF that] res before [of j] te by (cases "sc_temp_end st = 0") (auto simp: found_def)
    qed
    then show ?thesis using res te by (auto simp: finds_def)
  qed
qed

lemma finds_all:
  assumes "0 < vc_n_window c" and "vc_min_speech_samples c = 0" and "vc_neg_threshold c \<le> vc_threshold c"
    and "vc_n_window c * int n \<le> vc_max_speech_samples c"
  shows "finds c probs n (for_range 0 n (scan_step c probs) scan_start)"
  using assms(4)
proof (induction n)
  case 0
  show ?case by (simp add: finds_def scan_start_def)
next
  case (Suc n)
  then have "vc_n_window c * int n \<le> vc_max_speech_samples c"
    using assms(1) by (simp add: algebra_simps)
  then show ?case using Suc finds_step [OF _ assms(1-3)] by simp
qed

lemma raw_speeches_find:
  assumes "0 < vc_n_window c" and "vc_min_speech_samples c = 0" and "vc_neg_threshold c \<le> vc_threshold c"
    and "vc_n_window c * int (length probs) \<le> vc_max_speech_samples c"
    and "j < length probs" and "vc_threshold c \<le> probs ! j"
  shows "\<exists>(s, e) \<in> set (raw_speeches c probs). s \<le> vc_n_window c * int j \<and> vc_n_window c * (int j + 1) \<le> e"
proof -
  let ?st = "for_range 0 (length probs) (scan_step c probs) scan_start"
  have "vc_n_window c * (int j + 1) \<le> vc_n_window c * int (length probs)"
    using assms(1,5) by (intro mult_left_mono) auto
  moreover have "finds c probs (length probs) ?st" using finds_all assms(1-4) .
  then have "found (vc_n_window c) ?st j" "sc_has_speech ?st = sc_is_speech ?st"
    "sc_is_speech ?st \<Longrightarrow> sc_start ?st < vc_n_window c * int (length probs)"
    using assms(5,6) unfolding finds_def by blast+
  ultimately show ?thesis
    using assms(2) unfolding raw_speeches_def scan_finish_def found_def by (auto simp: mult.commute)
qed

lemma kept_speeches_find:
  assumes "0 < vc_n_window c" and "vc_min_speech_samples c = 0" and "vc_neg_threshold c \<le> vc_threshold c"
    and "vc_n_window c * int (length probs) \<le> vc_max_speech_samples c"
    and "j < length probs" and "vc_threshold c \<le> probs ! j"
  shows "\<exists>(s, e) \<in> set (kept_speeches c probs). s \<le> vc_n_window c * int j \<and> vc_n_window c * (int j + 1) \<le> e"
proof -
  have raw: "ordered 0 (raw_speeches c probs) (int (length probs) * vc_n_window c)"
    using raw_speeches_ordered assms(1) by simp
  obtain s e where se: "(s, e) \<in> set (raw_speeches c probs)" "s \<le> vc_n_window c * int j" "vc_n_window c * (int j + 1) \<le> e"
    using raw_speeches_find [OF assms] by auto
  obtain s' e' where merged: "(s', e') \<in> set (merge_loop 0 (raw_speeches c probs))" "s' \<le> s" "e \<le> e'"
    using merge_loop_covers [OF raw se(1), of 0] by auto
  have all: "filter (\<lambda>(s, e). 0 \<le> e - s) xs = xs" if "ordered 0 xs (int (length probs) * vc_n_window c)" for xs
    using ordered_member [OF that] by (auto simp: filter_id_conv)
  have "kept_speeches c probs = (if length (raw_speeches c probs) > 1 then merge_loop 0 (raw_speeches c probs) else raw_speeches c probs)"
    using all [OF raw] all [OF merge_loop_ordered [OF raw]] assms(2)
    by (simp add: kept_speeches_def Let_def remove_short_eq)
  then have "(s, e) \<in> set (kept_speeches c probs) \<or> (s', e') \<in> set (kept_speeches c probs)"
    using se(1) merged(1) by simp
  then show ?thesis
  proof
    assume "(s, e) \<in> set (kept_speeches c probs)"
    then show ?thesis using se(2,3) by blast
  next
    assume "(s', e') \<in> set (kept_speeches c probs)"
    moreover have "s' \<le> vc_n_window c * int j" "vc_n_window c * (int j + 1) \<le> e'" using se merged by linarith+
    ultimately show ?thesis by blast
  qed
qed

lemma neg_threshold_le: "1 / 100 \<le> t \<Longrightarrow> neg_threshold_of t \<le> t"
  by (auto simp: neg_threshold_of_def Let_def)

lemma segments_find:
  assumes "0 < vad_n_window vctx" and "0 \<le> vp_speech_pad_ms params" and "vp_min_speech_duration_ms params = 0"
    and "1 / 100 \<le> vp_threshold params"
    and "int (length (vad_probs vctx)) * vad_n_window vctx \<le> vc_max_speech_samples (vad_consts_of params (vad_n_window vctx))"
    and "j < length (vad_probs vctx)" and "vp_threshold params \<le> vad_probs vctx ! j"
  shows "\<exists>(t0, t1) \<in> set (whisper_vad_segments_from_probs vctx params).
           t0 \<le> samples_to_cs (vad_n_window vctx * int j) \<and> samples_to_cs (vad_n_window vctx * (int j + 1)) \<le> t1"
proof -
  let ?w = "vad_n_window vctx" and ?n = "int (length (vad_probs vctx)) * vad_n_window vctx"
  let ?c = "vad_consts_of params ?w"
  let ?kept = "kept_speeches ?c (vad_probs vctx)" and ?pad = "vc_speech_pad_samples ?c"
  let ?final = "fst (pad_speeches ?pad ?n ?kept)"
  have pad: "0 \<le> ?pad" using assms by (simp add: tdiv_nonneg)
  have kept: "ordered 0 ?kept ?n" using kept_speeches_ordered [of ?c "vad_probs vctx"] assms by simp
  have "\<exists>(s, e) \<in> set ?kept. s \<le> vc_n_window ?c * int j \<and> vc_n_window ?c * (int j + 1) \<le> e"
    by (rule kept_speeches_find) (use assms neg_threshold_le in \<open>simp_all add: tdiv_def mult.commute\<close>)
  then obtain s e where se: "(s, e) \<in> set ?kept" "s \<le> ?w * int j" "?w * (int j + 1) \<le> e" by auto
  obtain s' e' where final: "(s', e') \<in> set ?final" "s' \<le> s" "e \<le> e'"
    using list_all2_grows_member [OF pad_speeches_grows [OF pad kept] se(1)] by auto
  have "0 \<le> s'" using ordered_member [OF pad_speeches_ordered [OF pad kept] final(1)] by simp
  moreover have "0 \<le> ?w * int j" "0 \<le> ?w * (int j + 1)" using assms(1) by simp_all
  ultimately have "samples_to_cs s' \<le> samples_to_cs (?w * int j)" "samples_to_cs (?w * (int j + 1)) \<le> samples_to_cs e'"
    using se final by (auto intro!: samples_to_cs_mono)
  moreover have "(samples_to_cs s', samples_to_cs e') \<in> set (whisper_vad_segments_from_probs vctx params)"
    using final(1) by (force simp: whisper_vad_segments_from_probs_def Let_def snd_pad_speeches)
  ultimately show ?thesis by blast
qed

section \<open>Windows and probabilities\<close>

function chunks_of :: "nat \<Rightarrow> 'a list \<Rightarrow> 'a list list" where
  "chunks_of w xs = (if xs = [] \<or> w = 0 then [] else take w xs # chunks_of w (drop w xs))"
  by pat_completeness auto
termination
  by (relation "measure (\<lambda>(w, xs). length xs)") auto

declare chunks_of.simps [simp del]

lemma chunks_of_Nil [simp]: "chunks_of w [] = []"
  by (subst chunks_of.simps) simp

lemma concat_chunks_of: "0 < w \<Longrightarrow> concat (chunks_of w xs) = xs"
proof (induction w xs rule: chunks_of.induct)
  case (1 w xs)
  then show ?case by (cases "xs = []") (simp_all add: chunks_of.simps [of w xs])
qed

lemma chunks_of_map:
  "0 < w \<Longrightarrow> length xs = n * w \<Longrightarrow> chunks_of w xs = map (\<lambda>i. take w (drop (i * w) xs)) [0..<n]"
proof (induction n arbitrary: xs)
  case 0
  then show ?case by (simp add: chunks_of.simps [of w xs])
next
  case (Suc n)
  then have "chunks_of w (drop w xs) = map (\<lambda>i. take w (drop (Suc i * w) xs)) [0..<n]"
    by (simp add: add.commute)
  then show ?case
    using Suc.prems by (simp add: chunks_of.simps [of w xs] map_upt_Suc del: upt_Suc) auto
qed

text \<open>The audio padded with zeros to whole windows, and the outputs of the network on a list of windows.\<close>

definition padded_audio :: "nat \<Rightarrow> real list \<Rightarrow> real list" where
  "padded_audio w samples = samples @ replicate ((w - length samples mod w) mod w) 0"

fun network_outputs :: "('s \<Rightarrow> real list \<Rightarrow> ('s \<times> real) option) \<Rightarrow> 's \<Rightarrow> real list list \<Rightarrow> real list" where
  "network_outputs compute st [] = []"
| "network_outputs compute st (x # xs) =
     (case compute st x of None \<Rightarrow> [] | Some (st', p) \<Rightarrow> p # network_outputs compute st' xs)"

definition window_count :: "nat \<Rightarrow> nat \<Rightarrow> nat" where
  "window_count w n = (n + w - 1) div w"

lemma window_count_cases:
  assumes "0 < w"
  shows "window_count w n = n div w + (if n mod w = 0 then 0 else 1)"
proof (cases "n mod w = 0")
  case True
  have "(w - 1 + n div w * w) div w = n div w"
    using assms by (subst div_mult_self1) simp_all
  then show ?thesis using True assms div_mult_mod_eq [of n w] by (simp add: window_count_def algebra_simps)
next
  case False
  have "0 < n mod w" "n = n div w * w + n mod w" using False by simp_all
  then have "n + w - 1 = (n mod w - 1) + (n div w + 1) * w"
    unfolding add_mult_distrib by linarith
  moreover have "((n mod w - 1) + (n div w + 1) * w) div w = n div w + 1"
    using assms mod_less_divisor [OF assms, of n] by (subst div_mult_self1) (simp_all add: less_imp_diff_less)
  ultimately show ?thesis using False by (simp add: window_count_def)
qed

lemma window_count_times:
  assumes "0 < w" shows "length (padded_audio w samples) = window_count w (length samples) * w"
proof -
  let ?n = "length samples"
  have "?n mod w < w" "?n = ?n div w * w + ?n mod w" using assms by simp_all
  then have "?n + (w - ?n mod w) = ?n div w * w + w" by linarith
  then have "?n + (w - ?n mod w) mod w = window_count w ?n * w"
    using assms by (auto simp: window_count_cases add_mult_distrib)
  then show ?thesis by (simp add: padded_audio_def)
qed

lemma vad_n_chunks_count: "0 < w \<Longrightarrow> vad_n_chunks (int w) (int n) = int (window_count w n)"
  by (simp add: vad_n_chunks_def tdiv_def window_count_cases flip: zdiv_int zmod_int)

lemma vad_window_take:
  assumes "0 < w" and "int i * int w = int m" and "m + w \<le> length samples + z" and "z < w"
  shows "vad_window (int w) samples (int i) = take w (drop m (samples @ replicate z 0))"
proof (cases "m + w \<le> length samples")
  case True
  then have "min (int m + int w) (int (length samples)) = int m + int w" by simp
  then show ?thesis using True by (simp add: vad_window_def Let_def assms(2))
next
  case False
  then have "min (int m + int w) (int (length samples)) = int (length samples)" by simp
  moreover have "int (length samples) - int m = int (length samples - m)"
    using assms(3,4) by (simp add: of_nat_diff)
  moreover have "nat (int w - int (length samples - m)) = w - (length samples - m)"
    by (simp add: nat_diff_distrib)
  ultimately show ?thesis
    using False assms(1,3,4) by (simp add: vad_window_def Let_def assms(2))
qed

lemma vad_window_chunk:
  assumes "0 < w" and "i < window_count w (length samples)"
  shows "vad_window (int w) samples (int i) = take w (drop (i * w) (padded_audio w samples))"
  unfolding padded_audio_def
proof (rule vad_window_take)
  have "i * w + w \<le> window_count w (length samples) * w"
    using assms(2) mult_le_mono1 [of "Suc i" "window_count w (length samples)" w] by simp
  then show "i * w + w \<le> length samples + (w - length samples mod w) mod w"
    using window_count_times [OF assms(1), of samples] by (simp add: padded_audio_def)
qed (use assms in simp_all)

lemma vad_chunks_outputs:
  assumes "length probs = n" and "k \<le> n"
  shows "snd (vad_chunks compute w samples (map int [k..<n]) (st, probs))
     = (let ps = network_outputs compute st (map (\<lambda>i. vad_window w samples (int i)) [k..<n])
        in take k probs @ ps @ drop (k + length ps) probs)"
  using assms
proof (induction "n - k" arbitrary: k st probs)
  case 0
  then show ?case by simp
next
  case (Suc d)
  then have upt: "[k..<n] = k # [Suc k..<n]" by (simp add: upt_conv_Cons)
  show ?case
  proof (cases "compute st (vad_window w samples (int k))")
    case None
    then show ?thesis by (simp add: upt)
  next
    case (Some r)
    obtain st' q where r: "r = (st', q)" by (cases r)
    have "snd (vad_chunks compute w samples (map int [Suc k..<n]) (st', probs[k := q]))
      = (let ps = network_outputs compute st' (map (\<lambda>i. vad_window w samples (int i)) [Suc k..<n])
         in take (Suc k) (probs[k := q]) @ ps @ drop (Suc k + length ps) (probs[k := q]))"
      by (rule Suc(1)) (use Suc in auto)
    then show ?thesis
      using Some r Suc(2-4) by (simp add: upt Let_def take_Suc_conv_app_nth)
  qed
qed

lemma detect_speech_probs:
  assumes "0 < vad_n_window vctx" and "vad_n_window vctx = int w"
  shows "\<exists>vctx'. whisper_vad_detect_speech compute True zero vctx samples = (True, vctx')
    \<and> vad_n_window vctx' = vad_n_window vctx
    \<and> vad_probs vctx' =
        (let ps = network_outputs compute zero (chunks_of w (padded_audio w samples))
         in ps @ drop (length ps) (resize (window_count w (length samples)) 0 (vad_probs vctx)))"
proof -
  have w: "0 < w" using assms by simp
  let ?n = "window_count w (length samples)"
  have windows: "map (\<lambda>i. vad_window (int w) samples (int i)) [0..<?n] = chunks_of w (padded_audio w samples)"
    using vad_window_chunk [OF w, of _ samples] chunks_of_map [OF w window_count_times [OF w, of samples]] by simp
  show ?thesis
    using vad_chunks_outputs [of "resize ?n 0 (vad_probs vctx)" ?n 0 compute "int w" samples zero]
    by (simp add: whisper_vad_detect_speech_def whisper_vad_reset_state_def whisper_vad_detect_speech_no_reset_def
        Let_def assms(2) vad_n_chunks_count [OF w] windows case_prod_unfold)
qed

lemma length_chunks_of:
  "0 < w \<Longrightarrow> length xs = n * w \<Longrightarrow> length (chunks_of w xs) = n \<and> (\<forall>x \<in> set (chunks_of w xs). length x = w)"
proof -
  assume w: "0 < w" and n: "length xs = n * w"
  have le: "w \<le> n * w - i * w" if "i < n" for i
  proof -
    have "Suc i * w \<le> n * w" using that by (intro mult_le_mono1) simp
    then show ?thesis by simp
  qed
  then show "length (chunks_of w xs) = n \<and> (\<forall>x \<in> set (chunks_of w xs). length x = w)"
    using w n by (auto simp: chunks_of_map min.absorb1 le)
qed


text \<open>C18: the network sees the audio cut into whole windows, the last one zero-padded, from the cleared
  state; the probabilities are its outputs, one per window, and where a run of the network fails the
  entries from there on are those the context held before, although the call reports success.\<close>

theorem detect_speech_windows:
  assumes "0 < w" and "vad_n_window vctx = int w"
  shows "\<exists>vctx' windows. whisper_vad_detect_speech compute True zero vctx samples = (True, vctx')
    \<and> concat windows = samples @ replicate ((w - length samples mod w) mod w) 0
    \<and> (\<forall>x \<in> set windows. length x = w)
    \<and> vad_probs vctx' =
        (let ps = network_outputs compute zero windows
         in ps @ drop (length ps) (resize (length windows) 0 (vad_probs vctx)))"
proof -
  let ?windows = "chunks_of w (padded_audio w samples)"
  have "length ?windows = window_count w (length samples)" "\<forall>x \<in> set ?windows. length x = w"
    using length_chunks_of [OF assms(1) window_count_times [OF assms(1), of samples]] by simp_all
  moreover have "concat ?windows = samples @ replicate ((w - length samples mod w) mod w) 0"
    using assms(1) by (simp add: concat_chunks_of padded_audio_def)
  moreover obtain vctx' where "whisper_vad_detect_speech compute True zero vctx samples = (True, vctx')"
    "vad_probs vctx' = (let ps = network_outputs compute zero ?windows
         in ps @ drop (length ps) (resize (window_count w (length samples)) 0 (vad_probs vctx)))"
    using detect_speech_probs [of vctx w compute zero samples] assms by auto
  ultimately show ?thesis by (metis (no_types, lifting))
qed

definition example_vad :: "unit whisper_vad_context" where
  "example_vad = \<lparr>vad_n_window = 512, vad_probs = [1 / 10, 9 / 10, 8 / 10, 1 / 10], vad_lstm = ()\<rparr>"



theorem detect_speech_windows_witness:
  "\<exists>vctx' windows. whisper_vad_detect_speech (\<lambda>st x. Some (st, sum_list x)) True () example_vad [1 / 4] = (True, vctx')
    \<and> concat windows = [1 / 4] @ replicate ((512 - 1) mod 512) 0
    \<and> vad_probs vctx' =
        (let ps = network_outputs (\<lambda>st x. Some (st, sum_list x)) () windows
         in ps @ drop (length ps) (resize (length windows) 0 (vad_probs example_vad)))"
  using detect_speech_windows [of 512 example_vad "\<lambda>st x. Some (st, sum_list x)" "()" "[1 / 4]"]
  by (simp add: example_vad_def) blast

end
