(* ===== verification/VadFilter.thy ===== *)
theory VadFilter
  imports VadSegments
begin

text \<open>
  CTranslate2/whisper-vad-filter.cpp: loading of the Silero context and the extraction of the speech
  from a recording. The C++ exceptions are values of \<open>std_exception\<close>; the model loader and the network
  are parameters. The theorems: the output is a subsequence of the input, \<open>true\<close> is returned exactly
  for a non-empty output, and no sample of a speech window is lost.
\<close>

section \<open>Context and extraction\<close>

datatype std_exception = Invalid_argument string | Runtime_error string

definition create_whisper_vad_context ::
  "(string \<Rightarrow> whisper_vad_context_params \<Rightarrow> 's whisper_vad_context option) \<Rightarrow> string
    \<Rightarrow> std_exception + 's whisper_vad_context" where
  "create_whisper_vad_context whisper_vad_init_from_file_with_params model_path =
     (if model_path = [] then Inl (Invalid_argument ''VAD model path must not be empty'')
      else
        let context_params = whisper_vad_default_context_params\<lparr>vc_n_threads := 1, vc_use_gpu := False\<rparr>
        in case whisper_vad_init_from_file_with_params model_path context_params of
             None \<Rightarrow> Inl (Runtime_error (''failed to load Silero VAD model: '' @ model_path))
           | Some context \<Rightarrow> Inr context)"

definition kSamplesPerCentisecond :: int where
  "kSamplesPerCentisecond = tdiv 16000 100"

definition filter_params :: "real \<Rightarrow> whisper_vad_params" where
  "filter_params threshold =
     whisper_vad_default_params
       \<lparr>vp_threshold := max 0 (min threshold 1), vp_min_speech_duration_ms := 0, vp_max_speech_duration_s := FLT_MAX,
        vp_min_silence_duration_ms := 2000, vp_speech_pad_ms := 400, vp_samples_overlap := 0\<rparr>"

definition whisper_vad_segments_n_segments :: "(int \<times> int) list \<Rightarrow> int" where
  "whisper_vad_segments_n_segments segments = int (length segments)"

definition whisper_vad_segments_get_segment_t0 :: "(int \<times> int) list \<Rightarrow> nat \<Rightarrow> real" where
  "whisper_vad_segments_get_segment_t0 segments i = real_of_int (fst (segments ! i))"

definition whisper_vad_segments_get_segment_t1 :: "(int \<times> int) list \<Rightarrow> nat \<Rightarrow> real" where
  "whisper_vad_segments_get_segment_t1 segments i = real_of_int (snd (segments ! i))"

definition llround :: "real \<Rightarrow> int" where
  "llround x = (if x \<ge> 0 then \<lfloor>x + 1 / 2\<rfloor> else \<lceil>x - 1 / 2\<rceil>)"

definition sample_index :: "nat \<Rightarrow> real \<Rightarrow> nat" where
  "sample_index n_samples cs = min n_samples (nat (max 0 (llround (cs * real_of_int kSamplesPerCentisecond))))"

definition collect_step :: "real list \<Rightarrow> (int \<times> int) list \<Rightarrow> nat \<Rightarrow> real list \<Rightarrow> real list" where
  "collect_step samples segments index outp =
     (let start = sample_index (length samples) (whisper_vad_segments_get_segment_t0 segments index);
          fin = sample_index (length samples) (whisper_vad_segments_get_segment_t1 segments index)
      in if fin > start then outp @ take (fin - start) (drop start samples) else outp)"

text \<open>The result or the exception, the output vector, and the context.\<close>

definition collect_whisper_vad_speech ::
  "('s \<Rightarrow> real list \<Rightarrow> ('s \<times> real) option) \<Rightarrow> bool \<Rightarrow> 's \<Rightarrow> 's whisper_vad_context option \<Rightarrow> real list \<Rightarrow> real
    \<Rightarrow> real list \<Rightarrow> (std_exception + bool) \<times> real list \<times> 's whisper_vad_context option" where
  "collect_whisper_vad_speech compute alloc_ok zero context samples threshold outp =
     (case context of
        None \<Rightarrow> (Inl (Invalid_argument ''Silero VAD context is null''), outp, None)
      | Some vctx \<Rightarrow>
          if samples = [] then (Inr False, [], Some vctx)
          else
            let (segments, vctx) =
                  whisper_vad_segments_from_samples compute alloc_ok zero vctx (filter_params threshold) samples
            in case segments of
                 None \<Rightarrow> (Inl (Runtime_error ''Silero VAD failed to detect speech segments''), [], Some vctx)
               | Some segments \<Rightarrow>
                   let outp = for_range 0 (nat (whisper_vad_segments_n_segments segments)) (collect_step samples segments) []
                   in (Inr (outp \<noteq> []), outp, Some vctx))"

section \<open>Spans of samples\<close>

lemma nths_filter_upt: "nths xs A = map ((!) xs) (filter (\<lambda>i. i \<in> A) [0..<length xs])"
proof -
  have "zip xs [0..<length xs] = map (\<lambda>i. (xs ! i, i)) [0..<length xs]"
    by (rule nth_equalityI) simp_all
  then show ?thesis by (simp add: nths_def filter_map comp_def)
qed

definition covered :: "(nat \<times> nat) list \<Rightarrow> nat set" where
  "covered spans = {i. \<exists>(s, e) \<in> set spans. s \<le> i \<and> i < e}"

lemma covered_simps:
  "covered [] = {}" "covered ((s, e) # spans) = {s..<e} \<union> covered spans"
  by (auto simp: covered_def)

lemma covered_below: "ordered lo spans hi \<Longrightarrow> i < lo \<Longrightarrow> i \<notin> covered spans"
  unfolding covered_def using ordered_member [of lo spans hi] by fastforce

lemma filter_covered:
  assumes "ordered lo spans hi" and "hi \<le> n"
  shows "filter (\<lambda>i. i \<in> covered spans) [lo..<n] = concat (map (\<lambda>(s, e). [s..<e]) spans)"
  using assms
proof (induction lo spans hi rule: ordered.induct)
  case (1 lo hi)
  then show ?case by (simp add: covered_simps)
next
  case (2 lo s e xs hi)
  then have le: "lo \<le> s" "s \<le> e" "e \<le> n" and rest: "ordered e xs hi" using ordered_le [of e xs hi] by auto
  have upt: "[lo..<n] = [lo..<s] @ [s..<e] @ [e..<n]"
    using le upt_split [of lo s n] upt_split [of s e n] by simp
  have "filter (\<lambda>i. i \<in> covered ((s, e) # xs)) [lo..<s] = []"
    "filter (\<lambda>i. i \<in> covered ((s, e) # xs)) [s..<e] = [s..<e]"
    "filter (\<lambda>i. i \<in> covered ((s, e) # xs)) [e..<n] = filter (\<lambda>i. i \<in> covered xs) [e..<n]"
    using covered_below [OF rest] le by (auto simp: covered_simps filter_empty_conv filter_id_conv intro!: filter_cong)
  then show ?case using 2 upt by simp
qed

lemma slice_map: "e \<le> length xs \<Longrightarrow> take (e - s) (drop s xs) = map ((!) xs) [s..<e]"
  by (rule nth_equalityI) (auto simp: nth_append)

lemma concat_slices:
  assumes "ordered 0 spans hi" and "hi \<le> length xs"
  shows "concat (map (\<lambda>(s, e). take (e - s) (drop s xs)) spans) = nths xs (covered spans)"
proof -
  have "e \<le> length xs" if "(s, e) \<in> set spans" for s e
    using ordered_member [OF assms(1) that] assms(2) by simp
  then have "concat (map (\<lambda>(s, e). take (e - s) (drop s xs)) spans) = map ((!) xs) (concat (map (\<lambda>(s, e). [s..<e]) spans))"
    unfolding map_concat map_map by (intro arg_cong [of _ _ concat] map_cong) (auto simp: slice_map)
  then show ?thesis
    using filter_covered [OF assms] by (simp add: nths_filter_upt)
qed

section \<open>The output\<close>

definition sample_span :: "nat \<Rightarrow> int \<times> int \<Rightarrow> nat \<times> nat" where
  "sample_span n = (\<lambda>(t0, t1). (min n (nat (160 * t0)), min n (nat (160 * t1))))"

lemma sample_index_int: "sample_index n (real_of_int t) = min n (nat (160 * t))"
proof -
  have "llround (real_of_int t * 160) = 160 * t"
  proof -
    have "real_of_int t * 160 = real_of_int (160 * t)" by simp
    then show ?thesis unfolding llround_def by (simp add: floor_eq_iff ceiling_eq_iff)
  qed
  then show ?thesis by (simp add: sample_index_def kSamplesPerCentisecond_def tdiv_def)
qed

lemma collect_step_span:
  "collect_step samples segments k outp
     = outp @ (case sample_span (length samples) (segments ! k) of (s, e) \<Rightarrow> take (e - s) (drop s samples))"
proof -
  have "(if e > s then outp @ take (e - s) (drop s samples) else outp) = outp @ take (e - s) (drop s samples)" for s e
    by simp
  then show ?thesis
    unfolding collect_step_def Let_def sample_index_int whisper_vad_segments_get_segment_t0_def
      whisper_vad_segments_get_segment_t1_def sample_span_def case_prod_unfold fst_conv snd_conv .
qed

lemma collect_loop:
  "for_range 0 k (collect_step samples segments) [] =
     concat (map (\<lambda>(s, e). take (e - s) (drop s samples)) (map (sample_span (length samples)) (take k segments)))"
  if "k \<le> length segments"
  using that
proof (induction k)
  case (Suc k)
  then show ?case
    by (simp add: take_Suc_conv_app_nth collect_step_span)
qed simp

lemma collected:
  assumes "ordered 0 segments hi"
  shows "for_range 0 (nat (whisper_vad_segments_n_segments segments)) (collect_step samples segments) []
       = nths samples (covered (map (sample_span (length samples)) segments))"
proof -
  let ?n = "length samples"
  have "ordered (min ?n (nat (160 * 0))) (map (sample_span ?n) segments) (min ?n (nat (160 * hi)))"
    unfolding sample_span_def using assms by (intro ordered_map [where f = "\<lambda>t. min ?n (nat (160 * t))"]) auto
  then show ?thesis
    using concat_slices [of "map (sample_span ?n) segments" _ samples]
    by (simp add: collect_loop whisper_vad_segments_n_segments_def)
qed

section \<open>No sample of a speech window is lost\<close>

abbreviation apart :: "int \<Rightarrow> (int \<times> int) list \<Rightarrow> bool" where
  "apart g \<equiv> successively (\<lambda>x y. g \<le> fst y - snd x)"

lemma half_le: "2 * m \<le> x \<Longrightarrow> 0 \<le> m \<Longrightarrow> m \<le> tdiv x 2"
  by (simp add: tdiv_2)

lemma merge_loop_apart:
  "apart max_merge_gap_samples (take (i + 1) xs) \<Longrightarrow> apart max_merge_gap_samples (merge_loop i xs)"
proof (induction i xs rule: merge_loop.induct)
  case (1 i xs)
  show ?case
  proof (cases "i + 1 < length xs")
    case True
    then obtain pre s1 e1 s2 e2 post where xs: "xs = pre @ (s1, e1) # (s2, e2) # post" and i: "i = length pre"
      by (metis list_split_at2 surj_pair)
    show ?thesis
    proof (cases "s2 - e1 < max_merge_gap_samples")
      case close: True
      have "apart max_merge_gap_samples (take (i + 1) (pre @ (s1, e2) # post))"
        using 1(3) i xs by (cases "pre = []") (auto simp: successively_append_iff)
      moreover have "fst (xs ! (i + 1)) - snd (xs ! i) < max_merge_gap_samples"
        using close i xs by (simp add: nth_append)
      ultimately show ?thesis
        using 1(1) True merge_at [OF xs i] by (simp add: merge_loop.simps [of i xs])
    next
      case False
      then have "apart max_merge_gap_samples (take (i + 1 + 1) xs)"
        using 1(3) i xs by (auto simp: successively_append_iff)
      moreover have "\<not> fst (xs ! (i + 1)) - snd (xs ! i) < max_merge_gap_samples"
        using False i xs by (simp add: nth_append)
      ultimately show ?thesis
        using 1(2) True by (simp add: merge_loop.simps [of i xs])
    qed
  next
    case False
    then show ?thesis using 1(3) by (simp add: merge_loop.simps [of i xs])
  qed
qed

definition start_grows :: "int \<Rightarrow> int \<times> int \<Rightarrow> int \<times> int \<Rightarrow> bool" where
  "start_grows m x y \<longleftrightarrow> fst y \<le> fst x - m \<or> fst y = 0"

definition end_grows :: "int \<Rightarrow> int \<Rightarrow> int \<times> int \<Rightarrow> int \<times> int \<Rightarrow> bool" where
  "end_grows m n x y \<longleftrightarrow> snd x + m \<le> snd y \<or> snd y = n"

lemma grows_pairs [simp]:
  "start_grows m (s, e) y \<longleftrightarrow> fst y \<le> s - m \<or> fst y = 0"
  "end_grows m n (s, e) y \<longleftrightarrow> e + m \<le> snd y \<or> snd y = n"
  by (simp_all add: start_grows_def end_grows_def)

lemma padded_ends:
  assumes "0 \<le> m" and "m \<le> pad" and "apart (2 * m) xs"
  shows "list_all2 (end_grows m n) xs (padded pad n xs)"
  using assms
proof (induction pad n xs rule: padded.induct)
  case (3 pad n s e s' e' xs)
  have lift: "list_all2 (end_grows m n) ((z, e') # xs) ys \<Longrightarrow> list_all2 (end_grows m n) ((s', e') # xs) ys" for z ys
    by (cases ys) auto
  have "apart (2 * m) ((z, e') # xs)" for z using 3(5) by (cases xs) auto
  moreover have "m \<le> tdiv (s' - e) 2" using 3(3,5) by (intro half_le) auto
  moreover have "end_grows m n (s, e) (s, pad_end pad n e)" using 3(4) by (simp add: pad_end_def)
  ultimately show ?case using 3(1,2,3,4) by (auto intro!: lift)
qed (auto simp: pad_end_def)

lemma padded_starts:
  assumes "0 \<le> m" and "m \<le> pad" and "apart (2 * m) xs" and "xs \<noteq> []"
  shows "\<exists>p ps. padded pad n xs = p # ps \<and> fst p = fst (hd xs) \<and> list_all2 (start_grows m) (tl xs) ps"
  using assms
proof (induction pad n xs rule: padded.induct)
  case (3 pad n s e s' e' xs)
  have ap: "apart (2 * m) ((z, e') # xs)" for z using 3(5) by (cases xs) auto
  have half: "m \<le> tdiv (s' - e) 2" using 3(3,5) by (intro half_le) auto
  let ?h = "if s' - e < 2 * pad then tdiv (s' - e) 2 else pad"
  have "m \<le> ?h" using half 3(4) by simp
  then have z: "pad_start ?h s' \<le> s' - m \<or> pad_start ?h s' = 0" by (auto simp: pad_start_def)
  obtain p ps where "padded pad n ((pad_start ?h s', e') # xs) = p # ps" "fst p = pad_start ?h s'" "list_all2 (start_grows m) xs ps"
    using 3(1,2,3,4) ap by (cases "s' - e < 2 * pad") fastforce+
  then show ?case using z by (auto)
qed auto

lemma apart_pad_front: "apart g (pad_front pad xs) = apart g xs"
  by (cases xs; cases "tl xs") auto

lemma final_grows:
  assumes "0 \<le> m" and "m \<le> pad" and "apart (2 * m) xs"
  shows "list_all2 (\<lambda>x y. start_grows m x y \<and> end_grows m n x y) xs (fst (pad_speeches pad n xs))"
proof (cases xs)
  case Nil
  then show ?thesis by (simp add: pad_speeches_eq)
next
  case (Cons x ys)
  obtain s e where x: "x = (s, e)" by (cases x)
  have ap: "apart (2 * m) (pad_front pad xs)" using assms(3) by (simp add: apart_pad_front)
  obtain p ps where ps: "padded pad n (pad_front pad xs) = p # ps" "fst p = pad_start pad s" "list_all2 (start_grows m) ys ps"
    using padded_starts [OF assms(1,2) ap, of n] by (auto simp: Cons x)
  have "list_all2 (end_grows m n) (pad_front pad xs) (p # ps)"
    using padded_ends [OF assms(1,2) ap, of n] ps(1) by simp
  then have ends: "end_grows m n (s, e) p" "list_all2 (end_grows m n) ys ps" by (auto simp: Cons x end_grows_def)
  have "start_grows m (s, e) p" using ps(2) assms by (auto simp: start_grows_def pad_start_def)
  moreover have "list_all2 (\<lambda>x y. start_grows m x y \<and> end_grows m n x y) ys ps"
    using ends(2) ps(3) by (simp add: list_all2_conv_all_nth)
  moreover have "fst (pad_speeches pad n xs) = p # ps" using ps(1) by (simp add: pad_speeches_eq)
  ultimately show ?thesis using ends(1) by (simp add: Cons x)
qed

lemma list_all2_partner: "list_all2 P xs ys \<Longrightarrow> x \<in> set xs \<Longrightarrow> \<exists>y \<in> set ys. P x y"
  by (induction rule: list_all2_induct) auto

lemma samples_to_cs_near:
  assumes "0 \<le> x"
  shows "160 * samples_to_cs x \<le> x + 80" and "x < 160 * samples_to_cs x + 80"
proof -
  have "0 \<le> real_of_int x / 160 + 1 / 2" using assms by simp
  then have "samples_to_cs x = \<lfloor>real_of_int x / 160 + 1 / 2\<rfloor>"
    by (simp add: samples_to_cs_def trunc_real_def WHISPER_SAMPLE_RATE_def)
  then have "real_of_int (samples_to_cs x) \<le> real_of_int x / 160 + 1 / 2"
    "real_of_int x / 160 + 1 / 2 < real_of_int (samples_to_cs x) + 1"
    by linarith+
  then have "real_of_int (160 * samples_to_cs x) \<le> real_of_int (x + 80)" "real_of_int x < real_of_int (160 * samples_to_cs x + 80)"
    by (simp_all add: field_simps)
  then show "160 * samples_to_cs x \<le> x + 80" "x < 160 * samples_to_cs x + 80" by linarith+
qed

lemma network_outputs_length: "length (network_outputs compute st xs) \<le> length xs"
  by (induction compute st xs rule: network_outputs.induct) (auto split: option.split)

lemma filter_consts:
  "vp_threshold (filter_params t) = max 0 (min t 1)" "vp_speech_pad_ms (filter_params t) = 400"
  "vp_min_speech_duration_ms (filter_params t) = 0"
  "vc_max_speech_samples (vad_consts_of (filter_params t) w) = 1073741823"
  "vc_speech_pad_samples (vad_consts_of (filter_params t) w) = 6400"
  by (simp_all add: filter_params_def vad_consts_of_def Let_def max_speech_samples_def FLT_MAX_def
      whisper_vad_default_params_def tdiv_def WHISPER_SAMPLE_RATE_def INT_MAX_def)

lemma kept_speeches_apart:
  assumes "vc_min_speech_samples c = 0" and "0 \<le> vc_n_window c"
  shows "apart 3200 (kept_speeches c probs)"
proof -
  have raw: "ordered 0 (raw_speeches c probs) (int (length probs) * vc_n_window c)"
    using raw_speeches_ordered assms(2) by simp
  have all: "filter (\<lambda>(s, e). 0 \<le> e - s) xs = xs" if "ordered 0 xs (int (length probs) * vc_n_window c)" for xs
    using ordered_member [OF that] by (auto simp: filter_id_conv)
  let ?rs = "raw_speeches c probs"
  have "kept_speeches c probs = (if length ?rs > 1 then merge_loop 0 ?rs else ?rs)"
    using all [OF raw] all [OF merge_loop_ordered [OF raw]] assms(1) by (simp add: kept_speeches_def Let_def remove_short_eq)
  moreover have "apart 3200 (merge_loop 0 ?rs)"
    using merge_loop_apart [of 0 ?rs] by (cases ?rs) (auto simp: max_merge_gap_samples_def tdiv_def WHISPER_SAMPLE_RATE_def)
  moreover have "apart 3200 ?rs" if "length ?rs \<le> 1"
    using that by (cases ?rs) auto
  ultimately show ?thesis by (simp split: if_splits)
qed

lemma apart_mono: "apart g xs \<Longrightarrow> h \<le> g \<Longrightarrow> apart h xs"
  by (erule successively_mono) simp

lemma segments_ordered:
  assumes "0 \<le> vad_n_window vctx" and "0 \<le> vp_speech_pad_ms params"
  shows "ordered 0 (whisper_vad_segments_from_probs vctx params)
           (samples_to_cs (int (length (vad_probs vctx)) * vad_n_window vctx))"
proof -
  have "ordered 0 (kept_speeches (vad_consts_of params (vad_n_window vctx)) (vad_probs vctx))
      (int (length (vad_probs vctx)) * vad_n_window vctx)"
    using kept_speeches_ordered [of "vad_consts_of params (vad_n_window vctx)" "vad_probs vctx"] assms(1) by simp
  from ordered_cs [OF _ pad_speeches_ordered [OF _ this]] show ?thesis
    using assms(2) by (simp add: whisper_vad_segments_from_probs_def Let_def snd_pad_speeches samples_to_cs_0 tdiv_nonneg)
qed

lemma filter_segments:
  "whisper_vad_segments_from_probs vctx (filter_params t)
     = map segment_cs (fst (pad_speeches 6400 (int (length (vad_probs vctx)) * vad_n_window vctx)
         (kept_speeches (vad_consts_of (filter_params t) (vad_n_window vctx)) (vad_probs vctx))))"
  unfolding whisper_vad_segments_from_probs_def Let_def snd_pad_speeches filter_consts ..

lemma segments_keep:
  assumes w: "0 < vad_n_window vctx" and thr: "1 / 100 \<le> t"
    and max: "int (length (vad_probs vctx)) * vad_n_window vctx \<le> 1073741823"
    and n: "int n \<le> int (length (vad_probs vctx)) * vad_n_window vctx"
    and j: "j < length (vad_probs vctx)" "min t 1 \<le> vad_probs vctx ! j"
    and i: "vad_n_window vctx * int j \<le> int i" "int i < vad_n_window vctx * (int j + 1)" "i < n - 79"
  shows "i \<in> covered (map (sample_span n) (whisper_vad_segments_from_probs vctx (filter_params t)))"
proof -
  let ?w = "vad_n_window vctx" and ?total = "int (length (vad_probs vctx)) * vad_n_window vctx"
  let ?c = "vad_consts_of (filter_params t) ?w"
  let ?kept = "kept_speeches ?c (vad_probs vctx)"
  let ?final = "fst (pad_speeches 6400 ?total ?kept)"
  have kept: "ordered 0 ?kept ?total" using kept_speeches_ordered [of ?c "vad_probs vctx"] w by simp
  have c: "vc_min_speech_samples ?c = 0" by (simp add: filter_consts tdiv_def)
  have thr': "neg_threshold_of (max 0 (min t 1)) \<le> max 0 (min t 1)"
    by (rule neg_threshold_le) (use thr in simp)
  have "\<exists>(s, e) \<in> set ?kept. s \<le> vc_n_window ?c * int j \<and> vc_n_window ?c * (int j + 1) \<le> e"
    by (rule kept_speeches_find) (use w thr thr' max j c in \<open>simp_all add: filter_consts mult.commute\<close>)
  then obtain s e where se: "(s, e) \<in> set ?kept" "s \<le> ?w * int j" "?w * (int j + 1) \<le> e" by auto
  have "list_all2 (\<lambda>x y. start_grows 80 x y \<and> end_grows 80 ?total x y) ?kept ?final"
    by (rule final_grows) (use apart_mono [OF kept_speeches_apart [OF c]] w in simp_all)
  then obtain s' e' where final: "(s', e') \<in> set ?final" "s' \<le> s - 80 \<or> s' = 0" "e + 80 \<le> e' \<or> e' = ?total"
    using list_all2_partner [OF _ se(1)] by fastforce
  have "0 \<le> s'" "0 \<le> e'" using ordered_member [OF pad_speeches_ordered [OF _ kept] final(1)] by simp_all
  then have "160 * samples_to_cs s' \<le> int i" "int i < 160 * samples_to_cs e'"
    using samples_to_cs_near [of s'] samples_to_cs_near [of e'] final se i n
    by (auto simp: samples_to_cs_0)
  then have "sample_span n (samples_to_cs s', samples_to_cs e') = (min n (nat (160 * samples_to_cs s')), min n (nat (160 * samples_to_cs e')))"
    "min n (nat (160 * samples_to_cs s')) \<le> i" "i < min n (nat (160 * samples_to_cs e'))"
    using i(3) by (auto simp: sample_span_def)
  moreover have "(samples_to_cs s', samples_to_cs e') \<in> set (whisper_vad_segments_from_probs vctx (filter_params t))"
    using imageI [OF final(1), of segment_cs] by (simp add: filter_segments)
  ultimately show ?thesis unfolding covered_def by (auto intro!: bexI)
qed

lemma speech_kept:
  assumes "0 < w" and "vad_n_window vctx = int w" and "samples \<noteq> []" and "length samples + w \<le> 2 ^ 30"
    and thr: "1 / 100 \<le> threshold"
  shows "\<exists>keep vctx'.
     collect_whisper_vad_speech compute True zero (Some vctx) samples threshold outp
       = (Inr (nths samples keep \<noteq> []), nths samples keep, Some vctx')
   \<and> vad_probs vctx' = vad_probs (snd (whisper_vad_detect_speech compute True zero vctx samples))
   \<and> (\<forall>i < length samples - 79. min threshold 1 \<le> vad_probs vctx' ! (i div w) \<longrightarrow> i \<in> keep)"
proof -
  obtain vctx' where detect: "whisper_vad_detect_speech compute True zero vctx samples = (True, vctx')"
    and window: "vad_n_window vctx' = int w"
    and probs: "vad_probs vctx' = (let ps = network_outputs compute zero (chunks_of w (padded_audio w samples))
         in ps @ drop (length ps) (resize (window_count w (length samples)) 0 (vad_probs vctx)))"
    using detect_speech_probs [of vctx w compute zero samples] assms by auto
  let ?n = "window_count w (length samples)"
  have times: "length (padded_audio w samples) = ?n * w" using assms(1) by (rule window_count_times)
  have count: "length (chunks_of w (padded_audio w samples)) = ?n"
    using length_chunks_of [OF assms(1) times] by simp
  have len: "length (vad_probs vctx') = ?n"
    using network_outputs_length [of compute zero "chunks_of w (padded_audio w samples)"] count
    by (simp add: probs Let_def)
  have total: "length samples \<le> ?n * w" "?n * w < length samples + w"
    using times mod_less_divisor [OF assms(1), of "w - length samples mod w"] by (auto simp: padded_audio_def)
  let ?segments = "whisper_vad_segments_from_probs vctx' (filter_params threshold)"
  let ?keep = "covered (map (sample_span (length samples)) ?segments)"
  have "ordered 0 ?segments (samples_to_cs (int (length (vad_probs vctx')) * vad_n_window vctx'))"
    by (rule segments_ordered) (simp_all add: window filter_consts)
  then have result: "collect_whisper_vad_speech compute True zero (Some vctx) samples threshold outp
       = (Inr (nths samples ?keep \<noteq> []), nths samples ?keep, Some vctx')"
    using assms(3) detect by (simp add: collect_whisper_vad_speech_def whisper_vad_segments_from_samples_def Let_def collected)
  have keep: "i \<in> ?keep" if i: "i < length samples - 79" "min threshold 1 \<le> vad_probs vctx' ! (i div w)" for i
  proof (rule segments_keep [where j = "i div w"])
    show "int (length (vad_probs vctx')) * vad_n_window vctx' \<le> 1073741823"
      "int (length samples) \<le> int (length (vad_probs vctx')) * vad_n_window vctx'"
      using total assms(4) unfolding len window by (simp_all flip: of_nat_mult)
    show "i div w < length (vad_probs vctx')" using i total assms(1) by (simp add: len less_mult_imp_div_less)
    have "int (w * (i div w)) \<le> int i" "int i < int (w * (i div w + 1))"
      using dividend_less_times_div [OF assms(1), of i] unfolding of_nat_le_iff of_nat_less_iff by simp_all
    then show "vad_n_window vctx' * int (i div w) \<le> int i" "int i < vad_n_window vctx' * (int (i div w) + 1)"
      unfolding window of_nat_mult of_nat_add of_nat_1 .
  qed (use assms window i in simp_all)
  show ?thesis
  proof (intro exI conjI allI impI)
    show "collect_whisper_vad_speech compute True zero (Some vctx) samples threshold outp
       = (Inr (nths samples ?keep \<noteq> []), nths samples ?keep, Some vctx')" by (rule result)
    show "vad_probs vctx' = vad_probs (snd (whisper_vad_detect_speech compute True zero vctx samples))"
      by (simp only: detect snd_conv)
  qed (rule keep)
qed

text \<open>C19: for a threshold of at least 0.01 the speech filter returns a subsequence of the recording
  (\<open>true\<close> exactly if it is not empty), and no sample of a window the network scored at least the
  threshold is missing from it, but for the last 79 samples of the recording.\<close>

theorem collect_speech_keeps_speech:
  assumes "0 < w" and "vad_n_window vctx = int w" and "samples \<noteq> []" and "length samples + w \<le> 2 ^ 30"
    and "1 / 100 \<le> threshold"
  shows "\<exists>keep vctx'.
     collect_whisper_vad_speech compute True zero (Some vctx) samples threshold outp
       = (Inr (nths samples keep \<noteq> []), nths samples keep, Some vctx')
   \<and> vad_probs vctx' = vad_probs (snd (whisper_vad_detect_speech compute True zero vctx samples))
   \<and> (\<forall>i < length samples - 79. min threshold 1 \<le> vad_probs vctx' ! (i div w) \<longrightarrow> i \<in> keep)"
  using speech_kept [OF assms] .

theorem collect_speech_keeps_speech_witness:
  "\<exists>keep vctx'.
     collect_whisper_vad_speech (\<lambda>st x. Some (st, 1)) True () (Some example_vad) (replicate 600 1) (1 / 2) []
       = (Inr (nths (replicate 600 (1 :: real)) keep \<noteq> []), nths (replicate 600 1) keep, Some vctx')"
proof -
  have "0 < (512 :: nat)" "vad_n_window example_vad = int 512" "replicate 600 (1 :: real) \<noteq> []"
    "length (replicate 600 (1 :: real)) + 512 \<le> 2 ^ 30" "1 / 100 \<le> (1 / 2 :: real)"
    by (simp_all add: example_vad_def)
  from collect_speech_keeps_speech [OF this, where compute = "\<lambda>st x. Some (st, 1)" and zero = "()" and outp = "[]"]
  show ?thesis by (elim ex_forward conjE)
qed

end
