(* ===== verification/WhisperBridge.thy ===== *)
theory WhisperBridge
  imports WhisperParams Pcm16Converter "HOL-Library.Monad_Syntax"
begin

text \<open>
  Whisper/native-lib.cpp, the JNI bridge: copying of the parameter objects between Java and C, the
  checks of the entry points, and the array helpers. A Java object is the map of its fields; reading
  or writing a field the class does not have (or has with another type) is \<open>None\<close>, the pending
  NoSuchFieldError. Java strings are represented by the modified UTF-8 bytes JNI hands out.
\<close>

section \<open>Java objects and field access\<close>

datatype java_value =
    JInt int
  | JLong int
  | JFloat real
  | JBool bool
  | JString "string option"
  | JIntArray "int list option"
  | JFloatArray "real list option"
  | JObject "(string \<Rightarrow> java_value option) option"

type_synonym java_object = "string \<rightharpoonup> java_value"

definition get_int :: "java_object option \<Rightarrow> string \<Rightarrow> int \<Rightarrow> int option" where
  "get_int object name fallback =
     (case object of None \<Rightarrow> Some fallback
      | Some ob \<Rightarrow> (case ob name of Some (JInt x) \<Rightarrow> Some x | _ \<Rightarrow> None))"

definition get_long :: "java_object option \<Rightarrow> string \<Rightarrow> int \<Rightarrow> int option" where
  "get_long object name fallback =
     (case object of None \<Rightarrow> Some fallback
      | Some ob \<Rightarrow> (case ob name of Some (JLong x) \<Rightarrow> Some x | _ \<Rightarrow> None))"

definition get_float :: "java_object option \<Rightarrow> string \<Rightarrow> real \<Rightarrow> real option" where
  "get_float object name fallback =
     (case object of None \<Rightarrow> Some fallback
      | Some ob \<Rightarrow> (case ob name of Some (JFloat x) \<Rightarrow> Some x | _ \<Rightarrow> None))"

definition get_bool :: "java_object option \<Rightarrow> string \<Rightarrow> bool \<Rightarrow> bool option" where
  "get_bool object name fallback =
     (case object of None \<Rightarrow> Some fallback
      | Some ob \<Rightarrow> (case ob name of Some (JBool x) \<Rightarrow> Some x | _ \<Rightarrow> None))"

text \<open>\<open>None\<close> inside is the result \<open>false\<close>: no string was stored.\<close>

definition get_string :: "java_object option \<Rightarrow> string \<Rightarrow> string option option" where
  "get_string object name =
     (case object of None \<Rightarrow> Some None
      | Some ob \<Rightarrow> (case ob name of Some (JString x) \<Rightarrow> Some x | _ \<Rightarrow> None))"

definition get_object :: "java_object option \<Rightarrow> string \<Rightarrow> java_object option option" where
  "get_object object name =
     (case object of None \<Rightarrow> Some None
      | Some ob \<Rightarrow> (case ob name of Some (JObject x) \<Rightarrow> Some x | _ \<Rightarrow> None))"

definition tokens_from_array :: "int list option \<Rightarrow> int list" where
  "tokens_from_array array = (case array of None \<Rightarrow> [] | Some xs \<Rightarrow> xs)"

definition get_token_vector :: "java_object option \<Rightarrow> string \<Rightarrow> int list option" where
  "get_token_vector object name =
     (case object of None \<Rightarrow> Some []
      | Some ob \<Rightarrow> (case ob name of Some (JIntArray x) \<Rightarrow> Some (tokens_from_array x) | _ \<Rightarrow> None))"

definition put_field :: "java_object \<Rightarrow> string \<Rightarrow> java_value \<Rightarrow> java_object" where
  "put_field object name x = object(name \<mapsto> x)"

definition set_int :: "java_object \<Rightarrow> string \<Rightarrow> int \<Rightarrow> java_object option" where
  "set_int object name x = (case object name of Some (JInt _) \<Rightarrow> Some (put_field object name (JInt x)) | _ \<Rightarrow> None)"

definition set_long :: "java_object \<Rightarrow> string \<Rightarrow> int \<Rightarrow> java_object option" where
  "set_long object name x = (case object name of Some (JLong _) \<Rightarrow> Some (put_field object name (JLong x)) | _ \<Rightarrow> None)"

definition set_float :: "java_object \<Rightarrow> string \<Rightarrow> real \<Rightarrow> java_object option" where
  "set_float object name x = (case object name of Some (JFloat _) \<Rightarrow> Some (put_field object name (JFloat x)) | _ \<Rightarrow> None)"

definition set_bool :: "java_object \<Rightarrow> string \<Rightarrow> bool \<Rightarrow> java_object option" where
  "set_bool object name x = (case object name of Some (JBool _) \<Rightarrow> Some (put_field object name (JBool x)) | _ \<Rightarrow> None)"

definition set_string :: "java_object \<Rightarrow> string \<Rightarrow> string option \<Rightarrow> java_object option" where
  "set_string object name x = (case object name of Some (JString _) \<Rightarrow> Some (put_field object name (JString x)) | _ \<Rightarrow> None)"

definition set_object :: "java_object \<Rightarrow> string \<Rightarrow> java_object option \<Rightarrow> java_object option" where
  "set_object object name x = (case object name of Some (JObject _) \<Rightarrow> Some (put_field object name (JObject x)) | _ \<Rightarrow> None)"

definition set_float_array :: "java_object \<Rightarrow> string \<Rightarrow> real list \<Rightarrow> java_object option" where
  "set_float_array object name xs =
     (case object name of Some (JFloatArray _) \<Rightarrow> Some (put_field object name (JFloatArray (Some xs))) | _ \<Rightarrow> None)"

text \<open>The casts between \<open>size_t\<close> and \<open>jlong\<close>.\<close>

definition word_to_long :: "64 word \<Rightarrow> int" where
  "word_to_long w = sint w"

section \<open>The Java classes\<close>

text \<open>A new object has the class's fields with their Java defaults.\<close>

definition context_params_class :: java_object where
  "context_params_class = map_of
    [(''useGpu'', JBool False),
     (''flashAttn'', JBool False),
     (''gpuDevice'', JInt 0),
     (''dtwTokenTimestamps'', JBool False),
     (''dtwAheadsPreset'', JInt 0),
     (''dtwNTop'', JInt 0),
     (''dtwMemSize'', JLong 0)]"

definition vad_params_class :: java_object where
  "vad_params_class = map_of
    [(''threshold'', JFloat 0),
     (''minSpeechDurationMs'', JInt 0),
     (''minSilenceDurationMs'', JInt 0),
     (''maxSpeechDurationS'', JFloat 0),
     (''speechPadMs'', JInt 0),
     (''samplesOverlap'', JFloat 0)]"

definition vad_context_params_class :: java_object where
  "vad_context_params_class = map_of
    [(''nThreads'', JInt 0),
     (''useGpu'', JBool False),
     (''gpuDevice'', JInt 0)]"

definition full_params_class :: java_object where
  "full_params_class = map_of
    [(''strategy'', JInt 0),
     (''nThreads'', JInt 0),
     (''nMaxTextCtx'', JInt 0),
     (''offsetMs'', JInt 0),
     (''durationMs'', JInt 0),
     (''translate'', JBool False),
     (''noContext'', JBool False),
     (''noTimestamps'', JBool False),
     (''singleSegment'', JBool False),
     (''printSpecial'', JBool False),
     (''printProgress'', JBool False),
     (''printRealtime'', JBool False),
     (''printTimestamps'', JBool False),
     (''tokenTimestamps'', JBool False),
     (''tholdPt'', JFloat 0),
     (''tholdPtsum'', JFloat 0),
     (''maxLen'', JInt 0),
     (''splitOnWord'', JBool False),
     (''maxTokens'', JInt 0),
     (''debugMode'', JBool False),
     (''audioCtx'', JInt 0),
     (''tdrzEnable'', JBool False),
     (''suppressRegex'', JString None),
     (''initialPrompt'', JString None),
     (''carryInitialPrompt'', JBool False),
     (''promptTokens'', JIntArray None),
     (''language'', JString None),
     (''detectLanguage'', JBool False),
     (''suppressBlank'', JBool False),
     (''suppressNst'', JBool False),
     (''temperature'', JFloat 0),
     (''maxInitialTs'', JFloat 0),
     (''lengthPenalty'', JFloat 0),
     (''temperatureInc'', JFloat 0),
     (''entropyThold'', JFloat 0),
     (''logprobThold'', JFloat 0),
     (''noSpeechThold'', JFloat 0),
     (''greedyBestOf'', JInt 0),
     (''beamSize'', JInt 0),
     (''beamPatience'', JFloat 0),
     (''vad'', JBool False),
     (''vadModelPath'', JString None),
     (''vadParams'', JObject None)]"

definition token_data_class :: java_object where
  "token_data_class = map_of
    [(''id'', JInt 0),
     (''tid'', JInt 0),
     (''p'', JFloat 0),
     (''plog'', JFloat 0),
     (''pt'', JFloat 0),
     (''ptsum'', JFloat 0),
     (''t0'', JLong 0),
     (''t1'', JLong 0),
     (''tDtw'', JLong 0),
     (''vlen'', JFloat 0),
     (''text'', JString None)]"

definition timings_class :: java_object where
  "timings_class = map_of
    [(''sampleMs'', JFloat 0),
     (''encodeMs'', JFloat 0),
     (''decodeMs'', JFloat 0),
     (''batchdMs'', JFloat 0),
     (''promptMs'', JFloat 0)]"

definition lang_detection_class :: java_object where
  "lang_detection_class = map_of
    [(''languageId'', JInt 0),
     (''probabilities'', JFloatArray None)]"

section \<open>Parameter objects\<close>

definition make_context_params :: "java_object option \<Rightarrow> whisper_context_params option" where
  "make_context_params object = do {
    params \<leftarrow> Some whisper_context_default_params;
    x \<leftarrow> get_bool object ''useGpu'' (cp_use_gpu params);
    params \<leftarrow> Some (params\<lparr>cp_use_gpu := x\<rparr>);
    x \<leftarrow> get_bool object ''flashAttn'' (cp_flash_attn params);
    params \<leftarrow> Some (params\<lparr>cp_flash_attn := x\<rparr>);
    x \<leftarrow> get_int object ''gpuDevice'' (cp_gpu_device params);
    params \<leftarrow> Some (params\<lparr>cp_gpu_device := x\<rparr>);
    x \<leftarrow> get_bool object ''dtwTokenTimestamps'' (cp_dtw_token_timestamps params);
    params \<leftarrow> Some (params\<lparr>cp_dtw_token_timestamps := x\<rparr>);
    x \<leftarrow> get_int object ''dtwAheadsPreset'' (cp_dtw_aheads_preset params);
    params \<leftarrow> Some (params\<lparr>cp_dtw_aheads_preset := x\<rparr>);
    x \<leftarrow> get_int object ''dtwNTop'' (cp_dtw_n_top params);
    params \<leftarrow> Some (params\<lparr>cp_dtw_n_top := x\<rparr>);
    x \<leftarrow> get_long object ''dtwMemSize'' (word_to_long (cp_dtw_mem_size params));
    params \<leftarrow> Some (params\<lparr>cp_dtw_mem_size := of_int x\<rparr>);
    Some params
  }"

definition make_context_params_object :: "whisper_context_params \<Rightarrow> java_object option" where
  "make_context_params_object params = do {
    object \<leftarrow> Some context_params_class;
    object \<leftarrow> set_bool object ''useGpu'' (cp_use_gpu params);
    object \<leftarrow> set_bool object ''flashAttn'' (cp_flash_attn params);
    object \<leftarrow> set_int object ''gpuDevice'' (cp_gpu_device params);
    object \<leftarrow> set_bool object ''dtwTokenTimestamps'' (cp_dtw_token_timestamps params);
    object \<leftarrow> set_int object ''dtwAheadsPreset'' (cp_dtw_aheads_preset params);
    object \<leftarrow> set_int object ''dtwNTop'' (cp_dtw_n_top params);
    object \<leftarrow> set_long object ''dtwMemSize'' (word_to_long (cp_dtw_mem_size params));
    Some object
  }"

definition make_vad_params :: "java_object option \<Rightarrow> whisper_vad_params \<Rightarrow> whisper_vad_params option" where
  "make_vad_params object fallback = do {
    params \<leftarrow> Some fallback;
    x \<leftarrow> get_float object ''threshold'' (vp_threshold params);
    params \<leftarrow> Some (params\<lparr>vp_threshold := x\<rparr>);
    x \<leftarrow> get_int object ''minSpeechDurationMs'' (vp_min_speech_duration_ms params);
    params \<leftarrow> Some (params\<lparr>vp_min_speech_duration_ms := x\<rparr>);
    x \<leftarrow> get_int object ''minSilenceDurationMs'' (vp_min_silence_duration_ms params);
    params \<leftarrow> Some (params\<lparr>vp_min_silence_duration_ms := x\<rparr>);
    x \<leftarrow> get_float object ''maxSpeechDurationS'' (vp_max_speech_duration_s params);
    params \<leftarrow> Some (params\<lparr>vp_max_speech_duration_s := x\<rparr>);
    x \<leftarrow> get_int object ''speechPadMs'' (vp_speech_pad_ms params);
    params \<leftarrow> Some (params\<lparr>vp_speech_pad_ms := x\<rparr>);
    x \<leftarrow> get_float object ''samplesOverlap'' (vp_samples_overlap params);
    params \<leftarrow> Some (params\<lparr>vp_samples_overlap := x\<rparr>);
    Some params
  }"

definition make_vad_params_object :: "whisper_vad_params \<Rightarrow> java_object option" where
  "make_vad_params_object params = do {
    object \<leftarrow> Some vad_params_class;
    object \<leftarrow> set_float object ''threshold'' (vp_threshold params);
    object \<leftarrow> set_int object ''minSpeechDurationMs'' (vp_min_speech_duration_ms params);
    object \<leftarrow> set_int object ''minSilenceDurationMs'' (vp_min_silence_duration_ms params);
    object \<leftarrow> set_float object ''maxSpeechDurationS'' (vp_max_speech_duration_s params);
    object \<leftarrow> set_int object ''speechPadMs'' (vp_speech_pad_ms params);
    object \<leftarrow> set_float object ''samplesOverlap'' (vp_samples_overlap params);
    Some object
  }"

definition make_vad_context_params :: "java_object option \<Rightarrow> whisper_vad_context_params option" where
  "make_vad_context_params object = do {
    params \<leftarrow> Some whisper_vad_default_context_params;
    x \<leftarrow> get_int object ''nThreads'' (vc_n_threads params);
    params \<leftarrow> Some (params\<lparr>vc_n_threads := x\<rparr>);
    x \<leftarrow> get_bool object ''useGpu'' (vc_use_gpu params);
    params \<leftarrow> Some (params\<lparr>vc_use_gpu := x\<rparr>);
    x \<leftarrow> get_int object ''gpuDevice'' (vc_gpu_device params);
    params \<leftarrow> Some (params\<lparr>vc_gpu_device := x\<rparr>);
    Some params
  }"

definition make_vad_context_params_object :: "whisper_vad_context_params \<Rightarrow> java_object option" where
  "make_vad_context_params_object params = do {
    object \<leftarrow> Some vad_context_params_class;
    object \<leftarrow> set_int object ''nThreads'' (vc_n_threads params);
    object \<leftarrow> set_bool object ''useGpu'' (vc_use_gpu params);
    object \<leftarrow> set_int object ''gpuDevice'' (vc_gpu_device params);
    Some object
  }"

text \<open>The strings and the token vector the holder owns are the values of the pointers in it.\<close>

definition make_full_params :: "int \<Rightarrow> java_object option \<Rightarrow> whisper_full_params option" where
  "make_full_params hw object = do {
    strategy \<leftarrow> get_int object ''strategy'' WHISPER_SAMPLING_GREEDY;
    params \<leftarrow> Some (whisper_full_default_params hw strategy);
    if object = None then Some params else do {
    params \<leftarrow> Some (params\<lparr>fp_strategy := strategy\<rparr>);
    x \<leftarrow> get_int object ''nThreads'' (fp_n_threads params);
    params \<leftarrow> Some (params\<lparr>fp_n_threads := x\<rparr>);
    x \<leftarrow> get_int object ''nMaxTextCtx'' (fp_n_max_text_ctx params);
    params \<leftarrow> Some (params\<lparr>fp_n_max_text_ctx := x\<rparr>);
    x \<leftarrow> get_int object ''offsetMs'' (fp_offset_ms params);
    params \<leftarrow> Some (params\<lparr>fp_offset_ms := x\<rparr>);
    x \<leftarrow> get_int object ''durationMs'' (fp_duration_ms params);
    params \<leftarrow> Some (params\<lparr>fp_duration_ms := x\<rparr>);
    x \<leftarrow> get_bool object ''translate'' (fp_translate params);
    params \<leftarrow> Some (params\<lparr>fp_translate := x\<rparr>);
    x \<leftarrow> get_bool object ''noContext'' (fp_no_context params);
    params \<leftarrow> Some (params\<lparr>fp_no_context := x\<rparr>);
    x \<leftarrow> get_bool object ''noTimestamps'' (fp_no_timestamps params);
    params \<leftarrow> Some (params\<lparr>fp_no_timestamps := x\<rparr>);
    x \<leftarrow> get_bool object ''singleSegment'' (fp_single_segment params);
    params \<leftarrow> Some (params\<lparr>fp_single_segment := x\<rparr>);
    x \<leftarrow> get_bool object ''printSpecial'' (fp_print_special params);
    params \<leftarrow> Some (params\<lparr>fp_print_special := x\<rparr>);
    x \<leftarrow> get_bool object ''printProgress'' (fp_print_progress params);
    params \<leftarrow> Some (params\<lparr>fp_print_progress := x\<rparr>);
    x \<leftarrow> get_bool object ''printRealtime'' (fp_print_realtime params);
    params \<leftarrow> Some (params\<lparr>fp_print_realtime := x\<rparr>);
    x \<leftarrow> get_bool object ''printTimestamps'' (fp_print_timestamps params);
    params \<leftarrow> Some (params\<lparr>fp_print_timestamps := x\<rparr>);
    x \<leftarrow> get_bool object ''tokenTimestamps'' (fp_token_timestamps params);
    params \<leftarrow> Some (params\<lparr>fp_token_timestamps := x\<rparr>);
    x \<leftarrow> get_float object ''tholdPt'' (fp_thold_pt params);
    params \<leftarrow> Some (params\<lparr>fp_thold_pt := x\<rparr>);
    x \<leftarrow> get_float object ''tholdPtsum'' (fp_thold_ptsum params);
    params \<leftarrow> Some (params\<lparr>fp_thold_ptsum := x\<rparr>);
    x \<leftarrow> get_int object ''maxLen'' (fp_max_len params);
    params \<leftarrow> Some (params\<lparr>fp_max_len := x\<rparr>);
    x \<leftarrow> get_bool object ''splitOnWord'' (fp_split_on_word params);
    params \<leftarrow> Some (params\<lparr>fp_split_on_word := x\<rparr>);
    x \<leftarrow> get_int object ''maxTokens'' (fp_max_tokens params);
    params \<leftarrow> Some (params\<lparr>fp_max_tokens := x\<rparr>);
    x \<leftarrow> get_bool object ''debugMode'' (fp_debug_mode params);
    params \<leftarrow> Some (params\<lparr>fp_debug_mode := x\<rparr>);
    x \<leftarrow> get_int object ''audioCtx'' (fp_audio_ctx params);
    params \<leftarrow> Some (params\<lparr>fp_audio_ctx := x\<rparr>);
    x \<leftarrow> get_bool object ''tdrzEnable'' (fp_tdrz_enable params);
    params \<leftarrow> Some (params\<lparr>fp_tdrz_enable := x\<rparr>);
    x \<leftarrow> get_string object ''suppressRegex'';
    params \<leftarrow> Some (params\<lparr>fp_suppress_regex := (if x \<noteq> None then x else fp_suppress_regex params)\<rparr>);
    x \<leftarrow> get_string object ''initialPrompt'';
    params \<leftarrow> Some (params\<lparr>fp_initial_prompt := (if x \<noteq> None then x else fp_initial_prompt params)\<rparr>);
    x \<leftarrow> get_bool object ''carryInitialPrompt'' (fp_carry_initial_prompt params);
    params \<leftarrow> Some (params\<lparr>fp_carry_initial_prompt := x\<rparr>);
    prompt_tokens \<leftarrow> get_token_vector object ''promptTokens'';
    params \<leftarrow> Some (if prompt_tokens \<noteq> [] then params\<lparr>fp_prompt_tokens := Some prompt_tokens,
        fp_prompt_n_tokens := int (length prompt_tokens)\<rparr> else params);
    x \<leftarrow> get_string object ''language'';
    params \<leftarrow> Some (params\<lparr>fp_language := (if x \<noteq> None then x else fp_language params)\<rparr>);
    x \<leftarrow> get_bool object ''detectLanguage'' (fp_detect_language params);
    params \<leftarrow> Some (params\<lparr>fp_detect_language := x\<rparr>);
    x \<leftarrow> get_bool object ''suppressBlank'' (fp_suppress_blank params);
    params \<leftarrow> Some (params\<lparr>fp_suppress_blank := x\<rparr>);
    x \<leftarrow> get_bool object ''suppressNst'' (fp_suppress_nst params);
    params \<leftarrow> Some (params\<lparr>fp_suppress_nst := x\<rparr>);
    x \<leftarrow> get_float object ''temperature'' (fp_temperature params);
    params \<leftarrow> Some (params\<lparr>fp_temperature := x\<rparr>);
    x \<leftarrow> get_float object ''maxInitialTs'' (fp_max_initial_ts params);
    params \<leftarrow> Some (params\<lparr>fp_max_initial_ts := x\<rparr>);
    x \<leftarrow> get_float object ''lengthPenalty'' (fp_length_penalty params);
    params \<leftarrow> Some (params\<lparr>fp_length_penalty := x\<rparr>);
    x \<leftarrow> get_float object ''temperatureInc'' (fp_temperature_inc params);
    params \<leftarrow> Some (params\<lparr>fp_temperature_inc := x\<rparr>);
    x \<leftarrow> get_float object ''entropyThold'' (fp_entropy_thold params);
    params \<leftarrow> Some (params\<lparr>fp_entropy_thold := x\<rparr>);
    x \<leftarrow> get_float object ''logprobThold'' (fp_logprob_thold params);
    params \<leftarrow> Some (params\<lparr>fp_logprob_thold := x\<rparr>);
    x \<leftarrow> get_float object ''noSpeechThold'' (fp_no_speech_thold params);
    params \<leftarrow> Some (params\<lparr>fp_no_speech_thold := x\<rparr>);
    x \<leftarrow> get_int object ''greedyBestOf'' (fp_greedy_best_of params);
    params \<leftarrow> Some (params\<lparr>fp_greedy_best_of := x\<rparr>);
    x \<leftarrow> get_int object ''beamSize'' (fp_beam_search_beam_size params);
    params \<leftarrow> Some (params\<lparr>fp_beam_search_beam_size := x\<rparr>);
    x \<leftarrow> get_float object ''beamPatience'' (fp_beam_search_patience params);
    params \<leftarrow> Some (params\<lparr>fp_beam_search_patience := x\<rparr>);
    x \<leftarrow> get_bool object ''vad'' (fp_vad params);
    params \<leftarrow> Some (params\<lparr>fp_vad := x\<rparr>);
    x \<leftarrow> get_string object ''vadModelPath'';
    params \<leftarrow> Some (params\<lparr>fp_vad_model_path := (if x \<noteq> None then x else fp_vad_model_path params)\<rparr>);
    vad_params \<leftarrow> get_object object ''vadParams'';
    (case vad_params of None \<Rightarrow> Some params
       | Some v \<Rightarrow> do { x \<leftarrow> make_vad_params (Some v) (fp_vad_params params); Some (params\<lparr>fp_vad_params := x\<rparr>) })
    }
  }"

definition make_full_params_object :: "whisper_full_params \<Rightarrow> java_object option" where
  "make_full_params_object params = do {
    object \<leftarrow> Some full_params_class;
    object \<leftarrow> set_int object ''strategy'' (fp_strategy params);
    object \<leftarrow> set_int object ''nThreads'' (fp_n_threads params);
    object \<leftarrow> set_int object ''nMaxTextCtx'' (fp_n_max_text_ctx params);
    object \<leftarrow> set_int object ''offsetMs'' (fp_offset_ms params);
    object \<leftarrow> set_int object ''durationMs'' (fp_duration_ms params);
    object \<leftarrow> set_bool object ''translate'' (fp_translate params);
    object \<leftarrow> set_bool object ''noContext'' (fp_no_context params);
    object \<leftarrow> set_bool object ''noTimestamps'' (fp_no_timestamps params);
    object \<leftarrow> set_bool object ''singleSegment'' (fp_single_segment params);
    object \<leftarrow> set_bool object ''printSpecial'' (fp_print_special params);
    object \<leftarrow> set_bool object ''printProgress'' (fp_print_progress params);
    object \<leftarrow> set_bool object ''printRealtime'' (fp_print_realtime params);
    object \<leftarrow> set_bool object ''printTimestamps'' (fp_print_timestamps params);
    object \<leftarrow> set_bool object ''tokenTimestamps'' (fp_token_timestamps params);
    object \<leftarrow> set_float object ''tholdPt'' (fp_thold_pt params);
    object \<leftarrow> set_float object ''tholdPtsum'' (fp_thold_ptsum params);
    object \<leftarrow> set_int object ''maxLen'' (fp_max_len params);
    object \<leftarrow> set_bool object ''splitOnWord'' (fp_split_on_word params);
    object \<leftarrow> set_int object ''maxTokens'' (fp_max_tokens params);
    object \<leftarrow> set_bool object ''debugMode'' (fp_debug_mode params);
    object \<leftarrow> set_int object ''audioCtx'' (fp_audio_ctx params);
    object \<leftarrow> set_bool object ''tdrzEnable'' (fp_tdrz_enable params);
    object \<leftarrow> set_string object ''suppressRegex'' (fp_suppress_regex params);
    object \<leftarrow> set_string object ''initialPrompt'' (fp_initial_prompt params);
    object \<leftarrow> set_bool object ''carryInitialPrompt'' (fp_carry_initial_prompt params);
    object \<leftarrow> set_string object ''language'' (fp_language params);
    object \<leftarrow> set_bool object ''detectLanguage'' (fp_detect_language params);
    object \<leftarrow> set_bool object ''suppressBlank'' (fp_suppress_blank params);
    object \<leftarrow> set_bool object ''suppressNst'' (fp_suppress_nst params);
    object \<leftarrow> set_float object ''temperature'' (fp_temperature params);
    object \<leftarrow> set_float object ''maxInitialTs'' (fp_max_initial_ts params);
    object \<leftarrow> set_float object ''lengthPenalty'' (fp_length_penalty params);
    object \<leftarrow> set_float object ''temperatureInc'' (fp_temperature_inc params);
    object \<leftarrow> set_float object ''entropyThold'' (fp_entropy_thold params);
    object \<leftarrow> set_float object ''logprobThold'' (fp_logprob_thold params);
    object \<leftarrow> set_float object ''noSpeechThold'' (fp_no_speech_thold params);
    object \<leftarrow> set_int object ''greedyBestOf'' (fp_greedy_best_of params);
    object \<leftarrow> set_int object ''beamSize'' (fp_beam_search_beam_size params);
    object \<leftarrow> set_float object ''beamPatience'' (fp_beam_search_patience params);
    object \<leftarrow> set_bool object ''vad'' (fp_vad params);
    object \<leftarrow> set_string object ''vadModelPath'' (fp_vad_model_path params);
    vad_params \<leftarrow> make_vad_params_object (fp_vad_params params);
    object \<leftarrow> set_object object ''vadParams'' (Some vad_params);
    Some object
  }"

section \<open>Result objects\<close>

definition make_token_data_object :: "whisper_token_data \<Rightarrow> java_object option" where
  "make_token_data_object params = do {
    object \<leftarrow> Some token_data_class;
    object \<leftarrow> set_int object ''id'' (td_id params);
    object \<leftarrow> set_int object ''tid'' (td_tid params);
    object \<leftarrow> set_float object ''p'' (td_p params);
    object \<leftarrow> set_float object ''plog'' (td_plog params);
    object \<leftarrow> set_float object ''pt'' (td_pt params);
    object \<leftarrow> set_float object ''ptsum'' (td_ptsum params);
    object \<leftarrow> set_long object ''t0'' (td_t0 params);
    object \<leftarrow> set_long object ''t1'' (td_t1 params);
    object \<leftarrow> set_long object ''tDtw'' (td_t_dtw params);
    object \<leftarrow> set_float object ''vlen'' (td_vlen params);
    Some object
  }"

definition make_timings_object :: "whisper_timings \<Rightarrow> java_object option" where
  "make_timings_object params = do {
    object \<leftarrow> Some timings_class;
    object \<leftarrow> set_float object ''sampleMs'' (tm_sample_ms params);
    object \<leftarrow> set_float object ''encodeMs'' (tm_encode_ms params);
    object \<leftarrow> set_float object ''decodeMs'' (tm_decode_ms params);
    object \<leftarrow> set_float object ''batchdMs'' (tm_batchd_ms params);
    object \<leftarrow> set_float object ''promptMs'' (tm_prompt_ms params);
    Some object
  }"

definition make_lang_detection_object :: "int \<Rightarrow> real list \<Rightarrow> java_object option" where
  "make_lang_detection_object language_id probabilities = do {
    object \<leftarrow> Some lang_detection_class;
    object \<leftarrow> set_int object ''languageId'' language_id;
    object \<leftarrow> set_float_array object ''probabilities'' probabilities;
    Some object
  }"

definition int_array :: "int list \<Rightarrow> int \<Rightarrow> int list" where
  "int_array values count = (let count = max 0 (min count (int (length values))) in take (nat count) values)"

text \<open>A null pointer leaves the zeros of the new array.\<close>

definition float_array :: "real list option \<Rightarrow> int \<Rightarrow> real list" where
  "float_array values count =
     (let count = max 0 count
      in case values of None \<Rightarrow> replicate (nat count) 0 | Some xs \<Rightarrow> take (nat count) xs)"

text \<open>\<open>GetFloatArrayElements\<close> gives \<open>None\<close> when it cannot give the elements.\<close>

definition with_float_array :: "(real list \<Rightarrow> real list option) \<Rightarrow> real list option \<Rightarrow> (real list \<Rightarrow> int \<Rightarrow> int) \<Rightarrow> int" where
  "with_float_array elements array fn =
     (case array of None \<Rightarrow> - 1
      | Some xs \<Rightarrow> (case elements xs of None \<Rightarrow> - 1 | Some ys \<Rightarrow> fn ys (int (length xs))))"

primrec kind :: "java_value \<Rightarrow> nat" where
  "kind (JInt _) = 10"
| "kind (JLong _) = 11"
| "kind (JFloat _) = 12"
| "kind (JBool _) = 13"
| "kind (JString _) = 14"
| "kind (JIntArray _) = 15"
| "kind (JFloatArray _) = 16"
| "kind (JObject _) = 17"

definition field_kind :: "java_object \<Rightarrow> string \<Rightarrow> nat option" where
  "field_kind cls n = map_option kind (cls n)"

text \<open>An object under construction: the class with some fields written, the latest first.\<close>

primrec filled :: "java_object \<Rightarrow> (string \<times> java_value) list \<Rightarrow> java_object" where
  "filled cls [] = cls"
| "filled cls (nv # vals) = put_field (filled cls vals) (fst nv) (snd nv)"

definition well_kinded :: "java_object \<Rightarrow> (string \<times> java_value) list \<Rightarrow> bool" where
  "well_kinded cls vals \<longleftrightarrow> (\<forall>(n, v) \<in> set vals. field_kind cls n = Some (kind v))"

lemma well_kinded_simps:
  "well_kinded cls [] = True"
  "well_kinded cls ((n, v) # vals) = (field_kind cls n = Some (kind v) \<and> well_kinded cls vals)"
  by (simp_all add: well_kinded_def)

lemma filled_kind: "well_kinded cls vals \<Longrightarrow> map_option kind (filled cls vals n) = field_kind cls n"
  by (induction vals) (auto simp: well_kinded_def put_field_def field_kind_def)

lemma kind_eq:
  "kind v = 10 \<longleftrightarrow> (\<exists>y. v = JInt y)"
  "kind v = 11 \<longleftrightarrow> (\<exists>y. v = JLong y)"
  "kind v = 12 \<longleftrightarrow> (\<exists>y. v = JFloat y)"
  "kind v = 13 \<longleftrightarrow> (\<exists>y. v = JBool y)"
  "kind v = 14 \<longleftrightarrow> (\<exists>y. v = JString y)"
  "kind v = 17 \<longleftrightarrow> (\<exists>y. v = JObject y)"
  by (cases v; simp)+

lemma set_field_steps:
  assumes "well_kinded cls vals"
  shows "field_kind cls n = Some 10 \<Longrightarrow> set_int (filled cls vals) n xi = Some (filled cls ((n, JInt xi) # vals))"
    and "field_kind cls n = Some 11 \<Longrightarrow> set_long (filled cls vals) n xl = Some (filled cls ((n, JLong xl) # vals))"
    and "field_kind cls n = Some 12 \<Longrightarrow> set_float (filled cls vals) n xf = Some (filled cls ((n, JFloat xf) # vals))"
    and "field_kind cls n = Some 13 \<Longrightarrow> set_bool (filled cls vals) n xb = Some (filled cls ((n, JBool xb) # vals))"
    and "field_kind cls n = Some 14 \<Longrightarrow> set_string (filled cls vals) n xs = Some (filled cls ((n, JString xs) # vals))"
    and "field_kind cls n = Some 17 \<Longrightarrow> set_object (filled cls vals) n xo = Some (filled cls ((n, JObject xo) # vals))"
  using filled_kind [OF assms, of n]
  by (auto simp: set_int_def set_long_def set_float_def set_bool_def set_string_def set_object_def kind_eq)

lemmas set_field_start = set_field_steps [where vals = "[]", unfolded filled.simps(1) well_kinded_simps(1), OF TrueI]

lemma put_field_get:
  "put_field ob n v n = Some v"
  "m \<noteq> n \<Longrightarrow> put_field ob n v m = ob m"
  by (simp_all add: put_field_def)

lemma class_fields:
   "field_kind context_params_class ''useGpu'' = Some 13"
    "field_kind context_params_class ''flashAttn'' = Some 13"
    "field_kind context_params_class ''gpuDevice'' = Some 10"
    "field_kind context_params_class ''dtwTokenTimestamps'' = Some 13"
    "field_kind context_params_class ''dtwAheadsPreset'' = Some 10"
    "field_kind context_params_class ''dtwNTop'' = Some 10"
    "field_kind context_params_class ''dtwMemSize'' = Some 11"
    "field_kind vad_params_class ''threshold'' = Some 12"
    "field_kind vad_params_class ''minSpeechDurationMs'' = Some 10"
    "field_kind vad_params_class ''minSilenceDurationMs'' = Some 10"
    "field_kind vad_params_class ''maxSpeechDurationS'' = Some 12"
    "field_kind vad_params_class ''speechPadMs'' = Some 10"
    "field_kind vad_params_class ''samplesOverlap'' = Some 12"
    "field_kind vad_context_params_class ''nThreads'' = Some 10"
    "field_kind vad_context_params_class ''useGpu'' = Some 13"
    "field_kind vad_context_params_class ''gpuDevice'' = Some 10"
    "field_kind full_params_class ''strategy'' = Some 10"
    "field_kind full_params_class ''nThreads'' = Some 10"
    "field_kind full_params_class ''nMaxTextCtx'' = Some 10"
    "field_kind full_params_class ''offsetMs'' = Some 10"
    "field_kind full_params_class ''durationMs'' = Some 10"
    "field_kind full_params_class ''translate'' = Some 13"
    "field_kind full_params_class ''noContext'' = Some 13"
    "field_kind full_params_class ''noTimestamps'' = Some 13"
    "field_kind full_params_class ''singleSegment'' = Some 13"
    "field_kind full_params_class ''printSpecial'' = Some 13"
    "field_kind full_params_class ''printProgress'' = Some 13"
    "field_kind full_params_class ''printRealtime'' = Some 13"
    "field_kind full_params_class ''printTimestamps'' = Some 13"
    "field_kind full_params_class ''tokenTimestamps'' = Some 13"
    "field_kind full_params_class ''tholdPt'' = Some 12"
    "field_kind full_params_class ''tholdPtsum'' = Some 12"
    "field_kind full_params_class ''maxLen'' = Some 10"
    "field_kind full_params_class ''splitOnWord'' = Some 13"
    "field_kind full_params_class ''maxTokens'' = Some 10"
    "field_kind full_params_class ''debugMode'' = Some 13"
    "field_kind full_params_class ''audioCtx'' = Some 10"
    "field_kind full_params_class ''tdrzEnable'' = Some 13"
    "field_kind full_params_class ''suppressRegex'' = Some 14"
    "field_kind full_params_class ''initialPrompt'' = Some 14"
    "field_kind full_params_class ''carryInitialPrompt'' = Some 13"
    "field_kind full_params_class ''promptTokens'' = Some 15"
    "field_kind full_params_class ''language'' = Some 14"
    "field_kind full_params_class ''detectLanguage'' = Some 13"
    "field_kind full_params_class ''suppressBlank'' = Some 13"
    "field_kind full_params_class ''suppressNst'' = Some 13"
    "field_kind full_params_class ''temperature'' = Some 12"
    "field_kind full_params_class ''maxInitialTs'' = Some 12"
    "field_kind full_params_class ''lengthPenalty'' = Some 12"
    "field_kind full_params_class ''temperatureInc'' = Some 12"
    "field_kind full_params_class ''entropyThold'' = Some 12"
    "field_kind full_params_class ''logprobThold'' = Some 12"
    "field_kind full_params_class ''noSpeechThold'' = Some 12"
    "field_kind full_params_class ''greedyBestOf'' = Some 10"
    "field_kind full_params_class ''beamSize'' = Some 10"
    "field_kind full_params_class ''beamPatience'' = Some 12"
    "field_kind full_params_class ''vad'' = Some 13"
    "field_kind full_params_class ''vadModelPath'' = Some 14"
    "field_kind full_params_class ''vadParams'' = Some 17"
  by (simp_all add: field_kind_def context_params_class_def vad_params_class_def vad_context_params_class_def full_params_class_def)

lemmas object_steps = set_field_start [where cls = full_params_class] set_field_start [where cls = vad_params_class]
  set_field_start [where cls = context_params_class] set_field_start [where cls = vad_context_params_class]
  set_field_steps well_kinded_simps class_fields kind.simps bind.bind_lunit simp_thms

lemma class_tokens: "full_params_class ''promptTokens'' = Some (JIntArray None)"
  by (simp add: full_params_class_def)


lemma make_vad_params_object_get:
  "case make_vad_params_object p of None \<Rightarrow> False | Some ob \<Rightarrow> make_vad_params (Some ob) fallback = Some p"
  by (simp only: make_vad_params_object_def object_steps option.case)
    (simp add: make_vad_params_def get_int_def get_float_def put_field_get filled.simps)

lemma make_full_params_object_fields:
  "case make_full_params_object p of None \<Rightarrow> False | Some ob \<Rightarrow>
    case make_vad_params_object (fp_vad_params p) of None \<Rightarrow> False | Some vp \<Rightarrow>
     ob ''strategy'' = Some (JInt (fp_strategy p))
    \<and> ob ''nThreads'' = Some (JInt (fp_n_threads p))
    \<and> ob ''nMaxTextCtx'' = Some (JInt (fp_n_max_text_ctx p))
    \<and> ob ''offsetMs'' = Some (JInt (fp_offset_ms p))
    \<and> ob ''durationMs'' = Some (JInt (fp_duration_ms p))
    \<and> ob ''translate'' = Some (JBool (fp_translate p))
    \<and> ob ''noContext'' = Some (JBool (fp_no_context p))
    \<and> ob ''noTimestamps'' = Some (JBool (fp_no_timestamps p))
    \<and> ob ''singleSegment'' = Some (JBool (fp_single_segment p))
    \<and> ob ''printSpecial'' = Some (JBool (fp_print_special p))
    \<and> ob ''printProgress'' = Some (JBool (fp_print_progress p))
    \<and> ob ''printRealtime'' = Some (JBool (fp_print_realtime p))
    \<and> ob ''printTimestamps'' = Some (JBool (fp_print_timestamps p))
    \<and> ob ''tokenTimestamps'' = Some (JBool (fp_token_timestamps p))
    \<and> ob ''tholdPt'' = Some (JFloat (fp_thold_pt p))
    \<and> ob ''tholdPtsum'' = Some (JFloat (fp_thold_ptsum p))
    \<and> ob ''maxLen'' = Some (JInt (fp_max_len p))
    \<and> ob ''splitOnWord'' = Some (JBool (fp_split_on_word p))
    \<and> ob ''maxTokens'' = Some (JInt (fp_max_tokens p))
    \<and> ob ''debugMode'' = Some (JBool (fp_debug_mode p))
    \<and> ob ''audioCtx'' = Some (JInt (fp_audio_ctx p))
    \<and> ob ''tdrzEnable'' = Some (JBool (fp_tdrz_enable p))
    \<and> ob ''suppressRegex'' = Some (JString (fp_suppress_regex p))
    \<and> ob ''initialPrompt'' = Some (JString (fp_initial_prompt p))
    \<and> ob ''carryInitialPrompt'' = Some (JBool (fp_carry_initial_prompt p))
    \<and> ob ''language'' = Some (JString (fp_language p))
    \<and> ob ''detectLanguage'' = Some (JBool (fp_detect_language p))
    \<and> ob ''suppressBlank'' = Some (JBool (fp_suppress_blank p))
    \<and> ob ''suppressNst'' = Some (JBool (fp_suppress_nst p))
    \<and> ob ''temperature'' = Some (JFloat (fp_temperature p))
    \<and> ob ''maxInitialTs'' = Some (JFloat (fp_max_initial_ts p))
    \<and> ob ''lengthPenalty'' = Some (JFloat (fp_length_penalty p))
    \<and> ob ''temperatureInc'' = Some (JFloat (fp_temperature_inc p))
    \<and> ob ''entropyThold'' = Some (JFloat (fp_entropy_thold p))
    \<and> ob ''logprobThold'' = Some (JFloat (fp_logprob_thold p))
    \<and> ob ''noSpeechThold'' = Some (JFloat (fp_no_speech_thold p))
    \<and> ob ''greedyBestOf'' = Some (JInt (fp_greedy_best_of p))
    \<and> ob ''beamSize'' = Some (JInt (fp_beam_search_beam_size p))
    \<and> ob ''beamPatience'' = Some (JFloat (fp_beam_search_patience p))
    \<and> ob ''vad'' = Some (JBool (fp_vad p))
    \<and> ob ''vadModelPath'' = Some (JString (fp_vad_model_path p))
    \<and> ob ''promptTokens'' = Some (JIntArray None)
    \<and> ob ''vadParams'' = Some (JObject (Some vp))"

  by (simp only: make_full_params_object_def make_vad_params_object_def object_steps option.case)
    (simp add: put_field_get class_tokens filled.simps fst_conv snd_conv)

text \<open>What the Java object does not carry comes back as the default.\<close>

definition without_native_fields :: "whisper_full_params \<Rightarrow> whisper_full_params" where
  "without_native_fields p = p\<lparr>fp_prompt_tokens := None, fp_prompt_n_tokens := 0,
     fp_language := (if fp_language p = None then Some ''en'' else fp_language p),
     fp_new_segment_callback := None, fp_progress_callback := None, fp_encoder_begin_callback := None,
     fp_abort_callback := None, fp_logits_filter_callback := None, fp_grammar_rules := None,
     fp_n_grammar_rules := 0, fp_i_start_rule := 0, fp_grammar_penalty := 100\<rparr>"

lemma get_field_steps:
  "ob n = Some (JInt i) \<Longrightarrow> get_int (Some ob) n a = Some i"
  "ob n = Some (JLong i) \<Longrightarrow> get_long (Some ob) n a = Some i"
  "ob n = Some (JFloat x) \<Longrightarrow> get_float (Some ob) n r = Some x"
  "ob n = Some (JBool b) \<Longrightarrow> get_bool (Some ob) n c = Some b"
  "ob n = Some (JString s) \<Longrightarrow> get_string (Some ob) n = Some s"
  "ob n = Some (JIntArray t) \<Longrightarrow> get_token_vector (Some ob) n = Some (tokens_from_array t)"
  "ob n = Some (JObject d) \<Longrightarrow> get_object (Some ob) n = Some d"
  by (simp_all add: get_int_def get_long_def get_float_def get_bool_def get_string_def get_object_def get_token_vector_def)

lemma make_full_params_from_fields:
  assumes "ob ''strategy'' = Some (JInt (fp_strategy p))"
    and "ob ''nThreads'' = Some (JInt (fp_n_threads p))"
    and "ob ''nMaxTextCtx'' = Some (JInt (fp_n_max_text_ctx p))"
    and "ob ''offsetMs'' = Some (JInt (fp_offset_ms p))"
    and "ob ''durationMs'' = Some (JInt (fp_duration_ms p))"
    and "ob ''translate'' = Some (JBool (fp_translate p))"
    and "ob ''noContext'' = Some (JBool (fp_no_context p))"
    and "ob ''noTimestamps'' = Some (JBool (fp_no_timestamps p))"
    and "ob ''singleSegment'' = Some (JBool (fp_single_segment p))"
    and "ob ''printSpecial'' = Some (JBool (fp_print_special p))"
    and "ob ''printProgress'' = Some (JBool (fp_print_progress p))"
    and "ob ''printRealtime'' = Some (JBool (fp_print_realtime p))"
    and "ob ''printTimestamps'' = Some (JBool (fp_print_timestamps p))"
    and "ob ''tokenTimestamps'' = Some (JBool (fp_token_timestamps p))"
    and "ob ''tholdPt'' = Some (JFloat (fp_thold_pt p))"
    and "ob ''tholdPtsum'' = Some (JFloat (fp_thold_ptsum p))"
    and "ob ''maxLen'' = Some (JInt (fp_max_len p))"
    and "ob ''splitOnWord'' = Some (JBool (fp_split_on_word p))"
    and "ob ''maxTokens'' = Some (JInt (fp_max_tokens p))"
    and "ob ''debugMode'' = Some (JBool (fp_debug_mode p))"
    and "ob ''audioCtx'' = Some (JInt (fp_audio_ctx p))"
    and "ob ''tdrzEnable'' = Some (JBool (fp_tdrz_enable p))"
    and "ob ''suppressRegex'' = Some (JString (fp_suppress_regex p))"
    and "ob ''initialPrompt'' = Some (JString (fp_initial_prompt p))"
    and "ob ''carryInitialPrompt'' = Some (JBool (fp_carry_initial_prompt p))"
    and "ob ''language'' = Some (JString (fp_language p))"
    and "ob ''detectLanguage'' = Some (JBool (fp_detect_language p))"
    and "ob ''suppressBlank'' = Some (JBool (fp_suppress_blank p))"
    and "ob ''suppressNst'' = Some (JBool (fp_suppress_nst p))"
    and "ob ''temperature'' = Some (JFloat (fp_temperature p))"
    and "ob ''maxInitialTs'' = Some (JFloat (fp_max_initial_ts p))"
    and "ob ''lengthPenalty'' = Some (JFloat (fp_length_penalty p))"
    and "ob ''temperatureInc'' = Some (JFloat (fp_temperature_inc p))"
    and "ob ''entropyThold'' = Some (JFloat (fp_entropy_thold p))"
    and "ob ''logprobThold'' = Some (JFloat (fp_logprob_thold p))"
    and "ob ''noSpeechThold'' = Some (JFloat (fp_no_speech_thold p))"
    and "ob ''greedyBestOf'' = Some (JInt (fp_greedy_best_of p))"
    and "ob ''beamSize'' = Some (JInt (fp_beam_search_beam_size p))"
    and "ob ''beamPatience'' = Some (JFloat (fp_beam_search_patience p))"
    and "ob ''vad'' = Some (JBool (fp_vad p))"
    and "ob ''vadModelPath'' = Some (JString (fp_vad_model_path p))"
    and "ob ''promptTokens'' = Some (JIntArray None)"
    and "ob ''vadParams'' = Some (JObject (Some vp))"
    and "make_vad_params (Some vp) (fp_vad_params (whisper_full_default_params hw (fp_strategy p))) = Some (fp_vad_params p)"
  shows "make_full_params hw (Some ob) = Some (without_native_fields p)"
  using assms(44)
  by (simp only: make_full_params_def get_field_steps assms(1-43) bind.bind_lunit option.case tokens_from_array_def
      option.distinct simp_thms if_False if_True) 
   (simp add: whisper_full_default_params_def without_native_fields_def)


lemma vad_context_params_object_get:
  "\<exists>ob. make_vad_context_params_object c = Some ob \<and> make_vad_context_params (Some ob) = Some c"
  by (simp add: make_vad_context_params_object_def make_vad_context_params_def vad_context_params_class_def
      set_int_def set_bool_def put_field_def get_int_def get_bool_def)

lemma context_params_object_get:
  "\<exists>ob. make_context_params_object p = Some ob \<and> make_context_params (Some ob) = Some (p\<lparr>cp_dtw_aheads := []\<rparr>)"
  by (simp add: make_context_params_object_def make_context_params_def context_params_class_def
      set_int_def set_bool_def set_long_def put_field_def get_int_def get_bool_def get_long_def
      whisper_context_default_params_def word_to_long_def)

text \<open>The context parameters survive the way through the Java object, apart from a custom list of
  alignment heads, and so do both kinds of VAD parameters.\<close>

theorem context_params_roundtrip:
  "(\<exists>ob. make_context_params_object p = Some ob \<and> make_context_params (Some ob) = Some (p\<lparr>cp_dtw_aheads := []\<rparr>))
   \<and> (\<exists>ob. make_vad_params_object v = Some ob \<and> make_vad_params (Some ob) fallback = Some v)
   \<and> (\<exists>ob. make_vad_context_params_object c = Some ob \<and> make_vad_context_params (Some ob) = Some c)"
  using context_params_object_get [of p] make_vad_params_object_get [where p = v and fallback = fallback] vad_context_params_object_get [of c]
  by (auto split: option.splits)

section \<open>Full transcription of PCM16 buffers\<close>

text \<open>The check is in 64-bit arithmetic, and unsigned because of \<open>sizeof\<close>.\<close>

definition range_is_valid :: "int \<Rightarrow> int \<Rightarrow> int \<Rightarrow> bool" where
  "range_is_valid pcm_capacity byte_offset sample_count \<longleftrightarrow>
     byte_offset \<ge> 0 \<and> byte_offset AND 1 = 0 \<and> sample_count \<ge> 0
     \<and> (word_of_int byte_offset :: 64 word) + word_of_int sample_count * 2 \<le> word_of_int pcm_capacity"

text \<open>The samples a pointer into a little-endian buffer reads.\<close>

fun int16_view :: "u8 list \<Rightarrow> u16 list" where
  "int16_view (lo # hi # bytes) = (ucast lo OR push_bit 8 (ucast hi)) # int16_view bytes"
| "int16_view _ = []"

record direct_buffer =
  db_address :: "u8 list option"
  db_capacity :: int

datatype jni_exception = IllegalArgumentException string | IllegalStateException string

definition pcm_error_message :: "pcm_error \<Rightarrow> string" where
  "pcm_error_message e = (case e of
     NullSpan \<Rightarrow> ''PCM16 span pointer is null''
   | SpanLengthOverflow \<Rightarrow> ''PCM16 span length overflow'')"

text \<open>\<open>whisper_full\<close> is the call on the context; the result is the pending exception and the returned
  code, or \<open>None\<close> for an exception from the parameter object.\<close>

definition full_pcm16 ::
  "bool \<Rightarrow> (whisper_full_params \<Rightarrow> real list \<Rightarrow> int \<Rightarrow> int) \<Rightarrow> int \<Rightarrow> java_object option \<Rightarrow> direct_buffer option
    \<Rightarrow> int \<Rightarrow> int \<Rightarrow> int \<Rightarrow> int \<Rightarrow> (jni_exception option \<times> int) option" where
  "full_pcm16 neon whisper_full hw params_object pcm_data first_byte_offset first_sample_count
       second_byte_offset second_sample_count =
     (case pcm_data of None \<Rightarrow> Some (None, - 1)
      | Some buffer \<Rightarrow>
         case db_address buffer of
           None \<Rightarrow> Some (Some (IllegalArgumentException ''samples must be a DirectByteBuffer''), - 1)
         | Some pcm_bytes \<Rightarrow>
            if db_capacity buffer < 0
            then Some (Some (IllegalArgumentException ''samples must be a DirectByteBuffer''), - 1)
            else if \<not> range_is_valid (db_capacity buffer) first_byte_offset first_sample_count
                 \<or> \<not> range_is_valid (db_capacity buffer) second_byte_offset second_sample_count
            then Some (Some (IllegalArgumentException ''PCM16 range is outside samples''), - 1)
            else
              (case make_full_params hw params_object of None \<Rightarrow> None
               | Some params \<Rightarrow>
                  (case pcm16_spans_to_float_vector neon
                          (Some (int16_view (drop (nat first_byte_offset) pcm_bytes))) (nat first_sample_count)
                          (Some (int16_view (drop (nat second_byte_offset) pcm_bytes))) (nat second_sample_count) [] of
                     Inl e \<Rightarrow> Some (Some (IllegalArgumentException (pcm_error_message e)), - 1)
                   | Inr samples \<Rightarrow> Some (None, whisper_full params samples (int (length samples))))))"

lemma even_and_1: "(x :: int) AND 1 = 0 \<longleftrightarrow> even x"
  by (simp add: and_one_eq even_iff_mod_2_eq_zero)

lemma range_is_valid_iff:
  assumes "byte_offset < 2 ^ 31" and "sample_count < 2 ^ 31" and "0 \<le> capacity" and "capacity < 2 ^ 63"
  shows "range_is_valid capacity byte_offset sample_count \<longleftrightarrow>
    0 \<le> byte_offset \<and> even byte_offset \<and> 0 \<le> sample_count \<and> byte_offset + 2 * sample_count \<le> capacity"
proof (cases "0 \<le> byte_offset \<and> 0 \<le> sample_count")
  case True
  have sum: "(word_of_int byte_offset :: 64 word) + word_of_int sample_count * 2 = word_of_int (byte_offset + sample_count * 2)"
    by simp
  have "uint (word_of_int (byte_offset + sample_count * 2) :: 64 word) = byte_offset + sample_count * 2"
    using True assms(1,2) unfolding uint_word_of_int take_bit_eq_mod by simp
  moreover have "uint (word_of_int capacity :: 64 word) = capacity"
    using assms(3,4) by (simp add: uint_word_of_int take_bit_eq_mod)
  ultimately show ?thesis
    using True unfolding range_is_valid_def even_and_1 word_le_def sum by auto
qed (auto simp: range_is_valid_def)

lemma length_int16_view: "length (int16_view bytes) = length bytes div 2"
  by (induction bytes rule: int16_view.induct) simp_all

lemma samples_inside:
  assumes "range_is_valid (int (length bytes)) off cnt" and "off < 2 ^ 31" and "cnt < 2 ^ 31"
    and "int (length bytes) < 2 ^ 63"
  shows "nat cnt \<le> length (int16_view (drop (nat off) bytes))"
proof -
  have "0 \<le> off" "0 \<le> cnt" "off + 2 * cnt \<le> int (length bytes)"
    using assms range_is_valid_iff [of off cnt "int (length bytes)"] by auto
  then show ?thesis by (simp add: length_int16_view)
qed


text \<open>C15: for offsets and counts of Java ints on a direct buffer, the entry point runs the
  transcription exactly when both ranges are even, non-negative and inside the buffer, and then on
  the samples of the two ranges in order; otherwise it returns -1 with an IllegalArgumentException
  pending, and the transcription is not run.\<close>

theorem full_pcm16_correct:
  assumes "make_full_params hw params_object = Some params"
    and "off1 < 2 ^ 31" and "cnt1 < 2 ^ 31" and "off2 < 2 ^ 31" and "cnt2 < 2 ^ 31"
    and "int (length bytes) < 2 ^ 63"
  shows "full_pcm16 neon whisper_full hw params_object (Some \<lparr>db_address = Some bytes, db_capacity = int (length bytes)\<rparr>)
      off1 cnt1 off2 cnt2 =
    (if 0 \<le> off1 \<and> even off1 \<and> 0 \<le> cnt1 \<and> off1 + 2 * cnt1 \<le> int (length bytes)
        \<and> 0 \<le> off2 \<and> even off2 \<and> 0 \<le> cnt2 \<and> off2 + 2 * cnt2 \<le> int (length bytes)
     then let samples = map scale_sample (take (nat cnt1) (int16_view (drop (nat off1) bytes))
                @ take (nat cnt2) (int16_view (drop (nat off2) bytes)))
          in Some (None, whisper_full params samples (cnt1 + cnt2))
     else Some (Some (IllegalArgumentException ''PCM16 range is outside samples''), - 1))"
proof -
  note valid = range_is_valid_iff [where capacity = "int (length bytes)"]
  show ?thesis
  proof (cases "range_is_valid (int (length bytes)) off1 cnt1 \<and> range_is_valid (int (length bytes)) off2 cnt2")
    case True
    then have len: "nat cnt1 \<le> length (int16_view (drop (nat off1) bytes))" "nat cnt2 \<le> length (int16_view (drop (nat off2) bytes))"
      and pos: "0 \<le> cnt1" "0 \<le> cnt2" "nat cnt1 + nat cnt2 \<le> size_max"
      using assms(2-6) samples_inside valid [of off1 cnt1] valid [of off2 cnt2] by (auto simp: size_max_def)
    let ?s = "map scale_sample (take (nat cnt1) (int16_view (drop (nat off1) bytes))
                @ take (nat cnt2) (int16_view (drop (nat off2) bytes)))"
    have "pcm16_spans_to_float_vector neon (Some (int16_view (drop (nat off1) bytes))) (nat cnt1)
        (Some (int16_view (drop (nat off2) bytes))) (nat cnt2) [] = Inr ?s"
      using len pos(3) by (rule pcm16_spans_eq)
    moreover have "int (length ?s) = cnt1 + cnt2" using len pos by simp
    ultimately show ?thesis
      using True assms valid [of off1 cnt1] valid [of off2 cnt2] by (simp add: full_pcm16_def)
  next
    case False
    then show ?thesis
      using assms valid [of off1 cnt1] valid [of off2 cnt2] by (auto simp: full_pcm16_def)
  qed
qed

theorem full_pcm16_correct_witness:
  "full_pcm16 True (\<lambda>params samples n. n) 8 None (Some \<lparr>db_address = Some [0, 64, 0, 128], db_capacity = 4\<rparr>) 2 1 0 1
    = Some (None, 2)"
  using full_pcm16_correct [of 8 None "whisper_full_default_params 8 0" 2 1 0 1 "[0, 64, 0, 128]" True "\<lambda>params samples n. n"]
  by (simp add: make_full_params_def get_int_def WHISPER_SAMPLING_GREEDY_def)

end
