(* ===== verification/CTranslate2Jni.thy ===== *)
theory CTranslate2Jni
  imports VadFilter PromptTokenizer FeatureSchedule WhisperBridge
begin

unbundle bit_operations_syntax

text \<open>
  CTranslate2/ctranslate2-jni.cpp: the native handle and the three entry points create, destroy and
  transcribe, composed of the PCM converter, the speech filter, the feature extractor, the prompt
  tokenizer, the token decoder and the UTF converters. The CTranslate2 model is the record
  \<open>ct2_model\<close> of the calls made on it; the Silero network, the loaders and the texts of library
  exceptions are parameters. The entry points return the pending Java exception or the result, and
  the new state of the handle.
\<close>

section \<open>The handle\<close>

record whisper_options =
  op_beam_size :: nat
  op_max_length :: nat
  op_sampling_topk :: nat
  op_return_scores :: bool
  op_return_no_speech_prob :: bool
  op_patience :: real
  op_num_hypotheses :: nat
  op_sampling_temperature :: real

text \<open>The calls take the shape and data of the features; \<open>ct_generate\<close> returns the sequences of the
  first result.\<close>

record ct2_model =
  ct_n_mels :: nat
  ct_detect_language :: "nat \<Rightarrow> real list \<Rightarrow> std_exception + (u8 list \<times> real) list"
  ct_generate :: "nat \<Rightarrow> real list \<Rightarrow> u8 list list list \<Rightarrow> whisper_options \<Rightarrow> std_exception + u8 list list list"

record 's whisper_handle =
  h_model :: "ct2_model option"
  h_tokenizer :: tokenizer
  h_pcm_samples :: "real list"
  h_vad_samples :: "real list"
  h_mel_features :: "real list"
  h_feature_workspace :: feature_workspace
  h_vad_context :: "'s whisper_vad_context option"

section \<open>Strings and exceptions\<close>

text \<open>A Java string: null, or its units, which JNI may fail to hand out.\<close>

type_synonym jstring = "u16 list option option"

definition jstring_utf8 :: "jstring \<Rightarrow> text_error + u8 list" where
  "jstring_utf8 str =
     (case str of None \<Rightarrow> Inr []
      | Some None \<Rightarrow> Inr []
      | Some (Some chars) \<Rightarrow> utf16_to_utf8_replacing_invalid (Some chars) (length chars))"

definition new_java_string_from_utf8 :: "u8 list \<Rightarrow> u16 list" where
  "new_java_string_from_utf8 str = utf8_to_utf16_replacing_invalid str"

definition bytes_of :: "string \<Rightarrow> u8 list" where
  "bytes_of str = map (\<lambda>c. word_of_nat (of_char c)) str"

definition string_of :: "u8 list \<Rightarrow> string" where
  "string_of bytes = map (\<lambda>b. char_of (unat b)) bytes"

text \<open>The catch clauses of the entry points.\<close>

definition throw_java :: "std_exception \<Rightarrow> jni_exception" where
  "throw_java error = (case error of
     Invalid_argument what \<Rightarrow> IllegalArgumentException what
   | Runtime_error what \<Rightarrow> IllegalStateException what)"

text \<open>\<open>Runtime_error\<close> stands for every exception that is not an \<open>invalid_argument\<close>; \<open>what\<close> is the text of
  the library's own exceptions.\<close>

definition pcm_exception :: "pcm_error \<Rightarrow> std_exception" where
  "pcm_exception e = (case e of
     NullSpan \<Rightarrow> Invalid_argument (pcm_error_message e)
   | SpanLengthOverflow \<Rightarrow> Runtime_error (pcm_error_message e))"

definition feature_exception :: "feature_error \<Rightarrow> std_exception" where
  "feature_exception e = (case e of NMelsNotPositive \<Rightarrow> Invalid_argument ''n_mels must be greater than 0'')"

definition text_exception :: "text_error \<Rightarrow> std_exception" where
  "text_exception e = (case e of NullText \<Rightarrow> Invalid_argument ''UTF-16 text must not be null when length is nonzero'')"

definition tokenizer_exception :: "(tokenizer_error \<Rightarrow> string) \<Rightarrow> u8 list \<Rightarrow> tokenizer_error \<Rightarrow> std_exception" where
  "tokenizer_exception what model_directory e = (case e of
     InvalidCodePoint \<Rightarrow> Invalid_argument ''invalid Unicode code point''
   | TokenizerJsonNotFound \<Rightarrow> Runtime_error (''tokenizer.json not found: '' @ string_of model_directory)
   | JsonException \<Rightarrow> Runtime_error (what e)
   | MergesEmpty \<Rightarrow> Runtime_error ''BPE merges is empty in tokenizer.json''
   | UnsupportedMergeType \<Rightarrow> Runtime_error ''unsupported BPE merge type in tokenizer.json''
   | InvalidArrayMerge \<Rightarrow> Runtime_error ''invalid array BPE merge in tokenizer.json''
   | InvalidStringMerge \<Rightarrow> Runtime_error ''invalid string BPE merge in tokenizer.json''
   | EmptyMergeToken \<Rightarrow> Runtime_error ''empty BPE merge token in tokenizer.json''
   | OutOfRange \<Rightarrow> Runtime_error (what e)
   | NotInVocabulary \<Rightarrow> Runtime_error ''prompt token is not in Whisper vocabulary'')"

definition lift_error :: "('e \<Rightarrow> std_exception) \<Rightarrow> 'e + 'a \<Rightarrow> std_exception + 'a" where
  "lift_error f r = (case r of Inl e \<Rightarrow> Inl (f e) | Inr x \<Rightarrow> Inr x)"

section \<open>create and destroy\<close>

text \<open>The body of the \<open>try\<close> block. \<open>new_model\<close> takes the model path, the compute type and the number of
  threads, \<open>tokenizer_json\<close> is the parsed tokenizer.json of a directory.\<close>

definition create_handle ::
  "(tokenizer_error \<Rightarrow> string) \<Rightarrow> (u8 list \<Rightarrow> u8 list \<Rightarrow> nat \<Rightarrow> std_exception + ct2_model) \<Rightarrow> (u8 list \<Rightarrow> json option option)
    \<Rightarrow> (string \<Rightarrow> whisper_vad_context_params \<Rightarrow> 's whisper_vad_context option)
    \<Rightarrow> jstring \<Rightarrow> jstring \<Rightarrow> jstring \<Rightarrow> int \<Rightarrow> std_exception + 's whisper_handle" where
  "create_handle what new_model tokenizer_json vad_init model_directory compute_type vad_model_path threads =
     (case lift_error text_exception (jstring_utf8 model_directory) of Inl e \<Rightarrow> Inl e | Inr model_path \<Rightarrow>
     (case lift_error text_exception (jstring_utf8 compute_type) of Inl e \<Rightarrow> Inl e | Inr compute \<Rightarrow>
     (case lift_error text_exception (jstring_utf8 vad_model_path) of Inl e \<Rightarrow> Inl e | Inr vad_path \<Rightarrow>
      if model_path = [] then Inl (Invalid_argument ''modelDirectory must not be empty'')
      else if threads \<le> 0 then Inl (Invalid_argument ''threads must be greater than 0'')
      else
     (case new_model model_path compute (nat threads) of Inl e \<Rightarrow> Inl e | Inr model \<Rightarrow>
     (case lift_error (tokenizer_exception what model_path) (load_tokenizer (tokenizer_json model_path)) of
        Inl e \<Rightarrow> Inl e | Inr tok \<Rightarrow>
     (case (if vad_path = [] then Inr None
            else case create_whisper_vad_context vad_init (string_of vad_path) of
                   Inl e \<Rightarrow> Inl e | Inr vctx \<Rightarrow> Inr (Some vctx)) of
        Inl e \<Rightarrow> Inl e | Inr vad_context \<Rightarrow>
     (case lift_error feature_exception
             (prepare_whisper_feature_workspace (ct_n_mels model) empty_workspace (nat threads)) of
        Inl e \<Rightarrow> Inl e | Inr workspace \<Rightarrow>
        Inr \<lparr>h_model = Some model, h_tokenizer = tok, h_pcm_samples = [], h_vad_samples = [],
             h_mel_features = replicate (ct_n_mels model * 3000) 0, h_feature_workspace = workspace,
             h_vad_context = vad_context\<rparr>)))))))"

text \<open>The handle is \<open>None\<close> for the returned 0.\<close>

definition create ::
  "(tokenizer_error \<Rightarrow> string) \<Rightarrow> (u8 list \<Rightarrow> u8 list \<Rightarrow> nat \<Rightarrow> std_exception + ct2_model) \<Rightarrow> (u8 list \<Rightarrow> json option option)
    \<Rightarrow> (string \<Rightarrow> whisper_vad_context_params \<Rightarrow> 's whisper_vad_context option)
    \<Rightarrow> jstring \<Rightarrow> jstring \<Rightarrow> jstring \<Rightarrow> int \<Rightarrow> jni_exception option \<times> 's whisper_handle option" where
  "create what new_model tokenizer_json vad_init model_directory compute_type vad_model_path threads =
     (case create_handle what new_model tokenizer_json vad_init model_directory compute_type vad_model_path threads of
        Inl e \<Rightarrow> (Some (throw_java e), None)
      | Inr handle \<Rightarrow> (None, Some handle))"

section \<open>transcribe\<close>

definition validate_span :: "int \<Rightarrow> int \<Rightarrow> int \<Rightarrow> string \<Rightarrow> std_exception + unit" where
  "validate_span pcm_capacity byte_offset sample_count name =
     (if byte_offset < 0 \<or> byte_offset AND 1 \<noteq> 0 \<or> sample_count < 0
        \<or> (word_of_int byte_offset :: 64 word) + word_of_int sample_count * 2 > word_of_int pcm_capacity
      then Inl (Invalid_argument (name @ '' PCM16 range is outside samples'')) else Inr ())"

text \<open>The checks before the lock: the handle and its model, and the bytes of the buffer.\<close>

definition checked_arguments ::
  "'s whisper_handle option \<Rightarrow> direct_buffer option \<Rightarrow> int \<Rightarrow> int \<Rightarrow> int \<Rightarrow> int
    \<Rightarrow> std_exception + 's whisper_handle \<times> ct2_model \<times> u8 list" where
  "checked_arguments native_handle pcm first_byte_offset first_sample_count second_byte_offset second_sample_count =
     (case native_handle of None \<Rightarrow> Inl (Invalid_argument ''native handle is null'') | Some handle \<Rightarrow>
     (case h_model handle of None \<Rightarrow> Inl (Invalid_argument ''native handle is null'') | Some model \<Rightarrow>
     (case pcm of None \<Rightarrow> Inl (Invalid_argument ''samples must not be null'') | Some buffer \<Rightarrow>
     (case db_address buffer of None \<Rightarrow> Inl (Invalid_argument ''samples must be a DirectByteBuffer'') | Some pcm_bytes \<Rightarrow>
      if db_capacity buffer < 0 then Inl (Invalid_argument ''samples must be a DirectByteBuffer'') else
     (case validate_span (db_capacity buffer) first_byte_offset first_sample_count ''first'' of Inl e \<Rightarrow> Inl e | Inr _ \<Rightarrow>
     (case validate_span (db_capacity buffer) second_byte_offset second_sample_count ''second'' of Inl e \<Rightarrow> Inl e | Inr _ \<Rightarrow>
        Inr (handle, model, pcm_bytes)))))))"

text \<open>The samples of the inference: \<open>None\<close> when the filter found no speech.\<close>

definition inference_samples ::
  "('s \<Rightarrow> real list \<Rightarrow> ('s \<times> real) option) \<Rightarrow> bool \<Rightarrow> 's \<Rightarrow> bool \<Rightarrow> real \<Rightarrow> 's whisper_handle
    \<Rightarrow> (std_exception + real list option) \<times> 's whisper_handle" where
  "inference_samples compute alloc_ok zero vad_enabled vad_threshold handle =
     (if vad_enabled
      then if h_vad_context handle = None
           then (Inl (Runtime_error ''Silero VAD is enabled but its model is not loaded''), handle)
           else
             let (r, vad_samples, context) = collect_whisper_vad_speech compute alloc_ok zero (h_vad_context handle)
                   (h_pcm_samples handle) vad_threshold (h_vad_samples handle);
                 handle = handle\<lparr>h_vad_samples := vad_samples, h_vad_context := context\<rparr>
             in case r of Inl e \<Rightarrow> (Inl e, handle)
                | Inr has_speech \<Rightarrow> (Inr (if has_speech then Some (h_vad_samples handle) else None), handle)
      else (Inr (Some (h_pcm_samples handle)), handle))"

definition language_token_of ::
  "ct2_model \<Rightarrow> real list \<Rightarrow> bool \<Rightarrow> u8 list \<Rightarrow> std_exception + u8 list" where
  "language_token_of model features translate_to_english language_code =
     (if translate_to_english \<or> language_code = bytes_of ''auto''
      then case ct_detect_language model (ct_n_mels model) features of
             Inl e \<Rightarrow> Inl e
           | Inr [] \<Rightarrow> Inl (Runtime_error ''CTranslate2 language detection returned no result'')
           | Inr ((token, _) # _) \<Rightarrow> Inr token
      else Inr (bytes_of ''<|'' @ language_code @ bytes_of ''|>''))"

definition prompt_of :: "u8 list list \<Rightarrow> u8 list \<Rightarrow> bool \<Rightarrow> u8 list list" where
  "prompt_of initial_tokens language_token translate_to_english =
     (if initial_tokens \<noteq> [] then bytes_of ''<|startofprev|>'' # initial_tokens else [])
     @ [bytes_of ''<|startoftranscript|>'', language_token,
        bytes_of (if translate_to_english then ''<|translate|>'' else ''<|transcribe|>''), bytes_of ''<|notimestamps|>'']"

definition options_of :: "int \<Rightarrow> int \<Rightarrow> whisper_options" where
  "options_of beam_size max_length =
     \<lparr>op_beam_size = nat (max 1 beam_size), op_max_length = nat (max 1 max_length), op_sampling_topk = 1,
      op_return_scores = False, op_return_no_speech_prob = False, op_patience = 1, op_num_hypotheses = 1,
      op_sampling_temperature = 1\<rparr>"

text \<open>From the features to the text: language, prompt, generation and decoding.\<close>

definition transcribe_features ::
  "(tokenizer_error \<Rightarrow> string) \<Rightarrow> ct2_model \<Rightarrow> tokenizer \<Rightarrow> real list \<Rightarrow> jstring \<Rightarrow> bool \<Rightarrow> jstring \<Rightarrow> int \<Rightarrow> int
    \<Rightarrow> std_exception + u16 list" where
  "transcribe_features what model tok features language translate_to_english initial_prompt beam_size max_length =
     (case lift_error text_exception (jstring_utf8 language) of Inl e \<Rightarrow> Inl e | Inr language_code \<Rightarrow>
     (case lift_error text_exception (jstring_utf8 initial_prompt) of Inl e \<Rightarrow> Inl e | Inr prompt_text \<Rightarrow>
     (case language_token_of model features translate_to_english language_code of Inl e \<Rightarrow> Inl e | Inr language_token \<Rightarrow>
     (case lift_error (tokenizer_exception what []) (encode tok prompt_text 224) of Inl e \<Rightarrow> Inl e | Inr initial_tokens \<Rightarrow>
     (case ct_generate model (ct_n_mels model) features [prompt_of initial_tokens language_token translate_to_english]
             (options_of beam_size max_length) of
        Inl e \<Rightarrow> Inl e
      | Inr sequences \<Rightarrow>
          Inr (new_java_string_from_utf8 (if sequences = [] then [] else decode_whisper_tokens (hd sequences))))))))"

text \<open>The body of the \<open>try\<close> block: the result or the exception, and the handle after it.\<close>

definition transcribe_body ::
  "bool \<Rightarrow> nat \<Rightarrow> nat list \<Rightarrow> (tokenizer_error \<Rightarrow> string) \<Rightarrow> ('s \<Rightarrow> real list \<Rightarrow> ('s \<times> real) option) \<Rightarrow> bool \<Rightarrow> 's
    \<Rightarrow> 's whisper_handle option \<Rightarrow> direct_buffer option \<Rightarrow> int \<Rightarrow> int \<Rightarrow> int \<Rightarrow> int \<Rightarrow> jstring \<Rightarrow> bool \<Rightarrow> jstring
    \<Rightarrow> bool \<Rightarrow> real \<Rightarrow> int \<Rightarrow> int \<Rightarrow> (std_exception + u16 list) \<times> 's whisper_handle option" where
  "transcribe_body neon pool_threads schedule what compute alloc_ok zero native_handle pcm first_byte_offset
       first_sample_count second_byte_offset second_sample_count language translate_to_english initial_prompt
       vad_enabled vad_threshold beam_size max_length =
     (case checked_arguments native_handle pcm first_byte_offset first_sample_count second_byte_offset
             second_sample_count of
        Inl e \<Rightarrow> (Inl e, native_handle)
      | Inr (handle, model, pcm_bytes) \<Rightarrow>
     (case pcm16_spans_to_float_vector neon
             (Some (int16_view (drop (nat first_byte_offset) pcm_bytes))) (nat first_sample_count)
             (Some (int16_view (drop (nat second_byte_offset) pcm_bytes))) (nat second_sample_count)
             (h_pcm_samples handle) of
        Inl e \<Rightarrow> (Inl (pcm_exception e), Some handle)
      | Inr pcm_samples \<Rightarrow>
     (case inference_samples compute alloc_ok zero vad_enabled vad_threshold (handle\<lparr>h_pcm_samples := pcm_samples\<rparr>) of
        (Inl e, handle) \<Rightarrow> (Inl e, Some handle)
      | (Inr None, handle) \<Rightarrow> (Inr (new_java_string_from_utf8 []), Some handle)
      | (Inr (Some samples), handle) \<Rightarrow>
     (case make_whisper_features neon pool_threads schedule samples (ct_n_mels model) (h_mel_features handle)
             (h_feature_workspace handle) of
        Inl e \<Rightarrow> (Inl (feature_exception e), Some handle)
      | Inr (features, workspace) \<Rightarrow>
          (transcribe_features what model (h_tokenizer handle) features language translate_to_english initial_prompt
             beam_size max_length,
           Some (handle\<lparr>h_mel_features := features, h_feature_workspace := workspace\<rparr>))))))"

definition transcribe ::
  "bool \<Rightarrow> nat \<Rightarrow> nat list \<Rightarrow> (tokenizer_error \<Rightarrow> string) \<Rightarrow> ('s \<Rightarrow> real list \<Rightarrow> ('s \<times> real) option) \<Rightarrow> bool \<Rightarrow> 's
    \<Rightarrow> 's whisper_handle option \<Rightarrow> direct_buffer option \<Rightarrow> int \<Rightarrow> int \<Rightarrow> int \<Rightarrow> int \<Rightarrow> jstring \<Rightarrow> bool \<Rightarrow> jstring
    \<Rightarrow> bool \<Rightarrow> real \<Rightarrow> int \<Rightarrow> int \<Rightarrow> (jni_exception + u16 list) \<times> 's whisper_handle option" where
  "transcribe neon pool_threads schedule what compute alloc_ok zero native_handle pcm first_byte_offset
       first_sample_count second_byte_offset second_sample_count language translate_to_english initial_prompt
       vad_enabled vad_threshold beam_size max_length =
     (case transcribe_body neon pool_threads schedule what compute alloc_ok zero native_handle pcm first_byte_offset
             first_sample_count second_byte_offset second_sample_count language translate_to_english initial_prompt
             vad_enabled vad_threshold beam_size max_length of
        (Inl e, handle) \<Rightarrow> (Inl (throw_java e), handle)
      | (Inr str, handle) \<Rightarrow> (Inr str, handle))"

section \<open>Invariant of the handle\<close>

definition handle_ok :: "'s whisper_handle \<Rightarrow> bool" where
  "handle_ok handle \<longleftrightarrow> ws_ok (h_feature_workspace handle) \<and> (\<exists>model. h_model handle = Some model \<and> 0 < ct_n_mels model)"

lemma prepare_n_mels: "prepare_whisper_feature_workspace n ws k = Inr ws' \<Longrightarrow> 0 < n"
  by (auto simp: prepare_whisper_feature_workspace_def split: if_splits)

lemma create_handle_ok:
  assumes "create_handle what new_model tokenizer_json vad_init dir ty vad threads = Inr handle"
  shows "handle_ok handle \<and> 0 < threads"
proof -
  obtain model ws where ws: "prepare_whisper_feature_workspace (ct_n_mels model) empty_workspace (nat threads) = Inr ws"
    and handle: "h_model handle = Some model" "h_feature_workspace handle = ws" and threads: "0 < threads"
    using assms unfolding create_handle_def lift_error_def
    by (auto split: sum.splits if_splits)
  have n: "0 < ct_n_mels model" using ws by (rule prepare_n_mels)
  obtain ws' where "prepare_whisper_feature_workspace (ct_n_mels model) empty_workspace (nat threads) = Inr ws'" "ws_ok ws'"
    using prepare_ok [OF empty_workspace_ok n] by metis
  then show ?thesis using ws handle n threads by (simp add: handle_ok_def)
qed

lemma inference_samples_handle:
  assumes "inference_samples compute alloc_ok zero vad_enabled thr handle = (r, handle')"
  shows "h_model handle' = h_model handle \<and> h_tokenizer handle' = h_tokenizer handle
    \<and> h_feature_workspace handle' = h_feature_workspace handle"
  using assms by (auto simp: inference_samples_def Let_def split: if_splits prod.splits sum.splits)

lemma transcribe_features_wf:
  "transcribe_features what model tok features language translate prompt beam len = Inr str \<Longrightarrow> utf16_wf str"
  using utf8_to_utf16_wf
  by (auto simp: transcribe_features_def new_java_string_from_utf8_def split: sum.splits)

lemma checked_arguments_handle:
  "checked_arguments native_handle pcm o1 c1 o2 c2 = Inr (handle, model, bytes)
    \<Longrightarrow> native_handle = Some handle \<and> h_model handle = Some model"
  by (auto simp: checked_arguments_def split: option.splits if_splits sum.splits)

lemma transcribe_body_handle:
  assumes "handle_ok handle"
  shows "\<exists>r handle'. transcribe_body neon pool_threads schedule what compute alloc_ok zero (Some handle) pcm o1 c1 o2 c2
       language translate prompt vad_enabled thr beam len = (r, Some handle')
     \<and> handle_ok handle' \<and> h_model handle' = h_model handle \<and> h_tokenizer handle' = h_tokenizer handle
     \<and> (case r of Inr str \<Rightarrow> utf16_wf str | Inl _ \<Rightarrow> True)"
proof (cases "checked_arguments (Some handle) pcm o1 c1 o2 c2")
  case (Inl e)
  then show ?thesis using assms by (simp add: transcribe_body_def)
next
  case (Inr args)
  then obtain model bytes where args: "args = (handle, model, bytes)" "h_model handle = Some model"
    using checked_arguments_handle by (cases args) fastforce
  have n: "0 < ct_n_mels model" and ws: "ws_ok (h_feature_workspace handle)"
    using assms args(2) by (auto simp: handle_ok_def)
  let ?pcm = "pcm16_spans_to_float_vector neon (Some (int16_view (drop (nat o1) bytes))) (nat c1)
             (Some (int16_view (drop (nat o2) bytes))) (nat c2) (h_pcm_samples handle)"
  show ?thesis
  proof (cases ?pcm)
    case (Inl e)
    then show ?thesis using Inr args assms by (simp add: transcribe_body_def)
  next
    case pcm: (Inr samples0)
    obtain r handle' where inf: "inference_samples compute alloc_ok zero vad_enabled thr (handle\<lparr>h_pcm_samples := samples0\<rparr>) = (r, handle')"
      by fastforce
    have same: "h_model handle' = Some model" "h_tokenizer handle' = h_tokenizer handle"
      "h_feature_workspace handle' = h_feature_workspace handle"
      using inference_samples_handle [OF inf] args(2) by simp_all
    then have ok: "handle_ok handle'" using n ws by (simp add: handle_ok_def)
    show ?thesis
    proof (cases r)
      case (Inl e)
      then show ?thesis using Inr args pcm inf ok same by (simp add: transcribe_body_def)
    next
      case samples: (Inr speech)
      show ?thesis
      proof (cases speech)
        case None
        then show ?thesis using Inr args pcm inf ok same samples
          by (simp add: transcribe_body_def new_java_string_from_utf8_def)
      next
        case (Some samples1)
        obtain ws' where "make_whisper_features neon pool_threads schedule samples1 (ct_n_mels model) (h_mel_features handle')
             (h_feature_workspace handle') = Inr (feature_spec samples1 (ct_n_mels model), ws')" "ws_ok ws'"
          using make_whisper_features_eq [OF ws n] same(3) by metis
        then show ?thesis
          using Inr args pcm inf same samples Some n
          by (auto simp: transcribe_body_def handle_ok_def transcribe_features_wf split: sum.split)
      qed
    qed
  qed
qed

lemma transcribe_body_features:
  assumes "handle_ok handle" and "h_model handle = Some model"
    and "checked_arguments (Some handle) pcm o1 c1 o2 c2 = Inr (handle, model, bytes)"
    and "nat c1 \<le> length (int16_view (drop (nat o1) bytes))" and "nat c2 \<le> length (int16_view (drop (nat o2) bytes))"
    and "nat c1 + nat c2 \<le> size_max"
  shows "fst (transcribe_body neon pool_threads schedule what compute alloc_ok zero (Some handle) pcm o1 c1 o2 c2
       language translate prompt False thr beam len)
    = transcribe_features what model (h_tokenizer handle)
        (feature_spec (map scale_sample (take (nat c1) (int16_view (drop (nat o1) bytes))
                @ take (nat c2) (int16_view (drop (nat o2) bytes)))) (ct_n_mels model))
        language translate prompt beam len"
proof -
  let ?s = "map scale_sample (take (nat c1) (int16_view (drop (nat o1) bytes))
                @ take (nat c2) (int16_view (drop (nat o2) bytes)))"
  have n: "0 < ct_n_mels model" and ws: "ws_ok (h_feature_workspace handle)"
    using assms(1,2) by (auto simp: handle_ok_def)
  obtain ws' where "make_whisper_features neon pool_threads schedule ?s (ct_n_mels model) (h_mel_features handle)
             (h_feature_workspace handle) = Inr (feature_spec ?s (ct_n_mels model), ws')"
    using make_whisper_features_eq [OF ws n] by metis
  then show ?thesis
    using pcm16_spans_eq [OF assms(4-6), of neon "h_pcm_samples handle"] assms(3)
    by (simp add: transcribe_body_def inference_samples_def)
qed

definition span_inside :: "int \<Rightarrow> int \<Rightarrow> int \<Rightarrow> bool" where
  "span_inside capacity off cnt \<longleftrightarrow> 0 \<le> off \<and> even off \<and> 0 \<le> cnt \<and> off + 2 * cnt \<le> capacity"

lemma validate_span_eq:
  assumes "off < 2 ^ 31" and "cnt < 2 ^ 31" and "0 \<le> capacity" and "capacity < 2 ^ 63"
  shows "validate_span capacity off cnt name
    = (if span_inside capacity off cnt then Inr () else Inl (Invalid_argument (name @ '' PCM16 range is outside samples'')))"
proof -
  have "validate_span capacity off cnt name
    = (if range_is_valid capacity off cnt then Inr () else Inl (Invalid_argument (name @ '' PCM16 range is outside samples'')))"
    by (auto simp: validate_span_def range_is_valid_def)
  then show ?thesis unfolding range_is_valid_iff [OF assms] span_inside_def .
qed

section \<open>The calls on the model\<close>

definition good_call :: "ct2_model \<Rightarrow> real list \<Rightarrow> nat \<Rightarrow> real list \<Rightarrow> u8 list list list \<Rightarrow> whisper_options \<Rightarrow> bool" where
  "good_call model features n f prompts options \<longleftrightarrow>
     n = ct_n_mels model \<and> f = features \<and> 1 \<le> op_beam_size options \<and> 1 \<le> op_max_length options
   \<and> (\<exists>previous language_token task. task \<in> {bytes_of ''<|translate|>'', bytes_of ''<|transcribe|>''}
        \<and> prompts = [previous @ [bytes_of ''<|startoftranscript|>'', language_token, task, bytes_of ''<|notimestamps|>'']]
        \<and> length previous \<le> 225 \<and> (previous = [] \<or> hd previous = bytes_of ''<|startofprev|>''))"

lemma encode_length: "encode t str n = Inr tokens \<Longrightarrow> length tokens \<le> n"
  by (auto simp: encode_def Let_def split: option.splits if_splits)

lemma good_call_prompt:
  assumes "length tokens \<le> 224"
  shows "good_call model features (ct_n_mels model) features [prompt_of tokens language_token translate] (options_of beam len)"
proof -
  let ?previous = "if tokens \<noteq> [] then bytes_of ''<|startofprev|>'' # tokens else []"
  let ?task = "bytes_of (if translate then ''<|translate|>'' else ''<|transcribe|>'')"
  have "?task \<in> {bytes_of ''<|translate|>'', bytes_of ''<|transcribe|>''}
      \<and> [prompt_of tokens language_token translate]
        = [?previous @ [bytes_of ''<|startoftranscript|>'', language_token, ?task, bytes_of ''<|notimestamps|>'']]
      \<and> length ?previous \<le> 225 \<and> (?previous = [] \<or> hd ?previous = bytes_of ''<|startofprev|>'')"
    using assms by (simp add: prompt_of_def)
  moreover have "1 \<le> op_beam_size (options_of beam len)" "1 \<le> op_max_length (options_of beam len)"
    by (simp_all add: options_of_def)
  ultimately show ?thesis unfolding good_call_def by blast
qed

text \<open>C20: a handle that create returns satisfies the invariant of the handle (a model with Mel bands
  and a valid work area); otherwise exactly one exception is pending and 0 is returned.\<close>

theorem create_establishes_invariant:
  "case create what new_model tokenizer_json vad_init dir ty vad threads of
     (None, Some handle) \<Rightarrow> handle_ok handle \<and> 0 < threads
   | (Some _, None) \<Rightarrow> True
   | _ \<Rightarrow> False"
  using create_handle_ok [of what new_model tokenizer_json vad_init dir ty vad threads]
  by (auto simp: create_def split: sum.split)

text \<open>C21: transcribe keeps the invariant of the handle, its model and its tokenizer whatever the
  arguments are, and a returned string is well-formed UTF-16.\<close>

theorem transcribe_preserves_invariant:
  assumes "handle_ok handle"
  shows "\<exists>r handle'. transcribe neon pool_threads schedule what compute alloc_ok zero (Some handle) pcm o1 c1 o2 c2
       language translate prompt vad_enabled thr beam len = (r, Some handle')
     \<and> handle_ok handle' \<and> h_model handle' = h_model handle \<and> h_tokenizer handle' = h_tokenizer handle
     \<and> (case r of Inr str \<Rightarrow> utf16_wf str | Inl _ \<Rightarrow> True)"
proof -
  obtain r handle' where body: "transcribe_body neon pool_threads schedule what compute alloc_ok zero (Some handle) pcm o1 c1 o2 c2
       language translate prompt vad_enabled thr beam len = (r, Some handle')"
    and ok: "handle_ok handle'" "h_model handle' = h_model handle" "h_tokenizer handle' = h_tokenizer handle"
      "case r of Inr str \<Rightarrow> utf16_wf str | Inl _ \<Rightarrow> True"
    using transcribe_body_handle [OF assms, of neon pool_threads schedule what compute alloc_ok zero pcm o1 c1 o2 c2
      language translate prompt vad_enabled thr beam len] by (elim exE conjE)
  show ?thesis
  proof (cases r)
    case (Inl e)
    then show ?thesis using body ok
      by (intro exI [of _ "Inl (throw_java e)"] exI [of _ handle']) (simp add: transcribe_def)
  next
    case (Inr str)
    then show ?thesis using body ok
      by (intro exI [of _ "Inr str"] exI [of _ handle']) (simp add: transcribe_def)
  qed
qed

text \<open>C22: without the speech filter the result is that of the language, prompt and generation steps on
  the features of the two ranges of samples, whatever the buffers of the handle held, the vector path
  and the schedule; a range that is not even, non-negative and inside the buffer is an
  IllegalArgumentException that names it.\<close>

theorem transcribe_correct:
  assumes "handle_ok handle" and "h_model handle = Some model"
    and "o1 < 2 ^ 31" and "c1 < 2 ^ 31" and "o2 < 2 ^ 31" and "c2 < 2 ^ 31" and "int (length bytes) < 2 ^ 63"
  shows "fst (transcribe neon pool_threads schedule what compute alloc_ok zero (Some handle)
        (Some \<lparr>db_address = Some bytes, db_capacity = int (length bytes)\<rparr>) o1 c1 o2 c2
        language translate prompt False thr beam len)
    = (if \<not> span_inside (int (length bytes)) o1 c1
       then Inl (IllegalArgumentException ''first PCM16 range is outside samples'')
       else if \<not> span_inside (int (length bytes)) o2 c2
       then Inl (IllegalArgumentException ''second PCM16 range is outside samples'')
       else
         let samples = map scale_sample (take (nat c1) (int16_view (drop (nat o1) bytes))
                @ take (nat c2) (int16_view (drop (nat o2) bytes)))
         in case transcribe_features what model (h_tokenizer handle) (feature_spec samples (ct_n_mels model))
                   language translate prompt beam len of
              Inl e \<Rightarrow> Inl (throw_java e) | Inr str \<Rightarrow> Inr str)"
proof -
  let ?pcm = "Some \<lparr>db_address = Some bytes, db_capacity = int (length bytes)\<rparr>"
  let ?body = "transcribe_body neon pool_threads schedule what compute alloc_ok zero (Some handle) ?pcm o1 c1 o2 c2
        language translate prompt False thr beam len"
  have fst: "fst (transcribe neon pool_threads schedule what compute alloc_ok zero (Some handle) ?pcm o1 c1 o2 c2
        language translate prompt False thr beam len) = (case fst ?body of Inl e \<Rightarrow> Inl (throw_java e) | Inr str \<Rightarrow> Inr str)"
    by (simp add: transcribe_def case_prod_unfold split: sum.split)
  note spans = validate_span_eq [OF assms(3,4) _ assms(7)] validate_span_eq [OF assms(5,6) _ assms(7)]
  show ?thesis
  proof (cases "span_inside (int (length bytes)) o1 c1 \<and> span_inside (int (length bytes)) o2 c2")
    case True
    have checked: "checked_arguments (Some handle) ?pcm o1 c1 o2 c2 = Inr (handle, model, bytes)"
      using True assms(2) spans by (simp add: checked_arguments_def)
    have "nat c1 \<le> length (int16_view (drop (nat o1) bytes))" "nat c2 \<le> length (int16_view (drop (nat o2) bytes))"
      "nat c1 + nat c2 \<le> size_max"
      using True assms(4,6) by (auto simp: span_inside_def length_int16_view size_max_def)
    then show ?thesis
      unfolding fst using transcribe_body_features [OF assms(1,2) checked] True by (simp add: Let_def)
  next
    case False
    then show ?thesis
      unfolding fst using assms(2) spans by (auto simp: transcribe_body_def checked_arguments_def throw_java_def)
  qed
qed

text \<open>C23: every generate call made is well formed: one prompt of at most 229 tokens in the order
  previous text, start of transcript, language, task, no timestamps, a beam size and a length limit of
  at least 1 - replacing the model by one that refuses all other calls changes nothing.\<close>

theorem generate_calls_well_formed:
  "transcribe_features what
      (model\<lparr>ct_generate := \<lambda>n f prompts options. if good_call model features n f prompts options
               then ct_generate model n f prompts options else Inl (Runtime_error ''refused'')\<rparr>)
      tok features language translate prompt beam len
   = transcribe_features what model tok features language translate prompt beam len"
  using good_call_prompt encode_length
  by (auto simp: transcribe_features_def language_token_of_def lift_error_def split: sum.split)

definition example_model :: ct2_model where
  "example_model = \<lparr>ct_n_mels = 80, ct_detect_language = \<lambda>n f. Inr [(bytes_of ''<|ja|>'', 1)],
     ct_generate = \<lambda>n f prompts options. Inr []\<rparr>"

definition example_handle :: "unit whisper_handle" where
  "example_handle = \<lparr>h_model = Some example_model,
     h_tokenizer = \<lparr>merge_ranks = Map.empty, byte_encoder = Map.empty, vocabulary = Map.empty\<rparr>,
     h_pcm_samples = [1], h_vad_samples = [], h_mel_features = [], h_feature_workspace = empty_workspace,
     h_vad_context = None\<rparr>"

lemma example_handle_ok: "handle_ok example_handle" "h_model example_handle = Some example_model"
  using empty_workspace_ok by (simp_all add: handle_ok_def example_handle_def example_model_def)

theorem transcribe_preserves_invariant_witness:
  "\<exists>r handle'. transcribe True 2 [0] (\<lambda>_. ''error'') (\<lambda>s x. None) True () (Some example_handle) None 0 0 0 0
       None False None True 0 5 100 = (r, Some handle') \<and> handle_ok handle'"
  using transcribe_preserves_invariant [OF example_handle_ok(1), of True 2 "[0]" "\<lambda>_. ''error''" "\<lambda>s x. None" True "()"
      None 0 0 0 0 None False None True 0 5 100]
  by (elim ex_forward conjE conjI)

theorem transcribe_correct_witness:
  "fst (transcribe True 2 [0] (\<lambda>_. ''error'') (\<lambda>s x. None) True () (Some example_handle)
        (Some \<lparr>db_address = Some [0, 64, 0, 128], db_capacity = 4\<rparr>) 2 1 0 1 None False None False 0 5 100)
    = Inr []
  \<and> fst (transcribe True 2 [0] (\<lambda>_. ''error'') (\<lambda>s x. None) True () (Some example_handle)
        (Some \<lparr>db_address = Some [0, 64, 0, 128], db_capacity = 4\<rparr>) 2 1 1 1 None False None False 0 5 100)
    = Inl (IllegalArgumentException ''second PCM16 range is outside samples'')"
proof -
  have "transcribe_features what example_model (h_tokenizer example_handle) features None False None 5 100 = Inr []"
    for what features
    by (simp add: transcribe_features_def language_token_of_def jstring_utf8_def lift_error_def example_handle_def
        example_model_def bytes_of_def encode_def new_java_string_from_utf8_def)
  then show ?thesis
    using transcribe_correct [OF example_handle_ok, of 2 1 0 1 "[0, 64, 0, 128]" True 2 "[0]" "\<lambda>_. ''error''" "\<lambda>s x. None" True "()" None False None 0 5 100]
      transcribe_correct [OF example_handle_ok, of 2 1 1 1 "[0, 64, 0, 128]" True 2 "[0]" "\<lambda>_. ''error''" "\<lambda>s x. None" True "()" None False None 0 5 100]
    by (simp add: span_inside_def Let_def)
qed

end
