(* ===== verification/KvCache.thy ===== *)
theory KvCache
  imports WhisperParams "HOL-Library.Monad_Syntax"
begin

unbundle bit_operations_syntax

text \<open>
  The key-value cache of Whisper/src/whisper.cpp as the decoder sees it: the positions and sequence
  ids of the cells, the search for a slot, the operations on sequences, the attention mask computed
  from the cells, and the exchange of sequences in beam search. The tensors are not modelled: a
  cell's index is their only key. Indices are natural numbers (the sizes are far below 2 ^ 32);
  positions and sequence ids are C integers.
\<close>

section \<open>Cells and batches\<close>

record whisper_kv_cell =
  kc_pos :: int
  kc_seq_id :: "int set"

definition has_seq_id :: "whisper_kv_cell \<Rightarrow> int \<Rightarrow> bool" where
  "has_seq_id cell sid \<longleftrightarrow> sid \<in> kc_seq_id cell"

record whisper_kv_cache =
  kv_head :: nat
  kv_size :: nat
  kv_n :: nat
  kv_cells :: "whisper_kv_cell list"

definition empty_cell :: whisper_kv_cell where
  "empty_cell = \<lparr>kc_pos = - 1, kc_seq_id = {}\<rparr>"

definition whisper_kv_cache_init :: "nat \<Rightarrow> whisper_kv_cache" where
  "whisper_kv_cache_init n_ctx = \<lparr>kv_head = 0, kv_size = n_ctx, kv_n = 0, kv_cells = replicate n_ctx empty_cell\<rparr>"

record whisper_batch =
  bt_token :: "int list"
  bt_pos :: "int list"
  bt_seq_id :: "int list list"
  bt_logits :: "bool list"

definition bt_n_tokens :: "whisper_batch \<Rightarrow> nat" where
  "bt_n_tokens batch = length (bt_pos batch)"

text \<open>\<open>tokens\<close> is not null.\<close>

definition whisper_batch_prep_legacy :: "int list \<Rightarrow> int \<Rightarrow> int \<Rightarrow> whisper_batch" where
  "whisper_batch_prep_legacy tokens n_past seq_id =
     \<lparr>bt_token = tokens, bt_pos = map (\<lambda>i. n_past + int i) [0..<length tokens],
      bt_seq_id = replicate (length tokens) [seq_id],
      bt_logits = (replicate (length tokens) False)[length tokens - 1 := True]\<rparr>"

section \<open>Finding a slot\<close>

text \<open>The offset of the first used cell of the window, if there is one.\<close>

definition used_in_window :: "whisper_kv_cell list \<Rightarrow> nat \<Rightarrow> nat \<Rightarrow> nat option" where
  "used_in_window cells head n_tokens = find (\<lambda>i. kc_pos (cells ! (head + i)) \<ge> 0) [0..<n_tokens]"

text \<open>The loop: whether a slot was found, and the head; \<open>None\<close> if it does not end.\<close>

partial_function (option) slot_search ::
  "whisper_kv_cell list \<Rightarrow> nat \<Rightarrow> nat \<Rightarrow> nat \<Rightarrow> nat \<Rightarrow> (bool \<times> nat) option" where
  "slot_search cells n_ctx n_tokens head n_tested =
     (if head + n_tokens > n_ctx then slot_search cells n_ctx n_tokens 0 (n_tested + (n_ctx - head))
      else case used_in_window cells head n_tokens of
             None \<Rightarrow> Some (True, head)
           | Some i \<Rightarrow> if n_tested + (i + 1) \<ge> n_ctx then Some (False, head + i + 1)
                       else slot_search cells n_ctx n_tokens (head + i + 1) (n_tested + (i + 1)))"

definition fill_cell :: "whisper_batch \<Rightarrow> nat \<Rightarrow> nat \<Rightarrow> whisper_kv_cell list \<Rightarrow> whisper_kv_cell list" where
  "fill_cell batch head i cells =
     cells[head + i := \<lparr>kc_pos = bt_pos batch ! i,
                        kc_seq_id = kc_seq_id (cells ! (head + i)) \<union> set (bt_seq_id batch ! i)\<rparr>]"

definition whisper_kv_cache_find_slot :: "whisper_kv_cache \<Rightarrow> whisper_batch \<Rightarrow> (bool \<times> whisper_kv_cache) option" where
  "whisper_kv_cache_find_slot cache batch =
     (if bt_n_tokens batch > kv_size cache then Some (False, cache)
      else do {
        (found, head) \<leftarrow> slot_search (kv_cells cache) (kv_size cache) (bt_n_tokens batch) (kv_head cache) 0;
        Some (if found
              then (True, cache\<lparr>kv_head := head,
                     kv_cells := for_range 0 (bt_n_tokens batch) (fill_cell batch head) (kv_cells cache)\<rparr>)
              else (False, cache\<lparr>kv_head := head\<rparr>))
      })"

section \<open>Operations on sequences\<close>

text \<open>The loop counts down to 1.\<close>

fun cell_max_loop :: "whisper_kv_cell list \<Rightarrow> nat \<Rightarrow> nat" where
  "cell_max_loop cells 0 = 1"
| "cell_max_loop cells (Suc i) =
     (if kc_pos (cells ! Suc i) \<ge> 0 \<and> kc_seq_id (cells ! Suc i) \<noteq> {} then Suc i + 1 else cell_max_loop cells i)"

definition whisper_kv_cache_cell_max :: "whisper_kv_cache \<Rightarrow> nat" where
  "whisper_kv_cache_cell_max cache = cell_max_loop (kv_cells cache) (kv_size cache - 1)"

definition whisper_kv_cache_clear :: "whisper_kv_cache \<Rightarrow> whisper_kv_cache" where
  "whisper_kv_cache_clear cache =
     cache\<lparr>kv_cells := for_range 0 (kv_size cache) (\<lambda>i cells. cells[i := \<lparr>kc_pos = - 1, kc_seq_id = {}\<rparr>]) (kv_cells cache),
           kv_head := 0\<rparr>"

definition POS_MAX :: int where
  "POS_MAX = 2147483647"

definition rm_step :: "nat \<Rightarrow> int \<Rightarrow> int \<Rightarrow> int \<Rightarrow> nat \<Rightarrow> whisper_kv_cell list \<times> nat \<Rightarrow> whisper_kv_cell list \<times> nat" where
  "rm_step n_cells seq_id p0 p1 i = (\<lambda>(cells, new_head).
     if kc_pos (cells ! i) \<ge> p0 \<and> kc_pos (cells ! i) < p1
     then if seq_id \<ge> 0 \<and> \<not> has_seq_id (cells ! i) seq_id then (cells, new_head)
          else
            let ids = (if seq_id < 0 then {} else kc_seq_id (cells ! i) - {seq_id})
            in if ids = {}
               then (cells[i := \<lparr>kc_pos = - 1, kc_seq_id = ids\<rparr>], if new_head = n_cells then i else new_head)
               else (cells[i := (cells ! i)\<lparr>kc_seq_id := ids\<rparr>], new_head)
     else (cells, new_head))"

definition whisper_kv_cache_seq_rm :: "whisper_kv_cache \<Rightarrow> int \<Rightarrow> int \<Rightarrow> int \<Rightarrow> whisper_kv_cache" where
  "whisper_kv_cache_seq_rm cache seq_id p0 p1 =
     (let p0 = (if p0 < 0 then 0 else p0);
          p1 = (if p1 < 0 then POS_MAX else p1);
          (cells, new_head) = for_range 0 (kv_size cache) (rm_step (kv_size cache) seq_id p0 p1) (kv_cells cache, kv_size cache)
      in if new_head \<noteq> kv_size cache then cache\<lparr>kv_cells := cells, kv_head := new_head\<rparr>
         else cache\<lparr>kv_cells := cells\<rparr>)"

definition cp_step :: "int \<Rightarrow> int \<Rightarrow> int \<Rightarrow> int \<Rightarrow> nat \<Rightarrow> whisper_kv_cell list \<Rightarrow> whisper_kv_cell list" where
  "cp_step seq_id_src seq_id_dst p0 p1 i cells =
     (if has_seq_id (cells ! i) seq_id_src \<and> kc_pos (cells ! i) \<ge> p0 \<and> kc_pos (cells ! i) < p1
      then cells[i := (cells ! i)\<lparr>kc_seq_id := insert seq_id_dst (kc_seq_id (cells ! i))\<rparr>] else cells)"

definition whisper_kv_cache_seq_cp :: "whisper_kv_cache \<Rightarrow> int \<Rightarrow> int \<Rightarrow> int \<Rightarrow> int \<Rightarrow> whisper_kv_cache" where
  "whisper_kv_cache_seq_cp cache seq_id_src seq_id_dst p0 p1 =
     (let p0 = (if p0 < 0 then 0 else p0);
          p1 = (if p1 < 0 then POS_MAX else p1)
      in cache\<lparr>kv_head := 0, kv_cells := for_range 0 (kv_size cache) (cp_step seq_id_src seq_id_dst p0 p1) (kv_cells cache)\<rparr>)"

text \<open>The build has neither Metal nor CUDA.\<close>

definition whisper_kv_cache_get_padding :: "whisper_context_params \<Rightarrow> nat" where
  "whisper_kv_cache_get_padding params = (if \<not> cp_flash_attn params \<or> \<not> cp_use_gpu params then 1 else 1)"

section \<open>The decoder's view\<close>

text \<open>\<open>GGML_PAD\<close> for a power of two, on 32-bit integers.\<close>

definition GGML_PAD :: "nat \<Rightarrow> nat \<Rightarrow> nat" where
  "GGML_PAD x n = unat (((of_nat x :: 32 word) + of_nat n - 1) AND NOT (of_nat n - 1))"

definition kv_prepare :: "whisper_context_params \<Rightarrow> whisper_kv_cache \<Rightarrow> whisper_batch \<Rightarrow> (bool \<times> whisper_kv_cache) option" where
  "kv_prepare params cache batch = do {
     (found, cache) \<leftarrow> whisper_kv_cache_find_slot cache batch;
     let pad = whisper_kv_cache_get_padding params;
     Some (if found
           then (True, cache\<lparr>kv_n := min (kv_size cache) (max pad (GGML_PAD (whisper_kv_cache_cell_max cache) pad))\<rparr>)
           else (False, cache))
   }"

text \<open>The attention mask, row by row: \<open>True\<close> is \<open>-INFINITY\<close>, the cell is hidden from the token.\<close>

definition kq_mask :: "whisper_kv_cache \<Rightarrow> whisper_batch \<Rightarrow> bool list list" where
  "kq_mask kv_self batch =
     map (\<lambda>j. map (\<lambda>i. \<not> has_seq_id (kv_cells kv_self ! i) (hd (bt_seq_id batch ! j))
                       \<or> kc_pos (kv_cells kv_self ! i) > bt_pos batch ! j) [0..<kv_n kv_self])
       [0..<bt_n_tokens batch]"

text \<open>The cache part of \<open>whisper_decode_with_state\<close>.\<close>

definition kv_decode :: "whisper_context_params \<Rightarrow> whisper_kv_cache \<Rightarrow> int list \<Rightarrow> int \<Rightarrow> (bool \<times> whisper_kv_cache) option" where
  "kv_decode params cache tokens n_past =
     kv_prepare params (whisper_kv_cache_seq_rm cache 0 n_past (- 1)) (whisper_batch_prep_legacy tokens n_past 0)"

section \<open>Beam search\<close>

definition WHISPER_MAX_DECODERS :: int where
  "WHISPER_MAX_DECODERS = 8"

text \<open>The active decoders with the decoder each of them continues: all sources are copied to scratch
  sequences before any sequence is overwritten.\<close>

definition kv_reorder :: "(nat \<times> nat) list \<Rightarrow> whisper_kv_cache \<Rightarrow> whisper_kv_cache" where
  "kv_reorder moves cache =
     (let cache = fold (\<lambda>(j, decoder_idx) cache.
            whisper_kv_cache_seq_cp cache (int decoder_idx) (WHISPER_MAX_DECODERS + int j) (- 1) (- 1)) moves cache
      in fold (\<lambda>(j, decoder_idx) cache.
            let cache = whisper_kv_cache_seq_rm cache (int j) (- 1) (- 1);
                cache = whisper_kv_cache_seq_cp cache (WHISPER_MAX_DECODERS + int j) (int j) (- 1) (- 1)
            in whisper_kv_cache_seq_rm cache (WHISPER_MAX_DECODERS + int j) (- 1) (- 1)) moves cache)"

section \<open>The search for a slot\<close>

definition slot :: "whisper_kv_cell list \<Rightarrow> nat \<Rightarrow> nat \<Rightarrow> nat \<Rightarrow> bool" where
  "slot cells n_ctx n s \<longleftrightarrow> s + n \<le> n_ctx \<and> (\<forall>i<n. kc_pos (cells ! (s + i)) < 0)"

definition search_result :: "whisper_kv_cell list \<Rightarrow> nat \<Rightarrow> nat \<Rightarrow> (bool \<times> nat) option \<Rightarrow> bool" where
  "search_result cells n_ctx n r \<longleftrightarrow>
     (\<exists>s. r = Some (True, s) \<and> slot cells n_ctx n s) \<or> (\<exists>h \<le> n_ctx. r = Some (False, h) \<and> (\<forall>s. \<not> slot cells n_ctx n s))"

lemma find_upt_Some: "find P [0..<n] = Some i \<Longrightarrow> i < n \<and> P i \<and> (\<forall>j<i. \<not> P j)"
  by (auto simp: find_Some_iff)

lemma find_upt_None: "find P [0..<n] = None \<longleftrightarrow> (\<forall>i<n. \<not> P i)"
  by (auto simp: find_None_iff)

lemma window_free: "used_in_window cells h n = None \<Longrightarrow> h + n \<le> n_ctx \<Longrightarrow> slot cells n_ctx n h"
  by (auto simp: used_in_window_def find_upt_None slot_def)

lemma window_used:
  assumes "used_in_window cells h n = Some i"
  shows "i < n" and "h \<le> s \<Longrightarrow> s \<le> h + i \<Longrightarrow> \<not> slot cells n_ctx n s"
proof -
  have i: "i < n" "kc_pos (cells ! (h + i)) \<ge> 0"
    using find_upt_Some assms unfolding used_in_window_def by blast+
  then show "i < n" by simp
  show "\<not> slot cells n_ctx n s" if "h \<le> s" "s \<le> h + i"
  proof
    assume "slot cells n_ctx n s"
    moreover have "h + i - s < n" "s + (h + i - s) = h + i" using that i by auto
    ultimately have "kc_pos (cells ! (h + i)) < 0" unfolding slot_def by metis
    then show False using i by simp
  qed
qed

lemma search_second_lap:
  assumes "n \<le> n_ctx" and "head \<le> n_ctx" and "h0 \<le> n_ctx" and "tested + h0 = n_ctx + head"
    and "\<forall>s<head. \<not> slot cells n_ctx n s" and "\<forall>s\<ge>h0. \<not> slot cells n_ctx n s"
  shows "search_result cells n_ctx n (slot_search cells n_ctx n head tested)"
  using assms
proof (induction "n_ctx - head" arbitrary: head tested rule: less_induct)
  case less
  show ?case
  proof (cases "head + n > n_ctx")
    case True
    have none: "\<not> slot cells n_ctx n s" for s
      using True less.prems(5) by (cases "s < head") (auto simp: slot_def)
    obtain i where i: "used_in_window cells 0 n = Some i"
      using window_free [of cells 0 n n_ctx] none less.prems(1) by (cases "used_in_window cells 0 n") auto
    have "slot_search cells n_ctx n head tested = slot_search cells n_ctx n 0 (tested + (n_ctx - head))"
      using True by (subst slot_search.simps) simp
    also have "n_ctx \<le> tested + (n_ctx - head) + (i + 1)" using less.prems(2,3,4) by simp
    then have "slot_search cells n_ctx n 0 (tested + (n_ctx - head)) = Some (False, i + 1)"
      using i less.prems(1) by (subst slot_search.simps) (simp del: diff_is_0_eq)
    finally show ?thesis
      using none window_used(1) [OF i] less.prems(1) by (simp add: search_result_def)
  next
    case False
    show ?thesis
    proof (cases "used_in_window cells head n")
      case None
      then show ?thesis
        using window_free [OF None, of n_ctx] False by (subst slot_search.simps) (simp add: search_result_def)
    next
      case (Some i)
      let ?head = "head + i + 1"
      have "i < n" using window_used(1) [OF Some] .
      have before: "\<forall>s<?head. \<not> slot cells n_ctx n s"
      proof (intro allI impI)
        fix s assume "s < ?head"
        then show "\<not> slot cells n_ctx n s"
          using less.prems(5) window_used(2) [OF Some, of s] by (cases "s < head") auto
      qed
      have step: "slot_search cells n_ctx n head tested
          = (if tested + (i + 1) \<ge> n_ctx then Some (False, ?head) else slot_search cells n_ctx n ?head (tested + (i + 1)))"
        using False Some by (subst slot_search.simps) simp
      show ?thesis
      proof (cases "tested + (i + 1) \<ge> n_ctx")
        case True
        then have "h0 \<le> ?head" using less.prems(4) by simp
        then have "\<not> slot cells n_ctx n s" for s
          using before less.prems(6) by (metis leI le_trans not_less)
        then show ?thesis using step True False \<open>i < n\<close> by (simp add: search_result_def)
      next
        case go_on: False
        have "search_result cells n_ctx n (slot_search cells n_ctx n ?head (tested + (i + 1)))"
          by (rule less.hyps) (use less.prems before False \<open>i < n\<close> in auto)
        then show ?thesis using step go_on by simp
      qed
    qed
  qed
qed

lemma search_first_lap:
  assumes "n \<le> n_ctx" and "head \<le> n_ctx" and "tested + h0 = head"
    and "\<forall>s. h0 \<le> s \<and> s < head \<longrightarrow> \<not> slot cells n_ctx n s"
  shows "search_result cells n_ctx n (slot_search cells n_ctx n head tested)"
  using assms
proof (induction "n_ctx - head" arbitrary: head tested rule: less_induct)
  case less
  show ?case
  proof (cases "head + n > n_ctx")
    case True
    then have late: "\<forall>s\<ge>h0. \<not> slot cells n_ctx n s"
      using less.prems(4) by (metis leI less_le_trans nat_add_left_cancel_less slot_def add.commute not_less)
    have "search_result cells n_ctx n (slot_search cells n_ctx n 0 (tested + (n_ctx - head)))"
      by (rule search_second_lap [where ?h0.0 = h0]) (use less.prems late in auto)
    then show ?thesis using True by (subst slot_search.simps) simp
  next
    case False
    show ?thesis
    proof (cases "used_in_window cells head n")
      case None
      then show ?thesis
        using window_free [OF None, of n_ctx] False by (subst slot_search.simps) (simp add: search_result_def)
    next
      case (Some i)
      let ?head = "head + i + 1"
      have "i < n" using window_used(1) [OF Some] .
      have before: "\<forall>s. h0 \<le> s \<and> s < ?head \<longrightarrow> \<not> slot cells n_ctx n s"
      proof (intro allI impI)
        fix s assume "h0 \<le> s \<and> s < ?head"
        then show "\<not> slot cells n_ctx n s"
          using less.prems(4) window_used(2) [OF Some, of s] by (cases "s < head") auto
      qed
      have step: "slot_search cells n_ctx n head tested
          = (if tested + (i + 1) \<ge> n_ctx then Some (False, ?head) else slot_search cells n_ctx n ?head (tested + (i + 1)))"
        using False Some by (subst slot_search.simps) simp
      show ?thesis
      proof (cases "tested + (i + 1) \<ge> n_ctx")
        case True
        then have "h0 = 0" "?head = n_ctx" using less.prems(3) False \<open>i < n\<close> by auto
        moreover have "\<not> slot cells n_ctx n s" if "n_ctx \<le> s" for s using that \<open>i < n\<close> by (auto simp: slot_def)
        ultimately have "\<not> slot cells n_ctx n s" for s
          using before by (cases "s < n_ctx") auto
        then show ?thesis using step True False \<open>i < n\<close> by (simp add: search_result_def)
      next
        case go_on: False
        have "search_result cells n_ctx n (slot_search cells n_ctx n ?head (tested + (i + 1)))"
          by (rule less.hyps) (use less.prems before False \<open>i < n\<close> in auto)
        then show ?thesis using step go_on by simp
      qed
    qed
  qed
qed

lemma slot_search_correct:
  "n \<le> n_ctx \<Longrightarrow> head \<le> n_ctx \<Longrightarrow> search_result cells n_ctx n (slot_search cells n_ctx n head 0)"
  by (rule search_first_lap [where ?h0.0 = head]) auto

section \<open>The operations on cells\<close>

lemma for_range_map:
  assumes "n \<le> length xs" and "\<And>i ys. i < n \<Longrightarrow> length ys = length xs \<Longrightarrow> f i ys = ys[i := g (ys ! i)]"
  shows "for_range 0 n f xs = map g (take n xs) @ drop n xs"
  using assms
proof (induction n)
  case (Suc n)
  then have "for_range 0 n f xs = map g (take n xs) @ drop n xs" by simp
  moreover have "drop n xs = xs ! n # drop (Suc n) xs" using Suc.prems(1) by (simp add: Cons_nth_drop_Suc)
  ultimately show ?case
    using Suc.prems by (simp add: take_Suc_conv_app_nth nth_append list_update_append)
qed simp

definition rm_cell :: "int \<Rightarrow> int \<Rightarrow> int \<Rightarrow> whisper_kv_cell \<Rightarrow> whisper_kv_cell" where
  "rm_cell seq_id p0 p1 cell =
     (if p0 \<le> kc_pos cell \<and> kc_pos cell < p1 \<and> (seq_id < 0 \<or> seq_id \<in> kc_seq_id cell)
      then let ids = (if seq_id < 0 then {} else kc_seq_id cell - {seq_id})
           in \<lparr>kc_pos = (if ids = {} then - 1 else kc_pos cell), kc_seq_id = ids\<rparr>
      else cell)"

definition cp_cell :: "int \<Rightarrow> int \<Rightarrow> int \<Rightarrow> int \<Rightarrow> whisper_kv_cell \<Rightarrow> whisper_kv_cell" where
  "cp_cell src dst p0 p1 cell =
     (if src \<in> kc_seq_id cell \<and> p0 \<le> kc_pos cell \<and> kc_pos cell < p1
      then cell\<lparr>kc_seq_id := insert dst (kc_seq_id cell)\<rparr> else cell)"

lemma cp_loop: "for_range 0 (length cells) (cp_step src dst p0 p1) cells = map (cp_cell src dst p0 p1) cells"
  by (subst for_range_map [where g = "cp_cell src dst p0 p1"]) (auto simp: cp_step_def cp_cell_def has_seq_id_def)

lemma rm_step_eq:
  "rm_step m sid p0 p1 i (cells, h)
     = (cells[i := rm_cell sid p0 p1 (cells ! i)],
        if kc_pos (cells ! i) \<ge> p0 \<and> rm_cell sid p0 p1 (cells ! i) = empty_cell \<and> kc_pos (cells ! i) < p1 \<and> h = m
           \<and> (sid < 0 \<or> sid \<in> kc_seq_id (cells ! i))
        then i else h)"
proof -
  obtain p S where c: "cells ! i = \<lparr>kc_pos = p, kc_seq_id = S\<rparr>" by (cases "cells ! i")
  have id: "cells[i := \<lparr>kc_pos = p, kc_seq_id = S\<rparr>] = cells" using c by (metis list_update_id)
  define T where "T = S - {sid}"
  show ?thesis
    unfolding rm_step_def prod.case c rm_cell_def has_seq_id_def empty_cell_def whisper_kv_cell.simps Let_def
      T_def [symmetric]
    by (auto simp: id)
qed

lemma rm_loop_cells:
  "fst (for_range 0 (length cells) (rm_step m sid p0 p1) (cells, h)) = map (rm_cell sid p0 p1) cells"
proof -
  have "fst (for_range 0 n (rm_step m sid p0 p1) (cells, h)) = for_range 0 n (\<lambda>i cells. cells[i := rm_cell sid p0 p1 (cells ! i)]) cells" for n
    by (induction n) (auto simp: rm_step_eq fst_def split: prod.splits)
  then show ?thesis by (simp add: for_range_map [where g = "rm_cell sid p0 p1"])
qed

lemma rm_loop_head:
  "snd (for_range 0 n (rm_step m sid p0 p1) (cells, h)) \<in> insert h {..<n}"
proof (induction n)
  case (Suc n)
  have "snd (rm_step m sid p0 p1 n st) \<in> {snd st, n}" for st by (cases st) (simp add: rm_step_eq)
  from this [of "for_range 0 n (rm_step m sid p0 p1) (cells, h)"] show ?case using Suc by auto
qed simp

section \<open>Invariant\<close>

definition cell_ok :: "whisper_kv_cell \<Rightarrow> bool" where
  "cell_ok cell \<longleftrightarrow> (if kc_seq_id cell = {} then kc_pos cell = - 1 else 0 \<le> kc_pos cell \<and> kc_pos cell < POS_MAX)"

definition kv_ok :: "whisper_kv_cache \<Rightarrow> bool" where
  "kv_ok cache \<longleftrightarrow> kv_head cache \<le> kv_size cache \<and> length (kv_cells cache) = kv_size cache \<and> (\<forall>cell \<in> set (kv_cells cache). cell_ok cell)"

definition batch_ok :: "whisper_batch \<Rightarrow> bool" where
  "batch_ok batch \<longleftrightarrow> length (bt_seq_id batch) = bt_n_tokens batch \<and> (\<forall>ids \<in> set (bt_seq_id batch). ids \<noteq> [])
     \<and> (\<forall>p \<in> set (bt_pos batch). 0 \<le> p \<and> p < POS_MAX)"

lemma seq_rm_eq:
  assumes "kv_ok cache"
  shows "kv_cells (whisper_kv_cache_seq_rm cache sid p0 p1)
      = map (rm_cell sid (if p0 < 0 then 0 else p0) (if p1 < 0 then POS_MAX else p1)) (kv_cells cache)"
    "kv_size (whisper_kv_cache_seq_rm cache sid p0 p1) = kv_size cache"
    "kv_head (whisper_kv_cache_seq_rm cache sid p0 p1) \<le> kv_size cache"
proof -
  let ?p0 = "if p0 < 0 then 0 else p0" and ?p1 = "if p1 < 0 then POS_MAX else p1" and ?n = "kv_size cache"
  obtain cells h where loop: "for_range 0 ?n (rm_step ?n sid ?p0 ?p1) (kv_cells cache, ?n) = (cells, h)"
    by fastforce
  have n: "length (kv_cells cache) = ?n" using assms by (simp add: kv_ok_def)
  have "cells = map (rm_cell sid ?p0 ?p1) (kv_cells cache)"
    using rm_loop_cells [where cells = "kv_cells cache" and m = ?n and h = ?n] unfolding n
    by (metis fst_conv loop)
  moreover have "h \<le> ?n"
    using rm_loop_head [where cells = "kv_cells cache" and m = ?n and h = ?n and n = ?n and sid = sid and ?p0.0 = ?p0 and ?p1.0 = ?p1]
    unfolding loop by auto
  moreover have "whisper_kv_cache_seq_rm cache sid p0 p1
      = (if h \<noteq> ?n then cache\<lparr>kv_cells := cells, kv_head := h\<rparr> else cache\<lparr>kv_cells := cells\<rparr>)"
    using loop by (simp add: whisper_kv_cache_seq_rm_def Let_def)
  ultimately show "kv_cells (whisper_kv_cache_seq_rm cache sid p0 p1) = map (rm_cell sid ?p0 ?p1) (kv_cells cache)"
    "kv_size (whisper_kv_cache_seq_rm cache sid p0 p1) = ?n"
    "kv_head (whisper_kv_cache_seq_rm cache sid p0 p1) \<le> ?n"
    using assms by (simp_all add: kv_ok_def)
qed

lemma seq_cp_eq:
  assumes "kv_ok cache"
  shows "whisper_kv_cache_seq_cp cache src dst p0 p1 = cache\<lparr>kv_head := 0,
     kv_cells := map (cp_cell src dst (if p0 < 0 then 0 else p0) (if p1 < 0 then POS_MAX else p1)) (kv_cells cache)\<rparr>"
  using assms cp_loop [of "kv_cells cache"] by (simp add: whisper_kv_cache_seq_cp_def Let_def kv_ok_def)

lemma cell_ok_rm: "cell_ok cell \<Longrightarrow> cell_ok (rm_cell sid p0 p1 cell)"
  by (auto simp: cell_ok_def rm_cell_def Let_def split: if_splits)

lemma cell_ok_cp: "cell_ok cell \<Longrightarrow> cell_ok (cp_cell src dst p0 p1 cell)"
  by (auto simp: cell_ok_def cp_cell_def split: if_splits)

lemma kv_ok_seq_rm: "kv_ok cache \<Longrightarrow> kv_ok (whisper_kv_cache_seq_rm cache sid p0 p1)"
  using seq_rm_eq [of cache sid p0 p1] by (auto simp: kv_ok_def cell_ok_rm)

lemma kv_ok_seq_cp: "kv_ok cache \<Longrightarrow> kv_ok (whisper_kv_cache_seq_cp cache src dst p0 p1)"
  by (simp add: seq_cp_eq) (auto simp: kv_ok_def cell_ok_cp)

lemma clear_eq:
  "kv_ok cache \<Longrightarrow> whisper_kv_cache_clear cache = cache\<lparr>kv_cells := replicate (kv_size cache) empty_cell, kv_head := 0\<rparr>"
  using for_range_map [of "kv_size cache" "kv_cells cache" "\<lambda>i cells. cells[i := empty_cell]" "\<lambda>_. empty_cell"]
  by (simp add: whisper_kv_cache_clear_def kv_ok_def map_replicate_const flip: empty_cell_def)

lemma kv_ok_clear: "kv_ok cache \<Longrightarrow> kv_ok (whisper_kv_cache_clear cache)"
  by (simp add: clear_eq) (auto simp: kv_ok_def cell_ok_def empty_cell_def)

lemma kv_ok_init: "kv_ok (whisper_kv_cache_init n)"
  by (auto simp: whisper_kv_cache_init_def kv_ok_def cell_ok_def empty_cell_def)

text \<open>The cells of the batch after a slot has been found.\<close>

definition batch_cell :: "whisper_batch \<Rightarrow> nat \<Rightarrow> whisper_kv_cell" where
  "batch_cell batch i = \<lparr>kc_pos = bt_pos batch ! i, kc_seq_id = set (bt_seq_id batch ! i)\<rparr>"

definition batch_cells :: "whisper_batch \<Rightarrow> whisper_kv_cell list" where
  "batch_cells batch = map (batch_cell batch) [0..<bt_n_tokens batch]"

lemma fill_loop:
  assumes "n \<le> bt_n_tokens batch" and "\<forall>i < bt_n_tokens batch. kc_seq_id (cells ! (head + i)) = {}"
    and "head + bt_n_tokens batch \<le> length cells"
  shows "for_range 0 n (fill_cell batch head) cells
     = take head cells @ map (batch_cell batch) [0..<n] @ drop (head + n) cells"
  using assms(1)
proof (induction n)
  case (Suc n)
  have "drop (head + n) cells = cells ! (head + n) # drop (head + Suc n) cells"
    using assms(3) Suc.prems by (simp add: Cons_nth_drop_Suc)
  moreover have "kc_seq_id (cells ! (head + n)) = {}" using assms(2) Suc.prems by simp
  ultimately show ?case
    using Suc assms(3) by (simp add: fill_cell_def batch_cell_def nth_append list_update_append)
qed simp

lemma find_slot_result:
  assumes "kv_ok cache"
  obtains
    (found) s where "slot (kv_cells cache) (kv_size cache) (bt_n_tokens batch) s"
      "whisper_kv_cache_find_slot cache batch = Some (True, cache\<lparr>kv_head := s,
         kv_cells := take s (kv_cells cache) @ batch_cells batch @ drop (s + bt_n_tokens batch) (kv_cells cache)\<rparr>)"
  | (full) h where "\<forall>s. \<not> slot (kv_cells cache) (kv_size cache) (bt_n_tokens batch) s" "h \<le> kv_size cache"
      "whisper_kv_cache_find_slot cache batch = Some (False, cache\<lparr>kv_head := h\<rparr>)"
proof (cases "bt_n_tokens batch > kv_size cache")
  case True
  then show ?thesis
    using assms by (intro full [of "kv_head cache"]) (auto simp: whisper_kv_cache_find_slot_def slot_def kv_ok_def)
next
  case False
  then have "search_result (kv_cells cache) (kv_size cache) (bt_n_tokens batch)
      (slot_search (kv_cells cache) (kv_size cache) (bt_n_tokens batch) (kv_head cache) 0)"
    using slot_search_correct assms by (simp add: kv_ok_def)
  then show ?thesis
    unfolding search_result_def
  proof (elim disjE exE conjE)
    fix s assume r: "slot_search (kv_cells cache) (kv_size cache) (bt_n_tokens batch) (kv_head cache) 0 = Some (True, s)"
      and s: "slot (kv_cells cache) (kv_size cache) (bt_n_tokens batch) s"
    have "kc_seq_id (kv_cells cache ! (s + i)) = {}" if "i < bt_n_tokens batch" for i
    proof -
      have "kv_cells cache ! (s + i) \<in> set (kv_cells cache)" "kc_pos (kv_cells cache ! (s + i)) < 0"
        using s assms that by (auto simp: slot_def kv_ok_def)
      then show ?thesis using assms by (fastforce simp: kv_ok_def cell_ok_def split: if_splits)
    qed
    then have "for_range 0 (bt_n_tokens batch) (fill_cell batch s) (kv_cells cache)
       = take s (kv_cells cache) @ batch_cells batch @ drop (s + bt_n_tokens batch) (kv_cells cache)"
      using s assms unfolding batch_cells_def by (intro fill_loop) (auto simp: slot_def kv_ok_def)
    then show thesis using False r s by (intro found [of s]) (simp_all add: whisper_kv_cache_find_slot_def)
  next
    fix h assume "slot_search (kv_cells cache) (kv_size cache) (bt_n_tokens batch) (kv_head cache) 0 = Some (False, h)"
      "\<forall>s. \<not> slot (kv_cells cache) (kv_size cache) (bt_n_tokens batch) s" "h \<le> kv_size cache"
    then show thesis using False by (intro full [of h]) (simp_all add: whisper_kv_cache_find_slot_def)
  qed
qed

lemma kv_ok_find_slot:
  assumes "kv_ok cache" and "batch_ok batch"
  shows "\<exists>found cache'. whisper_kv_cache_find_slot cache batch = Some (found, cache') \<and> kv_ok cache'"
proof (cases rule: find_slot_result [OF assms(1), of batch])
  case (1 s)
  have "cell_ok (batch_cell batch i)" if "i < bt_n_tokens batch" for i
    using assms(2) that by (auto simp: batch_ok_def batch_cell_def cell_ok_def bt_n_tokens_def)
  then show ?thesis using 1 assms(1)
    by (auto simp: kv_ok_def batch_cells_def slot_def dest: in_set_takeD in_set_dropD)
next
  case (2 h)
  then show ?thesis using assms(1) by (auto simp: kv_ok_def)
qed


section \<open>Which cells a token sees\<close>

lemma cell_max_loop_bound:
  "i \<le> m \<Longrightarrow> kc_pos (cells ! i) \<ge> 0 \<Longrightarrow> kc_seq_id (cells ! i) \<noteq> {} \<Longrightarrow> i < cell_max_loop cells m"
  by (induction cells m rule: cell_max_loop.induct) (auto simp: le_Suc_eq)

lemma cell_max_loop_le: "cell_max_loop cells m \<le> m + 1"
  by (induction cells m rule: cell_max_loop.induct) auto

lemma GGML_PAD_1: "n < 2 ^ 32 \<Longrightarrow> GGML_PAD n 1 = n"
  by (simp add: GGML_PAD_def unsigned_of_nat take_bit_nat_eq_self)

definition holders :: "whisper_kv_cache \<Rightarrow> int \<Rightarrow> nat set" where
  "holders cache sid = {i. i < kv_size cache \<and> sid \<in> kc_seq_id (kv_cells cache ! i)}"

definition visible :: "bool list list \<Rightarrow> nat \<Rightarrow> nat set" where
  "visible hidden j = {i. i < length (hidden ! j) \<and> \<not> hidden ! j ! i}"

lemma kv_prepare_visible:
  assumes ok: "kv_ok cache" "batch_ok batch" and size: "0 < kv_size cache" "kv_size cache < 2 ^ 32"
    and prep: "kv_prepare params cache batch = Some (True, cache')" and j: "j < bt_n_tokens batch"
  shows "visible (kq_mask cache' batch) j
    = {i \<in> holders cache' (hd (bt_seq_id batch ! j)). kc_pos (kv_cells cache' ! i) \<le> bt_pos batch ! j}"
proof -
  obtain c where c: "whisper_kv_cache_find_slot cache batch = Some (True, c)" and cache': "cache' = c\<lparr>kv_n := min (kv_size c) (max 1 (GGML_PAD (whisper_kv_cache_cell_max c) 1))\<rparr>"
    using prep by (auto simp: kv_prepare_def whisper_kv_cache_get_padding_def Let_def bind_eq_Some_conv split: if_splits)
  have cok: "kv_ok c" using kv_ok_find_slot [OF ok] c by auto
  have csize: "kv_size c = kv_size cache"
    using c by (cases rule: find_slot_result [OF ok(1), of batch]) auto
  have "whisper_kv_cache_cell_max c \<le> kv_size c"
    using cell_max_loop_le [of "kv_cells c" "kv_size c - 1"] size(1) by (simp add: whisper_kv_cache_cell_max_def csize)
  then have "GGML_PAD (whisper_kv_cache_cell_max c) 1 = whisper_kv_cache_cell_max c"
    using size(2) csize by (intro GGML_PAD_1) simp
  then have n: "whisper_kv_cache_cell_max c \<le> kv_n cache'" "kv_n cache' \<le> kv_size cache'"
    using \<open>whisper_kv_cache_cell_max c \<le> kv_size c\<close> by (auto simp: cache')
  have "i < kv_n cache'" if "i \<in> holders cache' sid" for i sid
  proof -
    have i: "i < kv_size c" "sid \<in> kc_seq_id (kv_cells c ! i)" using that by (auto simp: holders_def cache')
    then have "cell_ok (kv_cells c ! i)" using cok by (auto simp: kv_ok_def)
    then have "0 \<le> kc_pos (kv_cells c ! i)" "kc_seq_id (kv_cells c ! i) \<noteq> {}"
      using i by (auto simp: cell_ok_def split: if_splits)
    then have "i < whisper_kv_cache_cell_max c"
      unfolding whisper_kv_cache_cell_max_def using i by (intro cell_max_loop_bound) auto
    then show ?thesis using n by simp
  qed
  then show ?thesis
    using j n unfolding visible_def kq_mask_def holders_def has_seq_id_def by auto
qed

section \<open>Exchange of sequences\<close>

definition cell_of :: "int \<Rightarrow> int set \<Rightarrow> whisper_kv_cell" where
  "cell_of p S = \<lparr>kc_pos = (if S = {} then - 1 else p), kc_seq_id = S\<rparr>"

lemma cell_of_ok: "cell_ok cell \<Longrightarrow> cell_of (kc_pos cell) (kc_seq_id cell) = cell"
  by (cases cell) (auto simp: cell_of_def cell_ok_def split: if_splits)

lemma rm_cell_of:
  "0 \<le> sid \<Longrightarrow> S = {} \<or> 0 \<le> p \<and> p < POS_MAX \<Longrightarrow> rm_cell sid 0 POS_MAX (cell_of p S) = cell_of p (S - {sid})"
  by (auto simp: rm_cell_def cell_of_def Let_def)

lemma cp_cell_of:
  "S = {} \<or> 0 \<le> p \<and> p < POS_MAX \<Longrightarrow>
   cp_cell a b 0 POS_MAX (cell_of p S) = cell_of p (if a \<in> S then insert b S else S)"
  by (auto simp: cp_cell_def cell_of_def)

text \<open>The effect of both phases on the ids of one cell.\<close>

definition gather_ids :: "nat \<times> nat \<Rightarrow> int set \<Rightarrow> int set" where
  "gather_ids = (\<lambda>(j, src) S. if int src \<in> S then insert (WHISPER_MAX_DECODERS + int j) S else S)"

definition release_ids :: "nat \<times> nat \<Rightarrow> int set \<Rightarrow> int set" where
  "release_ids = (\<lambda>(j, src) S. (if WHISPER_MAX_DECODERS + int j \<in> S - {int j} then insert (int j) (S - {int j}) else S - {int j})
      - {WHISPER_MAX_DECODERS + int j})"

definition same_cells :: "whisper_kv_cache \<Rightarrow> (nat \<Rightarrow> int) \<Rightarrow> (nat \<Rightarrow> int set) \<Rightarrow> bool" where
  "same_cells cache p S \<longleftrightarrow> kv_cells cache = map (\<lambda>i. cell_of (p i) (S i)) [0..<kv_size cache]"

lemma gather_step:
  assumes "kv_ok cache" and "same_cells cache p S" and "\<forall>i < kv_size cache. S i = {} \<or> 0 \<le> p i \<and> p i < POS_MAX"
  shows "same_cells (whisper_kv_cache_seq_cp cache a b (- 1) (- 1)) p (\<lambda>i. if a \<in> S i then insert b (S i) else S i)"
  using assms by (auto simp: same_cells_def seq_cp_eq cp_cell_of)

lemma release_step:
  assumes "kv_ok cache" and "same_cells cache p S" and "\<forall>i < kv_size cache. S i = {} \<or> 0 \<le> p i \<and> p i < POS_MAX"
    and "0 \<le> a"
  shows "same_cells (whisper_kv_cache_seq_rm cache a (- 1) (- 1)) p (\<lambda>i. S i - {a})"
  using assms by (auto simp: same_cells_def seq_rm_eq rm_cell_of)

definition shaped :: "nat \<Rightarrow> (nat \<Rightarrow> int) \<Rightarrow> (nat \<Rightarrow> int set) \<Rightarrow> whisper_kv_cache \<Rightarrow> bool" where
  "shaped n p S cache \<longleftrightarrow> kv_ok cache \<and> kv_size cache = n \<and> same_cells cache p S
     \<and> (\<forall>i<n. S i = {} \<or> 0 \<le> p i \<and> p i < POS_MAX)"

lemma seq_cp_size: "kv_ok cache \<Longrightarrow> kv_size (whisper_kv_cache_seq_cp cache a b p0 p1) = kv_size cache"
  by (simp add: seq_cp_eq)

lemma shaped_cp:
  "shaped n p S cache \<Longrightarrow>
   shaped n p (\<lambda>i. if a \<in> S i then insert b (S i) else S i) (whisper_kv_cache_seq_cp cache a b (- 1) (- 1))"
  unfolding shaped_def by (auto simp: gather_step kv_ok_seq_cp seq_cp_size)

lemma shaped_rm:
  "shaped n p S cache \<Longrightarrow> 0 \<le> a \<Longrightarrow> shaped n p (\<lambda>i. S i - {a}) (whisper_kv_cache_seq_rm cache a (- 1) (- 1))"
  unfolding shaped_def by (auto simp: release_step kv_ok_seq_rm seq_rm_eq(2))

lemma shaped_gather:
  "shaped n p S cache \<Longrightarrow>
   shaped n p (\<lambda>i. fold gather_ids moves (S i))
     (fold (\<lambda>(j, decoder_idx) cache.
        whisper_kv_cache_seq_cp cache (int decoder_idx) (WHISPER_MAX_DECODERS + int j) (- 1) (- 1)) moves cache)"
proof (induction moves arbitrary: S cache)
  case (Cons m moves)
  obtain j src where m: "m = (j, src)" by (cases m)
  show ?case
    using Cons.IH [OF shaped_cp [OF Cons.prems, of "int src" "WHISPER_MAX_DECODERS + int j"]]
    by (simp add: m gather_ids_def)
qed simp

lemma shaped_release:
  "shaped n p S cache \<Longrightarrow>
   shaped n p (\<lambda>i. fold release_ids moves (S i))
     (fold (\<lambda>(j, decoder_idx) cache.
            let cache = whisper_kv_cache_seq_rm cache (int j) (- 1) (- 1);
                cache = whisper_kv_cache_seq_cp cache (WHISPER_MAX_DECODERS + int j) (int j) (- 1) (- 1)
            in whisper_kv_cache_seq_rm cache (WHISPER_MAX_DECODERS + int j) (- 1) (- 1)) moves cache)"
proof (induction moves arbitrary: S cache)
  case (Cons m moves)
  obtain j src where m: "m = (j, src)" by (cases m)
  have "0 \<le> int j" "0 \<le> WHISPER_MAX_DECODERS + int j" by (simp_all add: WHISPER_MAX_DECODERS_def)
  note step = shaped_rm [OF shaped_cp [OF shaped_rm [OF Cons.prems this(1)], of "WHISPER_MAX_DECODERS + int j" "int j"] this(2)]
  show ?case
    using Cons.IH [OF step] by (simp add: m release_ids_def Let_def)
qed simp

lemma gather_member:
  assumes "\<forall>(j, src) \<in> set moves. src < 8"
  shows "x \<in> fold gather_ids moves S \<longleftrightarrow> x \<in> S \<or> (\<exists>(j, src) \<in> set moves. x = 8 + int j \<and> int src \<in> S)"
  using assms
proof (induction moves arbitrary: S)
  case (Cons m moves)
  obtain j src where m: "m = (j, src)" by (cases m)
  have step: "y \<in> gather_ids m S \<longleftrightarrow> y \<in> S \<or> y = 8 + int j \<and> int src \<in> S" for y
    by (auto simp: m gather_ids_def WHISPER_MAX_DECODERS_def)
  have "(\<exists>(j, src) \<in> set moves. x = 8 + int j \<and> int src \<in> gather_ids m S) \<longleftrightarrow>
      (\<exists>(j, src) \<in> set moves. x = 8 + int j \<and> int src \<in> S)"
    by (rule bex_cong) (use Cons.prems in \<open>auto simp: step\<close>)
  then have "x \<in> fold gather_ids (m # moves) S \<longleftrightarrow>
      x \<in> gather_ids m S \<or> (\<exists>(j, src) \<in> set moves. x = 8 + int j \<and> int src \<in> S)"
    using Cons.IH [of "gather_ids m S"] Cons.prems by simp
  then show ?case unfolding step by (auto simp: m)
qed simp

lemma release_member:
  assumes "distinct (map fst moves)" and "\<forall>(j, src) \<in> set moves. j < 8"
  shows "x \<in> fold release_ids moves S \<longleftrightarrow>
     (if x \<in> int ` fst ` set moves then 8 + x \<in> S else x \<in> S \<and> x - 8 \<notin> int ` fst ` set moves)"
  using assms
proof (induction moves arbitrary: S)
  case (Cons m moves)
  obtain j src where m: "m = (j, src)" by (cases m)
  define K where "K = int ` fst ` set moves"
  have K: "int j \<notin> K" "\<forall>k \<in> K. 0 \<le> k \<and> k < 8" "j < 8" and K': "int ` fst ` set (m # moves) = insert (int j) K"
    using Cons.prems by (force simp: m K_def)+
  have step: "y \<in> release_ids m S \<longleftrightarrow> (if y = int j then 8 + int j \<in> S else y \<in> S \<and> y \<noteq> 8 + int j)" for y
    using K(3) by (auto simp: m release_ids_def WHISPER_MAX_DECODERS_def)
  have "x \<in> fold release_ids (m # moves) S \<longleftrightarrow>
      (if x \<in> K then 8 + x \<in> release_ids m S else x \<in> release_ids m S \<and> x - 8 \<notin> K)"
    using Cons.IH [of "release_ids m S"] Cons.prems unfolding K_def [symmetric] by simp
  also have "\<dots> \<longleftrightarrow> (if x \<in> insert (int j) K then 8 + x \<in> S else x \<in> S \<and> x - 8 \<notin> insert (int j) K)"
  proof (cases "x = int j")
    case True
    then have "x \<notin> K" "x - 8 \<notin> K" using K by auto
    then show ?thesis by (simp add: step True)
  next
    case False
    have "8 + x = int j \<Longrightarrow> x \<notin> K" using K by auto
    then show ?thesis using False by (auto simp: step)
  qed
  finally show ?case unfolding K' .
qed simp

lemma kv_reorder_shaped:
  assumes "kv_ok cache"
  shows "shaped (kv_size cache) (\<lambda>i. kc_pos (kv_cells cache ! i))
     (\<lambda>i. fold release_ids moves (fold gather_ids moves (kc_seq_id (kv_cells cache ! i)))) (kv_reorder moves cache)"
proof -
  have "shaped (kv_size cache) (\<lambda>i. kc_pos (kv_cells cache ! i)) (\<lambda>i. kc_seq_id (kv_cells cache ! i)) cache"
  proof -
    have ok: "cell_ok (kv_cells cache ! i)" if "i < kv_size cache" for i using assms that by (auto simp: kv_ok_def)
    then have "kv_cells cache = map (\<lambda>i. cell_of (kc_pos (kv_cells cache ! i)) (kc_seq_id (kv_cells cache ! i))) [0..<kv_size cache]"
      using assms by (intro nth_equalityI) (simp_all add: kv_ok_def cell_of_ok)
    moreover have "kc_seq_id (kv_cells cache ! i) = {} \<or> 0 \<le> kc_pos (kv_cells cache ! i) \<and> kc_pos (kv_cells cache ! i) < POS_MAX"
      if "i < kv_size cache" for i
      using ok [OF that] by (auto simp: cell_ok_def split: if_splits)
    ultimately show ?thesis using assms by (simp add: shaped_def same_cells_def)
  qed
  then show ?thesis
    unfolding kv_reorder_def Let_def by (intro shaped_release [unfolded Let_def] shaped_gather)
qed

lemma kv_reorder_ids:
  assumes "kv_ok cache" and "distinct (map fst moves)" and "\<forall>(j, src) \<in> set moves. j < 8 \<and> src < 8"
    and "\<forall>j<8. holders cache (8 + int j) = {}" and "x < 8"
  shows "kv_ok (kv_reorder moves cache) \<and> kv_size (kv_reorder moves cache) = kv_size cache
   \<and> holders (kv_reorder moves cache) (int x) = holders cache (int (case map_of moves x of Some src \<Rightarrow> src | None \<Rightarrow> x))
   \<and> holders (kv_reorder moves cache) (8 + int x) = {}
   \<and> (\<forall>i \<in> holders (kv_reorder moves cache) (int x). kc_pos (kv_cells (kv_reorder moves cache) ! i) = kc_pos (kv_cells cache ! i))"
proof -
  let ?r = "kv_reorder moves cache" and ?ids = "\<lambda>i. kc_seq_id (kv_cells cache ! i)"
  let ?S = "\<lambda>i. fold release_ids moves (fold gather_ids moves (?ids i))"
  have shape: "shaped (kv_size cache) (\<lambda>i. kc_pos (kv_cells cache ! i)) ?S ?r"
    using assms(1) by (rule kv_reorder_shaped)
  then have ok: "kv_ok ?r" "kv_size ?r = kv_size cache" by (simp_all add: shaped_def)
  have cells: "kv_cells ?r ! i = cell_of (kc_pos (kv_cells cache ! i)) (?S i)" if "i < kv_size cache" for i
    using that shape by (auto simp: shaped_def same_cells_def)
  have small: "\<forall>(j, src) \<in> set moves. src < 8" "\<forall>(j, src) \<in> set moves. j < 8" using assms(3) by auto
  have scratch: "8 + int j \<notin> ?ids i" if "i < kv_size cache" "j < 8" for i j
    using assms(4) that by (auto simp: holders_def)
  have gather: "y \<in> fold gather_ids moves (?ids i) \<longleftrightarrow> y \<in> ?ids i \<or> (\<exists>(j, src) \<in> set moves. y = 8 + int j \<and> int src \<in> ?ids i)" for y i
    using small(1) by (rule gather_member)
  have K: "8 + int x \<notin> int ` fst ` set moves" "int x - 8 \<notin> int ` fst ` set moves"
    using small(2) assms(5) by force+
  have moved: "int x \<in> ?S i \<longleftrightarrow> int (case map_of moves x of Some src \<Rightarrow> src | None \<Rightarrow> x) \<in> ?ids i" (is ?moved)
    and clean: "8 + int x \<notin> ?S i" if i: "i < kv_size cache" for i
  proof -
    show ?moved
    proof (cases "map_of moves x")
      case None
      then have "int x \<notin> int ` fst ` set moves" by (force simp: map_of_eq_None_iff)
      then show ?thesis
        using None K(2) assms(5) by (auto simp: release_member [OF assms(2) small(2)] gather)
    next
      case (Some src)
      then have mem: "(x, src) \<in> set moves" by (rule map_of_SomeD)
      then have "int x \<in> int ` fst ` set moves" by force
      then have "int x \<in> ?S i \<longleftrightarrow> 8 + int x \<in> fold gather_ids moves (?ids i)"
        by (simp only: release_member [OF assms(2) small(2)] if_True)
      also have "\<dots> \<longleftrightarrow> (\<exists>(j, src') \<in> set moves. 8 + int x = 8 + int j \<and> int src' \<in> ?ids i)"
        using scratch [OF i assms(5)] by (simp only: gather simp_thms)
      also have "\<dots> \<longleftrightarrow> int src \<in> ?ids i"
      proof
        assume "\<exists>(j, src') \<in> set moves. 8 + int x = 8 + int j \<and> int src' \<in> ?ids i"
        then obtain src' where "(x, src') \<in> set moves" "int src' \<in> ?ids i" by auto
        then show "int src \<in> ?ids i" using eq_key_imp_eq_value [OF assms(2) _ mem, of src'] by simp
      next
        assume "int src \<in> ?ids i"
        then show "\<exists>(j, src') \<in> set moves. 8 + int x = 8 + int j \<and> int src' \<in> ?ids i"
          using mem by (intro bexI [of _ "(x, src)"]) simp_all
      qed
      finally show ?thesis by (simp only: Some option.case)
    qed
    show "8 + int x \<notin> ?S i"
      using K(1) scratch [OF i assms(5)] by (force simp: release_member [OF assms(2) small(2)] gather)
  qed
  have ids: "kc_seq_id (kv_cells ?r ! i) = ?S i" if "i < kv_size cache" for i
    using cells [OF that] by (simp add: cell_of_def)
  have h1: "holders ?r (int x) = holders cache (int (case map_of moves x of Some src \<Rightarrow> src | None \<Rightarrow> x))"
    using ids moved ok(2) by (auto simp: holders_def)
  have h2: "holders ?r (8 + int x) = {}" using ids clean ok(2) by (auto simp: holders_def)
  have h3: "kc_pos (kv_cells ?r ! i) = kc_pos (kv_cells cache ! i)" if "i \<in> holders ?r (int x)" for i
    using that cells [of i] ids [of i] ok(2) by (auto simp: holders_def cell_of_def)
  show ?thesis by (intro conjI ballI ok h1 h2 h3)
qed


text \<open>C24: the search for a slot ends; it succeeds exactly when the cache has enough consecutive free
  cells, wherever the search starts, and then exactly these cells hold the batch.\<close>

theorem find_slot_complete:
  assumes "kv_ok cache"
  shows "\<exists>found cache'. whisper_kv_cache_find_slot cache batch = Some (found, cache')
    \<and> kv_size cache' = kv_size cache
    \<and> found = (\<exists>s. slot (kv_cells cache) (kv_size cache) (bt_n_tokens batch) s)
    \<and> (let s = kv_head cache' in
        if found
        then slot (kv_cells cache) (kv_size cache) (bt_n_tokens batch) s
           \<and> kv_cells cache' = take s (kv_cells cache) @ batch_cells batch @ drop (s + bt_n_tokens batch) (kv_cells cache)
        else kv_cells cache' = kv_cells cache)"
  by (cases rule: find_slot_result [OF assms, of batch]) auto

text \<open>C25: every operation keeps the invariant of the cache: the head is inside, a cell is free exactly
  when no sequence holds it, and a used cell has a position.\<close>

theorem kv_invariant:
  assumes "kv_ok cache" and "batch_ok batch"
  shows "kv_ok (whisper_kv_cache_init n)
    \<and> kv_ok (whisper_kv_cache_clear cache)
    \<and> kv_ok (whisper_kv_cache_seq_rm cache sid p0 p1)
    \<and> kv_ok (whisper_kv_cache_seq_cp cache src dst p0 p1)
    \<and> (\<exists>found cache'. whisper_kv_cache_find_slot cache batch = Some (found, cache') \<and> kv_ok cache')"
  using assms kv_ok_init kv_ok_clear kv_ok_seq_rm kv_ok_seq_cp kv_ok_find_slot by blast

text \<open>C26: after the cache has been prepared for a batch, the mask of a token shows exactly the cells of
  its own sequence up to its position, among all cells of the cache.\<close>

theorem decode_sees_own_sequence:
  assumes "kv_ok cache" and "batch_ok batch" and "0 < kv_size cache" and "kv_size cache < 2 ^ 32"
    and "kv_prepare params cache batch = Some (True, cache')" and "j < bt_n_tokens batch"
  shows "visible (kq_mask cache' batch) j
    = {i \<in> holders cache' (hd (bt_seq_id batch ! j)). kc_pos (kv_cells cache' ! i) \<le> bt_pos batch ! j}"
  using kv_prepare_visible [OF assms] .

text \<open>C27: after the exchange in beam search every active decoder's sequence has the cells its source
  had before, with their positions; the other decoders keep theirs, and the scratch sequences are
  empty again.\<close>

theorem kv_reorder_correct:
  assumes "kv_ok cache" and "distinct (map fst moves)" and "\<forall>(j, src) \<in> set moves. j < 8 \<and> src < 8"
    and "\<forall>j<8. holders cache (8 + int j) = {}" and "x < 8"
  shows "kv_ok (kv_reorder moves cache) \<and> kv_size (kv_reorder moves cache) = kv_size cache
   \<and> holders (kv_reorder moves cache) (int x) = holders cache (int (case map_of moves x of Some src \<Rightarrow> src | None \<Rightarrow> x))
   \<and> holders (kv_reorder moves cache) (8 + int x) = {}
   \<and> (\<forall>i \<in> holders (kv_reorder moves cache) (int x). kc_pos (kv_cells (kv_reorder moves cache) ! i) = kc_pos (kv_cells cache ! i))"
  using kv_reorder_ids [OF assms] .

definition example_kv :: whisper_kv_cache where
  "example_kv = \<lparr>kv_head = 2, kv_size = 4, kv_n = 0,
     kv_cells = [\<lparr>kc_pos = 0, kc_seq_id = {0, 1}\<rparr>, empty_cell, \<lparr>kc_pos = 1, kc_seq_id = {1}\<rparr>, empty_cell]\<rparr>"

definition example_batch :: whisper_batch where
  "example_batch = \<lparr>bt_token = [7], bt_pos = [1], bt_seq_id = [[0]], bt_logits = [True]\<rparr>"

lemma example_kv_ok: "kv_ok example_kv" "batch_ok example_batch" "bt_n_tokens example_batch = 1"
  by (simp_all add: example_kv_def example_batch_def kv_ok_def cell_ok_def empty_cell_def POS_MAX_def batch_ok_def bt_n_tokens_def)

theorem find_slot_complete_witness:
  "\<exists>found cache'. whisper_kv_cache_find_slot example_kv example_batch = Some (found, cache') \<and> found \<and> kv_size cache' = 4"
proof -
  have "slot (kv_cells example_kv) (kv_size example_kv) (bt_n_tokens example_batch) 3"
    by (simp add: example_kv_def slot_def empty_cell_def example_kv_ok eval_nat_numeral)
  then show ?thesis
    using find_slot_complete [OF example_kv_ok(1), of example_batch] by (auto simp: example_kv_def)
qed

theorem kv_invariant_witness:
  "kv_ok (whisper_kv_cache_seq_rm example_kv 1 0 (- 1)) \<and> kv_ok (whisper_kv_cache_clear example_kv)"
  using kv_invariant [OF example_kv_ok(1,2)] by blast

theorem decode_sees_own_sequence_witness:
  "\<exists>cache'. kv_prepare whisper_context_default_params example_kv example_batch = Some (True, cache')
    \<and> visible (kq_mask cache' example_batch) 0
      = {i \<in> holders cache' (hd (bt_seq_id example_batch ! 0)). kc_pos (kv_cells cache' ! i) \<le> bt_pos example_batch ! 0}"
proof -
  have "slot_search (kv_cells example_kv) 4 1 2 0 = Some (True, 3)"
    by (subst slot_search.simps, subst slot_search.simps)
      (simp add: used_in_window_def example_kv_def empty_cell_def eval_nat_numeral)
  then have "\<exists>cache'. kv_prepare whisper_context_default_params example_kv example_batch = Some (True, cache')"
    by (simp add: kv_prepare_def whisper_kv_cache_find_slot_def example_kv_ok(3) Let_def)
      (simp add: example_kv_def)
  then show ?thesis
    using decode_sees_own_sequence [OF example_kv_ok(1,2), of whisper_context_default_params _ 0]
    by (auto simp: example_kv_ok(3)) (simp_all add: example_kv_def)
qed

theorem kv_reorder_correct_witness:
  "holders (kv_reorder [(0, 1)] example_kv) 0 = {0, 2}"
proof -
  have "\<forall>j<8. holders example_kv (8 + int j) = {}"
    by (auto simp: holders_def example_kv_def empty_cell_def nth_Cons' split: if_splits)
  then have "holders (kv_reorder [(0, 1)] example_kv) (int 0) = holders example_kv (int 1)"
    using kv_reorder_correct [OF example_kv_ok(1), of "[(0, 1)]" 0] by simp
  also have "\<dots> = {0, 2}" by (auto simp: holders_def example_kv_def empty_cell_def nth_Cons')
  finally show ?thesis by simp
qed

end
