(* ===== verification/Grammar.thy ===== *)
theory Grammar
  imports Complex_Main Prelude "HOL-Library.Monad_Syntax" "HOL-Library.Multiset"
begin

unbundle bit_operations_syntax

text \<open>
  The grammar-constrained decoding of Whisper/src/whisper.cpp: the incremental UTF-8 decoder, the
  pushdown stacks of a grammar, acceptance of characters and rejection of candidate tokens. A pointer
  into a rule is the rest of the rule from there, a stack is a list with its top first. The recursion
  of \<open>whisper_grammar_advance_stack\<close> does not end for left-recursive grammars, so it has fuel, the
  depth of the recursion; \<open>None\<close> is running out of it, or a failed assertion.
\<close>

section \<open>Elements and UTF-8\<close>

datatype whisper_gretype = GRETYPE_END | GRETYPE_ALT | GRETYPE_RULE_REF | GRETYPE_CHAR | GRETYPE_CHAR_NOT
  | GRETYPE_CHAR_RNG_UPPER | GRETYPE_CHAR_ALT

record whisper_grammar_element =
  ge_type :: whisper_gretype
  ge_value :: u32

type_synonym grammar_pos = "whisper_grammar_element list"
type_synonym grammar_stack = "grammar_pos list"

record whisper_partial_utf8 =
  pu_value :: u32
  pu_n_remain :: int

definition utf8_lookup :: "int list" where
  "utf8_lookup = [1, 1, 1, 1, 1, 1, 1, 1, 0, 0, 0, 0, 2, 2, 3, 4]"

text \<open>The first loop, on the bytes before the terminating zero; \<open>None\<close> is the abort.\<close>

fun continue_utf8 :: "u8 list \<Rightarrow> u32 \<Rightarrow> int \<Rightarrow> (u8 list \<times> u32 \<times> int) option" where
  "continue_utf8 [] v n_remain = Some ([], v, n_remain)"
| "continue_utf8 (b # bs) v n_remain =
     (if n_remain > 0
      then if drop_bit 6 b \<noteq> 2 then None
           else continue_utf8 bs (push_bit 6 v + (ucast b AND 0x3F)) (n_remain - 1)
      else Some (b # bs, v, n_remain))"

text \<open>The inner loop of the second one.\<close>

fun take_payload :: "u8 list \<Rightarrow> u32 \<Rightarrow> int \<Rightarrow> u8 list \<times> u32 \<times> int" where
  "take_payload [] v n_remain = ([], v, n_remain)"
| "take_payload (b # bs) v n_remain =
     (if n_remain > 0 then take_payload bs (push_bit 6 v + (ucast b AND 0x3F)) (n_remain - 1)
      else (b # bs, v, n_remain))"

lemma take_payload_length: "length (fst (take_payload bs v n)) \<le> length bs"
  by (induction bs v n rule: take_payload.induct) auto

function decode_loop :: "u8 list \<Rightarrow> u32 list \<Rightarrow> u32 \<Rightarrow> int \<Rightarrow> u32 list \<times> whisper_partial_utf8" where
  "decode_loop [] code_points v n_remain = (code_points @ [0], \<lparr>pu_value = v, pu_n_remain = n_remain\<rparr>)"
| "decode_loop (first_byte # bs) code_points v n_remain =
     (let n_remain = utf8_lookup ! unat (drop_bit 4 first_byte) - 1
      in if n_remain < 0 then ([0], \<lparr>pu_value = 0, pu_n_remain = n_remain\<rparr>)
         else
           let (bs', v, n_remain) = take_payload bs (ucast (first_byte AND (push_bit (nat (7 - n_remain)) 1 - 1))) n_remain
           in decode_loop bs' (if n_remain = 0 then code_points @ [v] else code_points) v n_remain)"
  by pat_completeness auto
termination
  by (relation "measure (\<lambda>(bs, _). length bs)")
    (simp_all, metis fst_conv le_imp_less_Suc take_payload_length)

definition decode_utf8 :: "u8 list \<Rightarrow> whisper_partial_utf8 \<Rightarrow> u32 list \<times> whisper_partial_utf8" where
  "decode_utf8 src partial_start =
     (let src = takeWhile (\<lambda>b. b \<noteq> 0) src
      in case continue_utf8 src (pu_value partial_start) (pu_n_remain partial_start) of
           None \<Rightarrow> ([0], \<lparr>pu_value = 0, pu_n_remain = - 1\<rparr>)
         | Some (rest, v, n_remain) \<Rightarrow>
             decode_loop rest (if pu_n_remain partial_start > 0 \<and> n_remain = 0 then [v] else []) v n_remain)"

section \<open>Matching characters\<close>

definition whisper_grammar_is_end_of_sequence :: "grammar_pos \<Rightarrow> bool" where
  "whisper_grammar_is_end_of_sequence p =
     (case p of [] \<Rightarrow> True | e # _ \<Rightarrow> ge_type e = GRETYPE_END \<or> ge_type e = GRETYPE_ALT)"

text \<open>The test of one range or character: whether it matches and the position after it.\<close>

fun match_element :: "(u32 \<Rightarrow> u32 \<Rightarrow> bool) \<Rightarrow> (u32 \<Rightarrow> bool) \<Rightarrow> grammar_pos \<Rightarrow> bool \<times> grammar_pos" where
  "match_element in_range same (e # u # p) =
     (if ge_type u = GRETYPE_CHAR_RNG_UPPER then (in_range (ge_value e) (ge_value u), p) else (same (ge_value e), u # p))"
| "match_element in_range same [e] = (same (ge_value e), [])"
| "match_element in_range same [] = (False, [])"

lemma match_element_length: "p \<noteq> [] \<Longrightarrow> length (snd (match_element f g p)) < length p"
  by (induction f g p rule: match_element.induct) auto

lemma match_element_shorter: "(hit, q) = match_element f g p \<Longrightarrow> p \<noteq> [] \<Longrightarrow> length q < length p"
  using match_element_length [of p f g] by (metis snd_conv)

definition at_alternative_char :: "grammar_pos \<Rightarrow> bool" where
  "at_alternative_char p = (case p of [] \<Rightarrow> False | e # _ \<Rightarrow> ge_type e = GRETYPE_CHAR_ALT)"

function match_loop :: "u32 \<Rightarrow> bool \<Rightarrow> grammar_pos \<Rightarrow> bool \<times> grammar_pos" where
  "match_loop chr found p =
     (let (hit, q) = match_element (\<lambda>lo hi. lo \<le> chr \<and> chr \<le> hi) (\<lambda>v. v = chr) p
      in if at_alternative_char q \<and> p \<noteq> [] then match_loop chr (found \<or> hit) q else (found \<or> hit, q))"
  by pat_completeness auto
termination
  by (relation "measure (\<lambda>(_, _, p). length p)") (auto dest: match_element_shorter)

definition is_char_range :: "grammar_pos \<Rightarrow> bool" where
  "is_char_range p = (case p of [] \<Rightarrow> False | e # _ \<Rightarrow> ge_type e = GRETYPE_CHAR \<or> ge_type e = GRETYPE_CHAR_NOT)"

definition is_positive_char :: "grammar_pos \<Rightarrow> bool" where
  "is_positive_char p = (case p of [] \<Rightarrow> False | e # _ \<Rightarrow> ge_type e = GRETYPE_CHAR)"

text \<open>The position is at a character range, as asserted.\<close>

definition whisper_grammar_match_char :: "grammar_pos \<Rightarrow> u32 \<Rightarrow> bool \<times> grammar_pos" where
  "whisper_grammar_match_char p chr =
     (let (found, q) = match_loop chr False p in (found = is_positive_char p, q))"

function partial_loop :: "u32 \<Rightarrow> u32 \<Rightarrow> grammar_pos \<Rightarrow> bool" where
  "partial_loop low high p =
     (let (hit, q) = match_element (\<lambda>lo hi. lo \<le> high \<and> low \<le> hi) (\<lambda>v. low \<le> v \<and> v \<le> high) p
      in if hit then True else if at_alternative_char q \<and> p \<noteq> [] then partial_loop low high q else False)"
  by pat_completeness auto
termination
  by (relation "measure (\<lambda>(_, _, p). length p)") (auto dest: match_element_shorter)

declare match_loop.simps [simp del] partial_loop.simps [simp del]

definition whisper_grammar_match_partial_char :: "grammar_pos \<Rightarrow> whisper_partial_utf8 \<Rightarrow> bool" where
  "whisper_grammar_match_partial_char p partial_utf8 =
     (let partial_value = pu_value partial_utf8;
          n_remain = pu_n_remain partial_utf8
      in if n_remain < 0 \<or> (n_remain = 1 \<and> partial_value < 2) then False
         else
           let low = push_bit (nat (n_remain * 6)) partial_value;
               high = low OR (push_bit (nat (n_remain * 6)) 1 - 1);
               low = (if low = 0 then if n_remain = 2 then push_bit 11 1 else if n_remain = 3 then push_bit 16 1 else low
                      else low)
           in if partial_loop low high p then is_positive_char p else \<not> is_positive_char p)"

section \<open>Stacks\<close>

text \<open>The start of every alternate of a rule, from the position of the first.\<close>

definition scan_to_end :: "grammar_pos \<Rightarrow> grammar_pos" where
  "scan_to_end p = dropWhile (\<lambda>e. \<not> (ge_type e = GRETYPE_END \<or> ge_type e = GRETYPE_ALT)) p"

function alternates :: "grammar_pos \<Rightarrow> grammar_pos list" where
  "alternates p = p # (case scan_to_end p of e # q \<Rightarrow> if ge_type e = GRETYPE_ALT then alternates q else [] | [] \<Rightarrow> [])"
  by pat_completeness auto
termination
proof (relation "measure length")
  fix p e q assume "scan_to_end p = e # q"
  then have "length (e # q) \<le> length p" unfolding scan_to_end_def by (metis length_dropWhile_le)
  then show "(q, p) \<in> measure length" by simp
qed simp

declare alternates.simps [simp del]

definition push_pos :: "grammar_pos \<Rightarrow> grammar_stack \<Rightarrow> grammar_stack" where
  "push_pos p stack = (if whisper_grammar_is_end_of_sequence p then stack else p # stack)"

fun concat_results :: "'a list option list \<Rightarrow> 'a list option" where
  "concat_results [] = Some []"
| "concat_results (r # rs) = do { x \<leftarrow> r; y \<leftarrow> concat_results rs; Some (x @ y) }"

text \<open>The stacks appended to \<open>new_stacks\<close>.\<close>

primrec whisper_grammar_advance_stack ::
  "nat \<Rightarrow> whisper_grammar_element list list \<Rightarrow> grammar_stack \<Rightarrow> grammar_stack list option" where
  "whisper_grammar_advance_stack 0 rules stack = None"
| "whisper_grammar_advance_stack (Suc fuel) rules stack =
     (case stack of
        [] \<Rightarrow> Some [[]]
      | [] # _ \<Rightarrow> None
      | (e # p) # rest \<Rightarrow>
          (case ge_type e of
             GRETYPE_RULE_REF \<Rightarrow>
               concat_results (map (\<lambda>subpos. whisper_grammar_advance_stack fuel rules (push_pos subpos (push_pos p rest)))
                 (alternates (rules ! unat (ge_value e))))
           | GRETYPE_CHAR \<Rightarrow> Some [stack]
           | GRETYPE_CHAR_NOT \<Rightarrow> Some [stack]
           | _ \<Rightarrow> None))"

definition accept_stack :: "nat \<Rightarrow> whisper_grammar_element list list \<Rightarrow> u32 \<Rightarrow> grammar_stack \<Rightarrow> grammar_stack list option" where
  "accept_stack fuel rules chr stack =
     (case stack of [] \<Rightarrow> Some []
      | stack_pos # rest \<Rightarrow>
          let (matched, p) = whisper_grammar_match_char stack_pos chr
          in if matched then whisper_grammar_advance_stack fuel rules (push_pos p rest) else Some [])"

definition whisper_grammar_accept ::
  "nat \<Rightarrow> whisper_grammar_element list list \<Rightarrow> grammar_stack list \<Rightarrow> u32 \<Rightarrow> grammar_stack list option" where
  "whisper_grammar_accept fuel rules stacks chr = concat_results (map (accept_stack fuel rules chr) stacks)"

section \<open>Candidates\<close>

text \<open>A candidate points into its vector of code points, which ends in a zero.\<close>

record whisper_grammar_candidate =
  gc_id :: int
  gc_vector :: "u32 list"
  gc_offset :: nat
  gc_partial_utf8 :: whisper_partial_utf8

definition code_point :: "whisper_grammar_candidate \<Rightarrow> u32" where
  "code_point tok = gc_vector tok ! gc_offset tok"

definition rejects_now :: "grammar_pos \<Rightarrow> whisper_grammar_candidate \<Rightarrow> bool" where
  "rejects_now stack_pos tok =
     (if code_point tok = 0
      then pu_n_remain (gc_partial_utf8 tok) \<noteq> 0
           \<and> \<not> whisper_grammar_match_partial_char stack_pos (gc_partial_utf8 tok)
      else \<not> fst (whisper_grammar_match_char stack_pos (code_point tok)))"

definition goes_on :: "grammar_pos \<Rightarrow> whisper_grammar_candidate \<Rightarrow> bool" where
  "goes_on stack_pos tok \<longleftrightarrow> code_point tok \<noteq> 0 \<and> fst (whisper_grammar_match_char stack_pos (code_point tok))"

text \<open>The step of one stack; \<open>reject\<close> is the call for the next code points.\<close>

definition whisper_grammar_reject_candidates_for_stack ::
  "(grammar_stack list \<Rightarrow> whisper_grammar_candidate list \<Rightarrow> whisper_grammar_candidate list option)
    \<Rightarrow> nat \<Rightarrow> whisper_grammar_element list list \<Rightarrow> grammar_stack \<Rightarrow> whisper_grammar_candidate list
    \<Rightarrow> whisper_grammar_candidate list option" where
  "whisper_grammar_reject_candidates_for_stack reject fuel rules stack candidates =
     (case stack of
        [] \<Rightarrow> Some (filter (\<lambda>tok. code_point tok \<noteq> 0 \<or> pu_n_remain (gc_partial_utf8 tok) \<noteq> 0) candidates)
      | stack_pos # rest \<Rightarrow>
          let rejects = filter (rejects_now stack_pos) candidates;
              next_candidates = map (\<lambda>tok. tok\<lparr>gc_offset := gc_offset tok + 1\<rparr>) (filter (goes_on stack_pos) candidates);
              stack_after = push_pos (snd (whisper_grammar_match_char stack_pos 0)) rest
          in do {
               next_stacks \<leftarrow> whisper_grammar_advance_stack fuel rules stack_after;
               next_rejects \<leftarrow> reject next_stacks next_candidates;
               Some (rejects @ map (\<lambda>tok. tok\<lparr>gc_offset := gc_offset tok - 1\<rparr>) next_rejects)
             })"

text \<open>The depth bounds the number of code points of a candidate.\<close>

primrec whisper_grammar_reject_candidates ::
  "nat \<Rightarrow> nat \<Rightarrow> whisper_grammar_element list list \<Rightarrow> grammar_stack list \<Rightarrow> whisper_grammar_candidate list
    \<Rightarrow> whisper_grammar_candidate list option" where
  "whisper_grammar_reject_candidates 0 fuel rules stacks candidates = None"
| "whisper_grammar_reject_candidates (Suc depth) fuel rules stacks candidates =
     (if candidates = [] \<or> stacks = [] then Some []
      else fold (\<lambda>stack rejects. do {
               rejects \<leftarrow> rejects;
               whisper_grammar_reject_candidates_for_stack (whisper_grammar_reject_candidates depth fuel rules) fuel rules
                 stack rejects
             }) stacks (Some candidates))"

section \<open>Grammars\<close>

record whisper_grammar =
  gr_rules :: "whisper_grammar_element list list"
  gr_stacks :: "grammar_stack list"
  gr_partial_utf8 :: whisper_partial_utf8

definition whisper_grammar_init ::
  "nat \<Rightarrow> whisper_grammar_element list list \<Rightarrow> nat \<Rightarrow> whisper_grammar option" where
  "whisper_grammar_init fuel rules i_start_rule =
     (let vec_rules = map (\<lambda>r. takeWhile (\<lambda>e. ge_type e \<noteq> GRETYPE_END) r @ [\<lparr>ge_type = GRETYPE_END, ge_value = 0\<rparr>]) rules
      in do {
        stacks \<leftarrow> concat_results (map (\<lambda>p. whisper_grammar_advance_stack fuel vec_rules (push_pos p []))
                     (alternates (rules ! i_start_rule)));
        Some \<lparr>gr_rules = vec_rules, gr_stacks = stacks, gr_partial_utf8 = \<lparr>pu_value = 0, pu_n_remain = 0\<rparr>\<rparr>
      })"

definition grammar_candidates :: "(int \<Rightarrow> u8 list) \<Rightarrow> int \<Rightarrow> whisper_grammar \<Rightarrow> whisper_grammar_candidate list" where
  "grammar_candidates id_to_token eot grammar =
     map (\<lambda>tid. let (cps, partial) = decode_utf8 (id_to_token tid) (gr_partial_utf8 grammar)
                in \<lparr>gc_id = tid, gc_vector = cps, gc_offset = 0, gc_partial_utf8 = partial\<rparr>)
       (filter (\<lambda>tid. id_to_token tid \<noteq> []) (map int [0..<nat eot]))"

text \<open>A logit is \<open>None\<close> for \<open>-INFINITY\<close>.\<close>

definition whisper_suppress_invalid_grammar ::
  "nat \<Rightarrow> nat \<Rightarrow> (int \<Rightarrow> u8 list) \<Rightarrow> int \<Rightarrow> real \<Rightarrow> real option list \<Rightarrow> whisper_grammar \<Rightarrow> real option list option" where
  "whisper_suppress_invalid_grammar depth fuel id_to_token eot grammar_penalty logits grammar =
     (if gr_rules grammar = [] \<or> gr_stacks grammar = [] then Some logits
      else do {
        rejects \<leftarrow> whisper_grammar_reject_candidates depth fuel (gr_rules grammar) (gr_stacks grammar)
                     (grammar_candidates id_to_token eot grammar);
        Some (fold (\<lambda>r logits. logits[nat (gc_id r) := map_option (\<lambda>l. l - grammar_penalty) (logits ! nat (gc_id r))]) rejects logits)
      })"

definition accept_all :: "nat \<Rightarrow> whisper_grammar_element list list \<Rightarrow> u32 list \<Rightarrow> grammar_stack list \<Rightarrow> grammar_stack list option" where
  "accept_all fuel rules chrs stacks =
     fold (\<lambda>chr st. do { st \<leftarrow> st; whisper_grammar_accept fuel rules st chr }) chrs (Some stacks)"

definition whisper_grammar_accept_token ::
  "nat \<Rightarrow> (int \<Rightarrow> u8 list) \<Rightarrow> whisper_grammar \<Rightarrow> int \<Rightarrow> whisper_grammar option" where
  "whisper_grammar_accept_token fuel id_to_token grammar token =
     (if gr_rules grammar = [] \<or> gr_stacks grammar = [] then Some grammar
      else if take 2 (id_to_token token) = [0x5B, 0x5F] then Some grammar
      else
        let (code_points, partial) = decode_utf8 (id_to_token token) (gr_partial_utf8 grammar)
        in do {
          stacks \<leftarrow> accept_all fuel (gr_rules grammar) (butlast code_points) (gr_stacks grammar);
          Some (grammar\<lparr>gr_stacks := stacks, gr_partial_utf8 := partial\<rparr>)
        })"

section \<open>Well-formed grammars\<close>

text \<open>A position is valid if every character range and rule reference on the way ends before the end
  of the alternate, and the rule exists.\<close>

fun valid_pos :: "nat \<Rightarrow> grammar_pos \<Rightarrow> bool" where
  "valid_pos n [] = False"
| "valid_pos n (e # p) =
     (case ge_type e of
        GRETYPE_END \<Rightarrow> True
      | GRETYPE_ALT \<Rightarrow> valid_pos n p
      | GRETYPE_RULE_REF \<Rightarrow> unat (ge_value e) < n \<and> valid_pos n p
      | _ \<Rightarrow> valid_pos n p)"

text \<open>Elements that modify a range stand behind a range.\<close>

definition modifier :: "whisper_grammar_element \<Rightarrow> bool" where
  "modifier e \<longleftrightarrow> ge_type e = GRETYPE_CHAR_RNG_UPPER \<or> ge_type e = GRETYPE_CHAR_ALT"

definition begins_modifier :: "grammar_pos \<Rightarrow> bool" where
  "begins_modifier p = (case p of [] \<Rightarrow> False | e # _ \<Rightarrow> modifier e)"

fun ordered_pos :: "grammar_pos \<Rightarrow> bool" where
  "ordered_pos [] = True"
| "ordered_pos (e # p) =
     ((case ge_type e of
         GRETYPE_END \<Rightarrow> True
       | GRETYPE_CHAR_RNG_UPPER \<Rightarrow> ordered_pos p \<and> \<not> (begins_modifier p \<and> ge_type (hd p) = GRETYPE_CHAR_RNG_UPPER)
       | GRETYPE_CHAR \<Rightarrow> ordered_pos p
       | GRETYPE_CHAR_NOT \<Rightarrow> ordered_pos p
       | GRETYPE_CHAR_ALT \<Rightarrow> ordered_pos p
       | _ \<Rightarrow> ordered_pos p \<and> \<not> begins_modifier p))"

lemma match_loop_position: "snd (match_loop chr found p) = snd (match_loop chr' found' p)"
proof (induction chr found p arbitrary: chr' found' rule: match_loop.induct)
  case (1 chr found p)
  have snd: "snd (match_element f g p) = snd (match_element f' g' p)" for f g f' g'
    by (cases "(f, g, p)" rule: match_element.cases) simp_all
  obtain hit q where r: "match_element (\<lambda>lo hi. lo \<le> chr \<and> chr \<le> hi) (\<lambda>v. v = chr) p = (hit, q)" by fastforce
  obtain hit' where r': "match_element (\<lambda>lo hi. lo \<le> chr' \<and> chr' \<le> hi) (\<lambda>v. v = chr') p = (hit', q)"
    using snd [of "\<lambda>lo hi. lo \<le> chr \<and> chr \<le> hi" "\<lambda>v. v = chr" "\<lambda>lo hi. lo \<le> chr' \<and> chr' \<le> hi" "\<lambda>v. v = chr'"] r
    by (metis prod.collapse snd_conv)
  have e: "match_loop chr found p = (if at_alternative_char q \<and> p \<noteq> [] then match_loop chr (found \<or> hit) q else (found \<or> hit, q))"
    "match_loop chr' found' p = (if at_alternative_char q \<and> p \<noteq> [] then match_loop chr' (found' \<or> hit') q else (found' \<or> hit', q))"
    using r r' by (subst match_loop.simps, simp)+
  show ?case
  proof (cases "at_alternative_char q \<and> p \<noteq> []")
    case True
    show ?thesis unfolding e if_P [OF True] by (rule 1) (use r True in auto)
  qed (simp only: e if_False snd_conv)
qed

text \<open>After a range the position is again a good one.\<close>

lemma match_loop_good:
  assumes "ordered_pos p" and "valid_pos n p" and "p \<noteq> []"
    and "ge_type (hd p) \<in> {GRETYPE_CHAR, GRETYPE_CHAR_NOT, GRETYPE_CHAR_ALT}"
  shows "let q = snd (match_loop chr found p) in ordered_pos q \<and> valid_pos n q \<and> \<not> begins_modifier q \<and> length q < length p"
  using assms
proof (induction chr found p rule: match_loop.induct)
  case (1 chr found p)
  then obtain e r where p: "p = e # r" by (cases p) auto
  then obtain u r' where r: "r = u # r'" using 1 by (cases r) (auto split: whisper_gretype.splits)
  let ?m = "match_element (\<lambda>lo hi. lo \<le> chr \<and> chr \<le> hi) (\<lambda>v. v = chr) p"
  let ?q = "snd ?m"
  have q: "?q = (if ge_type u = GRETYPE_CHAR_RNG_UPPER then r' else r)" by (simp add: p r)
  have good: "ordered_pos ?q" "valid_pos n ?q" "length ?q < length p" "?q \<noteq> []"
    and upper: "begins_modifier ?q \<Longrightarrow> at_alternative_char ?q"
    using 1(2-) unfolding q
    by (auto simp: p r begins_modifier_def modifier_def at_alternative_char_def split: whisper_gretype.splits list.splits)
  have eq: "match_loop chr found p = (if at_alternative_char ?q then match_loop chr (found \<or> fst ?m) ?q else (found \<or> fst ?m, ?q))"
    by (subst match_loop.simps) (simp add: case_prod_unfold Let_def p)
  show ?case
  proof (cases "at_alternative_char ?q")
    case True
    then have alt: "ge_type (hd ?q) \<in> {GRETYPE_CHAR, GRETYPE_CHAR_NOT, GRETYPE_CHAR_ALT}"
      by (auto simp: at_alternative_char_def split: list.splits)
    have "let q = snd (match_loop chr (found \<or> fst ?m) ?q) in ordered_pos q \<and> valid_pos n q \<and> \<not> begins_modifier q \<and> length q < length ?q"
      using 1(1) [OF refl prod.collapse] True p good alt by simp
    then show ?thesis using eq True good by (auto simp: Let_def)
  next
    case False
    then show ?thesis using eq good upper by (auto simp: Let_def)
  qed
qed


definition good_pos :: "nat \<Rightarrow> grammar_pos \<Rightarrow> bool" where
  "good_pos n p \<longleftrightarrow> ordered_pos p \<and> valid_pos n p \<and> \<not> begins_modifier p"

lemma good_cases:
  assumes "good_pos n p" and "\<not> whisper_grammar_is_end_of_sequence p"
  obtains (ref) e q where "p = e # q" "ge_type e = GRETYPE_RULE_REF" "unat (ge_value e) < n" "good_pos n q"
  | (range) e q where "p = e # q" "is_char_range p" "ge_type e \<noteq> GRETYPE_RULE_REF"
  using assms
  by (cases p)
    (auto simp: good_pos_def whisper_grammar_is_end_of_sequence_def begins_modifier_def modifier_def is_char_range_def
      split: whisper_gretype.splits)

lemma good_after_match:
  assumes "good_pos n p" and "is_char_range p"
  shows "good_pos n (snd (whisper_grammar_match_char p c))"
proof -
  have "snd (whisper_grammar_match_char p c) = snd (match_loop c False p)"
    by (simp add: whisper_grammar_match_char_def case_prod_unfold Let_def)
  then show ?thesis
    using match_loop_good [of p n c False] assms
    by (auto simp: good_pos_def is_char_range_def Let_def split: list.splits)
qed

lemma good_scan:
  assumes "ordered_pos p" and "valid_pos n p" and "scan_to_end p = e # q" and "ge_type e = GRETYPE_ALT"
  shows "good_pos n q"
  using assms
  by (induction p) (auto simp: scan_to_end_def good_pos_def split: whisper_gretype.splits if_splits)

lemma good_alternates:
  assumes "good_pos n p" and "a \<in> set (alternates p)" shows "good_pos n a"
  using assms
proof (induction p rule: alternates.induct)
  case (1 p)
  consider "a = p" | e q where "scan_to_end p = e # q" "ge_type e = GRETYPE_ALT" "a \<in> set (alternates q)"
    using 1(3) unfolding alternates.simps [of p] by (cases "scan_to_end p") (auto split: if_splits)
  then show ?case
  proof cases
    case 2
    then show ?thesis using 1(1) [OF 2(1,2)] good_scan [of p n] 1(2) by (auto simp: good_pos_def)
  qed (use 1(2) in simp)
qed

lemma alternates_nonempty: "alternates p \<noteq> []"
  by (subst alternates.simps) simp

text \<open>An alternate that has no character and only references to nullable rules can be left without one.\<close>

fun can_vanish :: "(nat \<Rightarrow> bool) \<Rightarrow> grammar_pos \<Rightarrow> bool" where
  "can_vanish nullable [] = True"
| "can_vanish nullable (e # p) =
     (whisper_grammar_is_end_of_sequence (e # p)
      \<or> ge_type e = GRETYPE_RULE_REF \<and> nullable (unat (ge_value e)) \<and> can_vanish nullable p)"

fun prefix_refs :: "(nat \<Rightarrow> bool) \<Rightarrow> grammar_pos \<Rightarrow> nat list" where
  "prefix_refs nullable [] = []"
| "prefix_refs nullable (e # p) =
     (if ge_type e = GRETYPE_RULE_REF
      then unat (ge_value e) # (if nullable (unat (ge_value e)) then prefix_refs nullable p else []) else [])"

definition nullable_closed :: "whisper_grammar_element list list \<Rightarrow> (nat \<Rightarrow> bool) \<Rightarrow> bool" where
  "nullable_closed rules nullable \<longleftrightarrow>
     (\<forall>r < length rules. \<forall>a \<in> set (alternates (rules ! r)). can_vanish nullable a \<longrightarrow> nullable r)"

definition rank_decreases :: "whisper_grammar_element list list \<Rightarrow> (nat \<Rightarrow> bool) \<Rightarrow> (nat \<Rightarrow> nat) \<Rightarrow> bool" where
  "rank_decreases rules nullable rank \<longleftrightarrow>
     (\<forall>r < length rules. \<forall>a \<in> set (alternates (rules ! r)). \<forall>s \<in> set (prefix_refs nullable a). rank s < rank r)"

text \<open>No rule reaches itself before a character: the rules have ranks that decrease along the
  references an alternate can come to without one.\<close>

definition grammar_ok :: "whisper_grammar_element list list \<Rightarrow> bool" where
  "grammar_ok rules \<longleftrightarrow> (\<forall>r \<in> set rules. good_pos (length rules) r)
     \<and> (\<exists>nullable rank. nullable_closed rules nullable \<and> rank_decreases rules nullable rank)"

definition stack_ok :: "nat \<Rightarrow> grammar_stack \<Rightarrow> bool" where
  "stack_ok n stack \<longleftrightarrow> (\<forall>p \<in> set stack. good_pos n p \<and> \<not> whisper_grammar_is_end_of_sequence p)"

definition ready :: "grammar_stack \<Rightarrow> bool" where
  "ready stack \<longleftrightarrow> stack = [] \<or> is_char_range (hd stack)"

lemma stack_ok_push: "stack_ok n stack \<Longrightarrow> good_pos n p \<Longrightarrow> stack_ok n (push_pos p stack)"
  by (auto simp: stack_ok_def push_pos_def)

section \<open>Advancing a stack ends\<close>

definition advances :: "whisper_grammar_element list list \<Rightarrow> grammar_stack \<Rightarrow> grammar_stack list \<Rightarrow> bool" where
  "advances rules stack ss \<longleftrightarrow> (\<exists>F. \<forall>fuel \<ge> F. whisper_grammar_advance_stack fuel rules stack = Some ss)"

definition advances_well :: "whisper_grammar_element list list \<Rightarrow> grammar_stack \<Rightarrow> bool" where
  "advances_well rules stack \<longleftrightarrow>
     (\<exists>ss. advances rules stack ss \<and> ss \<noteq> [] \<and> (\<forall>s \<in> set ss. stack_ok (length rules) s \<and> ready s))"

lemma advances_nil: "advances rules [] [[]]"
  unfolding advances_def by (rule exI [of _ 1]) (auto simp: Suc_le_eq gr0_conv_Suc)

lemma advances_char: "is_char_range p \<Longrightarrow> advances rules (p # rest) [p # rest]"
  unfolding advances_def
  by (rule exI [of _ 1]) (auto simp: Suc_le_eq gr0_conv_Suc is_char_range_def split: list.splits)

lemma concat_results_map:
  "(\<And>x. x \<in> set xs \<Longrightarrow> f x = Some (g x)) \<Longrightarrow> concat_results (map f xs) = Some (concat (map g xs))"
  by (induction xs) auto

lemma advances_ref:
  assumes "ge_type e = GRETYPE_RULE_REF"
    and "\<And>a. a \<in> set (alternates (rules ! unat (ge_value e))) \<Longrightarrow> advances rules (push_pos a (push_pos p rest)) (g a)"
  shows "advances rules ((e # p) # rest) (concat (map g (alternates (rules ! unat (ge_value e)))))"
proof -
  let ?alts = "alternates (rules ! unat (ge_value e))"
  obtain F where F: "\<And>a fuel. a \<in> set ?alts \<Longrightarrow> F a \<le> fuel \<Longrightarrow>
      whisper_grammar_advance_stack fuel rules (push_pos a (push_pos p rest)) = Some (g a)"
    using assms(2) unfolding advances_def by metis
  have le: "F a \<le> sum_list (map F ?alts)" if "a \<in> set ?alts" for a
    using that by (intro member_le_sum_list) auto
  have "whisper_grammar_advance_stack (Suc fuel) rules ((e # p) # rest) = Some (concat (map g ?alts))"
    if "sum_list (map F ?alts) \<le> fuel" for fuel
  proof -
    have "concat_results (map (\<lambda>subpos. whisper_grammar_advance_stack fuel rules (push_pos subpos (push_pos p rest))) ?alts)
        = Some (concat (map g ?alts))"
      using F le order_trans [OF _ that] by (intro concat_results_map) blast
    then show ?thesis using assms(1) by simp
  qed
  then show ?thesis
    unfolding advances_def by (intro exI [of _ "Suc (sum_list (map F ?alts))"]) (auto simp: Suc_le_eq dest!: less_imp_Suc_add)
qed


lemma advances_well_push:
  assumes ok: "\<forall>r \<in> set rules. good_pos (length rules) r" and good: "good_pos (length rules) p" and rest: "stack_ok (length rules) rest"
    and null: "nullable_closed rules nullable" and rank: "rank_decreases rules nullable rank"
    and k: "\<forall>s \<in> set (prefix_refs nullable p). rank s < (k :: nat)"
    and base: "can_vanish nullable p \<longrightarrow> advances_well rules rest"
  shows "advances_well rules (push_pos p rest)"
  using good rest k base
proof (induction k arbitrary: p rest rule: less_induct)
  case (less k)
  note outer = less.IH
  from less.prems show ?case
  proof (induction p rule: length_induct)
    case (1 p)
    show ?case
    proof (cases "whisper_grammar_is_end_of_sequence p")
      case True
      then show ?thesis using 1(5) by (cases p) (simp_all add: push_pos_def)
    next
      case False
      from 1(2) False show ?thesis
      proof (cases rule: good_cases)
        case (ref e q)
        let ?r = "unat (ge_value e)" and ?rest = "push_pos q rest"
        have q: "advances_well rules ?rest" if "nullable ?r" using 1 ref that by auto
        have rest: "stack_ok (length rules) ?rest" using stack_ok_push 1(3) ref(4) by blast
        have r: "rank ?r < k" using 1(4) ref by simp
        have "\<forall>a \<in> set (alternates (rules ! ?r)). \<exists>ss. advances rules (push_pos a ?rest) ss \<and> ss \<noteq> []
            \<and> (\<forall>s \<in> set ss. stack_ok (length rules) s \<and> ready s)"
        proof
          fix a assume a: "a \<in> set (alternates (rules ! ?r))"
          have "good_pos (length rules) (rules ! ?r)" using ok ref(3) by simp
          then have "good_pos (length rules) a" using a by (rule good_alternates)
          moreover have "\<forall>s \<in> set (prefix_refs nullable a). rank s < rank ?r" using rank ref(3) a by (simp add: rank_decreases_def)
          moreover have "can_vanish nullable a \<longrightarrow> advances_well rules ?rest"
            using q null ref(3) a by (auto simp: nullable_closed_def)
          ultimately have "advances_well rules (push_pos a ?rest)" using outer [OF r _ rest] by blast
          then show "\<exists>ss. advances rules (push_pos a ?rest) ss \<and> ss \<noteq> [] \<and> (\<forall>s \<in> set ss. stack_ok (length rules) s \<and> ready s)"
            by (simp add: advances_well_def)
        qed
        then obtain g where g: "\<And>a. a \<in> set (alternates (rules ! ?r)) \<Longrightarrow> advances rules (push_pos a ?rest) (g a) \<and> g a \<noteq> []
            \<and> (\<forall>s \<in> set (g a). stack_ok (length rules) s \<and> ready s)"
          by metis
        then have "advances rules ((e # q) # rest) (concat (map g (alternates (rules ! ?r))))"
          using advances_ref [OF ref(2), of rules q rest g] by blast
        moreover have "concat (map g (alternates (rules ! ?r))) \<noteq> []"
          using g [of "hd (alternates (rules ! ?r))"] alternates_nonempty by auto
        moreover have "\<forall>s \<in> set (concat (map g (alternates (rules ! ?r)))). stack_ok (length rules) s \<and> ready s"
          using g by auto
        ultimately have "advances_well rules ((e # q) # rest)" unfolding advances_well_def by blast
        then show ?thesis using False ref(1) by (simp add: push_pos_def)
      next
        case (range e q)
        have "stack_ok (length rules) (p # rest)" using 1(2,3) False by (simp add: stack_ok_def)
        then show ?thesis
          using advances_char [OF range(2), of rules rest] range(2) False
          unfolding advances_well_def push_pos_def by (auto simp: ready_def)
      qed
    qed
  qed
qed

lemma advances_well_stack:
  assumes "grammar_ok rules" and "stack_ok (length rules) stack"
  shows "advances_well rules stack"
  using assms(2)
proof (induction stack)
  case Nil
  then show ?case unfolding advances_well_def
    by (intro exI [of _ "[[]]"]) (simp add: advances_nil stack_ok_def ready_def)
next
  case (Cons p rest)
  obtain nullable and rank :: "nat \<Rightarrow> nat" where ok: "nullable_closed rules nullable" "rank_decreases rules nullable rank"
    "\<forall>r \<in> set rules. good_pos (length rules) r"
    using assms(1) unfolding grammar_ok_def by blast
  have "\<forall>s \<in> set (prefix_refs nullable p). rank s < Suc (sum_list (map rank (prefix_refs nullable p)))"
    using member_le_sum_list [of _ "map rank (prefix_refs nullable p)"] by (auto simp: less_Suc_eq_le)
  then have "advances_well rules (push_pos p rest)"
    using advances_well_push [OF ok(3) _ _ ok(1,2), of p rest] Cons by (auto simp: stack_ok_def)
  then show ?case using Cons.prems by (simp add: push_pos_def stack_ok_def)
qed

section \<open>The language of a stack\<close>

inductive stack_language :: "whisper_grammar_element list list \<Rightarrow> grammar_stack \<Rightarrow> u32 list \<Rightarrow> bool" for rules where
  language_nil: "stack_language rules [] []"
| language_ref: "ge_type e = GRETYPE_RULE_REF \<Longrightarrow> a \<in> set (alternates (rules ! unat (ge_value e)))
    \<Longrightarrow> stack_language rules (push_pos a (push_pos p rest)) cs \<Longrightarrow> stack_language rules ((e # p) # rest) cs"
| language_char: "is_char_range p \<Longrightarrow> whisper_grammar_match_char p c = (True, q)
    \<Longrightarrow> stack_language rules (push_pos q rest) cs \<Longrightarrow> stack_language rules (p # rest) (c # cs)"

inductive_cases language_nilE: "stack_language rules [] cs"
inductive_cases language_ConsE: "stack_language rules (p # rest) cs"

lemma not_char_range: "ge_type e = GRETYPE_RULE_REF \<Longrightarrow> \<not> is_char_range (e # p)"
  by (simp add: is_char_range_def)

lemma language_ref_iff:
  "ge_type e = GRETYPE_RULE_REF \<Longrightarrow> stack_language rules ((e # p) # rest) cs \<longleftrightarrow>
     (\<exists>a \<in> set (alternates (rules ! unat (ge_value e))). stack_language rules (push_pos a (push_pos p rest)) cs)"
  by (auto elim: language_ConsE intro: language_ref dest: not_char_range)

lemma language_char_iff:
  assumes "is_char_range p"
  shows "stack_language rules (p # rest) (c # cs) \<longleftrightarrow>
     fst (whisper_grammar_match_char p c) \<and> stack_language rules (push_pos (snd (whisper_grammar_match_char p c)) rest) cs"
    "\<not> stack_language rules (p # rest) []"
  using assms by (auto elim!: language_ConsE intro: language_char dest: not_char_range simp: prod_eq_iff)

lemma concat_results_set:
  "concat_results rs = Some xs \<Longrightarrow> (x \<in> set xs) = (\<exists>r \<in> set rs. \<exists>ys. r = Some ys \<and> x \<in> set ys)"
  by (induction rs arbitrary: xs) (auto simp: bind_eq_Some_conv)

lemma concat_results_all: "concat_results rs = Some xs \<Longrightarrow> r \<in> set rs \<Longrightarrow> \<exists>ys. r = Some ys"
  by (induction rs arbitrary: xs) (auto simp: bind_eq_Some_conv)

lemma advance_language:
  "whisper_grammar_advance_stack fuel rules stack = Some ss \<Longrightarrow>
     stack_language rules stack cs \<longleftrightarrow> (\<exists>s \<in> set ss. stack_language rules s cs)"
proof (induction fuel arbitrary: stack ss)
  case (Suc fuel)
  show ?case
  proof (cases stack)
    case Nil
    then have "ss = [[]]" using Suc.prems by simp
    then show ?thesis using Nil by simp
  next
    case (Cons q rest)
    then obtain e p where q: "q = e # p" using Suc.prems by (cases q) auto
    show ?thesis
    proof (cases "ge_type e = GRETYPE_RULE_REF")
      case True
      let ?alts = "alternates (rules ! unat (ge_value e))"
      have res: "concat_results (map (\<lambda>a. whisper_grammar_advance_stack fuel rules (push_pos a (push_pos p rest))) ?alts) = Some ss"
        using Suc.prems Cons q True by simp
      have each: "\<exists>ys. whisper_grammar_advance_stack fuel rules (push_pos a (push_pos p rest)) = Some ys" if "a \<in> set ?alts" for a
        using concat_results_all [OF res, of "whisper_grammar_advance_stack fuel rules (push_pos a (push_pos p rest))"] that by auto
      have "stack_language rules stack cs \<longleftrightarrow> (\<exists>a \<in> set ?alts. stack_language rules (push_pos a (push_pos p rest)) cs)"
        using Cons q True by (simp add: language_ref_iff)
      also have "\<dots> \<longleftrightarrow> (\<exists>a \<in> set ?alts. \<exists>ys. whisper_grammar_advance_stack fuel rules (push_pos a (push_pos p rest)) = Some ys
          \<and> (\<exists>s \<in> set ys. stack_language rules s cs))"
        using Suc.IH each by blast
      also have "\<dots> \<longleftrightarrow> (\<exists>s \<in> set ss. stack_language rules s cs)"
        using concat_results_set [OF res] by fastforce
      finally show ?thesis .
    next
      case False
      then have "ss = [stack]" using Suc.prems Cons q by (auto split: whisper_gretype.splits)
      then show ?thesis by simp
    qed
  qed
qed simp

end
