(* ===== verification/GrammarCorrect.thy ===== *)
theory GrammarCorrect
  imports Complex_Main Prelude Grammar UtfConverter
begin

unbundle bit_operations_syntax

text \<open>
  What the grammar code of Whisper/src/whisper.cpp does. A grammar is well-formed (\<open>grammar_ok\<close>) if its
  positions are ones the code expects and no rule reaches itself before a character. Then every
  operation returns with enough fuel (\<open>eventually_is\<close>), accepting characters follows the language
  of the stacks, and a candidate is rejected exactly if accepting its code points leaves no stack on
  which its partial sequence can go on. The decoder of UTF-8 continues a text cut at any byte.
\<close>

section \<open>Accepting characters\<close>

definition stacks_ok :: "whisper_grammar_element list list \<Rightarrow> grammar_stack list \<Rightarrow> bool" where
  "stacks_ok rules stacks \<longleftrightarrow> (\<forall>s \<in> set stacks. stack_ok (length rules) s \<and> ready s)"

text \<open>With enough fuel the result is \<open>ss\<close>.\<close>

definition eventually_is :: "(nat \<Rightarrow> 'a option) \<Rightarrow> 'a \<Rightarrow> bool" where
  "eventually_is f x \<longleftrightarrow> (\<exists>F. \<forall>fuel \<ge> F. f fuel = Some x)"

lemma eventually_isI: "(\<And>fuel. F \<le> fuel \<Longrightarrow> f fuel = Some x) \<Longrightarrow> eventually_is f x"
  by (auto simp: eventually_is_def)

lemma eventually_const: "eventually_is (\<lambda>_. Some x) x"
  by (simp add: eventually_is_def)

lemma eventually_bind:
  assumes "eventually_is f x" and "eventually_is (\<lambda>fuel. g fuel x) y"
  shows "eventually_is (\<lambda>fuel. f fuel \<bind> g fuel) y"
proof -
  obtain F G where "\<forall>fuel \<ge> F. f fuel = Some x" "\<forall>fuel \<ge> G. g fuel x = Some y"
    using assms unfolding eventually_is_def by blast
  then show ?thesis unfolding eventually_is_def by (intro exI [of _ "max F G"]) auto
qed

lemma eventually_concat:
  assumes "\<And>x. x \<in> set xs \<Longrightarrow> eventually_is (\<lambda>fuel. f fuel x) (g x)"
  shows "eventually_is (\<lambda>fuel. concat_results (map (f fuel) xs)) (concat (map g xs))"
  using assms
proof (induction xs)
  case (Cons x xs)
  have "eventually_is (\<lambda>fuel. f fuel x \<bind> (\<lambda>y. concat_results (map (f fuel) xs) \<bind> (\<lambda>ys. Some (y @ ys)))) (g x @ concat (map g xs))"
    by (intro eventually_bind [where x = "g x"] eventually_bind [where x = "concat (map g xs)"] eventually_const) (use Cons in auto)
  then show ?case by simp
qed (simp add: eventually_const)

lemma advances_eventually: "advances rules stack ss = eventually_is (\<lambda>fuel. whisper_grammar_advance_stack fuel rules stack) ss"
  by (simp add: advances_def eventually_is_def)

lemma advance_language_eventually:
  "eventually_is (\<lambda>fuel. whisper_grammar_advance_stack fuel rules stack) ss \<Longrightarrow>
     stack_language rules stack cs \<longleftrightarrow> (\<exists>s \<in> set ss. stack_language rules s cs)"
  unfolding eventually_is_def using advance_language by blast

text \<open>What one stack becomes with a character.\<close>

lemma accept_stack_total:
  assumes "grammar_ok rules" and "stack_ok (length rules) stack" and "ready stack"
  shows "\<exists>ss. eventually_is (\<lambda>fuel. accept_stack fuel rules c stack) ss \<and> stacks_ok rules ss
    \<and> (\<forall>cs. stack_language rules stack (c # cs) \<longleftrightarrow> (\<exists>s \<in> set ss. stack_language rules s cs))"
proof (cases stack)
  case Nil
  then have "eventually_is (\<lambda>fuel. accept_stack fuel rules c stack) []" by (simp add: accept_stack_def eventually_const)
  moreover have "\<not> stack_language rules [] (c # cs)" for cs by (auto elim: language_nilE)
  ultimately show ?thesis using Nil by (intro exI [of _ "[]"]) (simp add: stacks_ok_def)
next
  case (Cons p rest)
  then have p: "is_char_range p" "good_pos (length rules) p" "stack_ok (length rules) rest"
    using assms by (auto simp: ready_def stack_ok_def)
  obtain matched q where m: "whisper_grammar_match_char p c = (matched, q)" by fastforce
  show ?thesis
  proof (cases matched)
    case True
    have "good_pos (length rules) q" using good_after_match [OF p(2,1), of c] m by simp
    then have "stack_ok (length rules) (push_pos q rest)" using p(3) by (intro stack_ok_push)
    then obtain ss where ss: "eventually_is (\<lambda>fuel. whisper_grammar_advance_stack fuel rules (push_pos q rest)) ss"
        "\<forall>s \<in> set ss. stack_ok (length rules) s \<and> ready s"
      using advances_well_stack [OF assms(1)] unfolding advances_well_def advances_eventually by blast
    moreover have "stack_language rules stack (c # cs) \<longleftrightarrow> (\<exists>s \<in> set ss. stack_language rules s cs)" for cs
      using advance_language_eventually [OF ss(1)] language_char_iff(1) [OF p(1)] m True by (simp add: Cons)
    ultimately show ?thesis
      using m True by (intro exI [of _ ss]) (simp add: Cons accept_stack_def stacks_ok_def)
  next
    case False
    then show ?thesis
      using m language_char_iff(1) [OF p(1)]
      by (intro exI [of _ "[]"]) (simp add: Cons accept_stack_def eventually_const stacks_ok_def)
  qed
qed

lemma accept_total:
  assumes "grammar_ok rules" and "stacks_ok rules stacks"
  shows "\<exists>ss. eventually_is (\<lambda>fuel. whisper_grammar_accept fuel rules stacks c) ss \<and> stacks_ok rules ss
    \<and> (\<forall>cs. (\<exists>s \<in> set stacks. stack_language rules s (c # cs)) \<longleftrightarrow> (\<exists>s \<in> set ss. stack_language rules s cs))"
proof -
  have "\<forall>stack \<in> set stacks. \<exists>ss. eventually_is (\<lambda>fuel. accept_stack fuel rules c stack) ss \<and> stacks_ok rules ss
    \<and> (\<forall>cs. stack_language rules stack (c # cs) \<longleftrightarrow> (\<exists>s \<in> set ss. stack_language rules s cs))"
    using accept_stack_total [OF assms(1)] assms(2) by (simp add: stacks_ok_def)
  then obtain g where g: "\<And>stack. stack \<in> set stacks \<Longrightarrow> eventually_is (\<lambda>fuel. accept_stack fuel rules c stack) (g stack)"
    "\<And>stack. stack \<in> set stacks \<Longrightarrow> stacks_ok rules (g stack)"
    "\<And>stack cs. stack \<in> set stacks \<Longrightarrow> stack_language rules stack (c # cs) \<longleftrightarrow> (\<exists>s \<in> set (g stack). stack_language rules s cs)"
    by metis
  have "eventually_is (\<lambda>fuel. whisper_grammar_accept fuel rules stacks c) (concat (map g stacks))"
    unfolding whisper_grammar_accept_def by (rule eventually_concat) (rule g(1))
  moreover have "stacks_ok rules (concat (map g stacks))" using g(2) by (auto simp: stacks_ok_def)
  moreover have "(\<exists>s \<in> set stacks. stack_language rules s (c # cs)) \<longleftrightarrow> (\<exists>s \<in> set (concat (map g stacks)). stack_language rules s cs)" for cs
    using g(3) by auto
  ultimately show ?thesis by blast
qed

lemma accept_all_Cons:
  "accept_all fuel rules (c # cs) stacks = whisper_grammar_accept fuel rules stacks c \<bind> accept_all fuel rules cs"
proof -
  have "fold (\<lambda>chr st. do { st \<leftarrow> st; whisper_grammar_accept fuel rules st chr }) cs None = None"
    by (induction cs) auto
  then show ?thesis
    by (cases "whisper_grammar_accept fuel rules stacks c") (simp_all add: accept_all_def)
qed

lemma accept_all_total:
  assumes "grammar_ok rules" and "stacks_ok rules stacks"
  shows "\<exists>ss. eventually_is (\<lambda>fuel. accept_all fuel rules chrs stacks) ss \<and> stacks_ok rules ss
    \<and> (\<forall>cs. (\<exists>s \<in> set stacks. stack_language rules s (chrs @ cs)) \<longleftrightarrow> (\<exists>s \<in> set ss. stack_language rules s cs))"
  using assms(2)
proof (induction chrs arbitrary: stacks)
  case Nil
  then show ?case by (intro exI [of _ stacks]) (simp add: accept_all_def eventually_const)
next
  case (Cons c chrs)
  obtain ss where ss: "eventually_is (\<lambda>fuel. whisper_grammar_accept fuel rules stacks c) ss" "stacks_ok rules ss"
    "\<forall>cs. (\<exists>s \<in> set stacks. stack_language rules s (c # cs)) \<longleftrightarrow> (\<exists>s \<in> set ss. stack_language rules s cs)"
    using accept_total [OF assms(1) Cons.prems] by blast
  obtain ts where ts: "eventually_is (\<lambda>fuel. accept_all fuel rules chrs ss) ts" "stacks_ok rules ts"
    "\<forall>cs. (\<exists>s \<in> set ss. stack_language rules s (chrs @ cs)) \<longleftrightarrow> (\<exists>s \<in> set ts. stack_language rules s cs)"
    using Cons.IH [OF ss(2)] by blast
  have "eventually_is (\<lambda>fuel. accept_all fuel rules (c # chrs) stacks) ts"
    unfolding accept_all_Cons using ss(1) ts(1) by (rule eventually_bind)
  then show ?case using ss ts by auto
qed

lemma language_ready_nil: "ready s \<Longrightarrow> stack_language rules s [] \<longleftrightarrow> s = []"
  using language_char_iff(2) language_nil by (cases s) (auto simp: ready_def)

text \<open>The stacks of a new grammar.\<close>

lemma start_stacks_total:
  assumes "grammar_ok rules" and "good_pos (length rules) p"
  shows "\<exists>ss. eventually_is (\<lambda>fuel. concat_results (map (\<lambda>p. whisper_grammar_advance_stack fuel rules (push_pos p [])) (alternates p))) ss
    \<and> stacks_ok rules ss
    \<and> (\<forall>cs. (\<exists>a \<in> set (alternates p). stack_language rules (push_pos a []) cs) \<longleftrightarrow> (\<exists>s \<in> set ss. stack_language rules s cs))"
proof -
  have "\<exists>ss. eventually_is (\<lambda>fuel. whisper_grammar_advance_stack fuel rules (push_pos a [])) ss \<and> stacks_ok rules ss"
    if "a \<in> set (alternates p)" for a
  proof -
    have "stack_ok (length rules) (push_pos a [])"
      using good_alternates [OF assms(2) that] by (intro stack_ok_push) (simp_all add: stack_ok_def)
    then show ?thesis
      using advances_well_stack [OF assms(1)] unfolding advances_well_def advances_eventually stacks_ok_def by blast
  qed
  then obtain g where g: "\<And>a. a \<in> set (alternates p) \<Longrightarrow> eventually_is (\<lambda>fuel. whisper_grammar_advance_stack fuel rules (push_pos a [])) (g a)"
    "\<And>a. a \<in> set (alternates p) \<Longrightarrow> stacks_ok rules (g a)"
    by metis
  have "eventually_is (\<lambda>fuel. concat_results (map (\<lambda>p. whisper_grammar_advance_stack fuel rules (push_pos p [])) (alternates p)))
      (concat (map g (alternates p)))"
    by (rule eventually_concat) (rule g(1))
  moreover have "stacks_ok rules (concat (map g (alternates p)))" using g(2) by (auto simp: stacks_ok_def)
  moreover have "(\<exists>a \<in> set (alternates p). stack_language rules (push_pos a []) cs) \<longleftrightarrow>
      (\<exists>s \<in> set (concat (map g (alternates p))). stack_language rules s cs)" for cs
    using advance_language_eventually [OF g(1)] by auto
  ultimately show ?thesis by blast
qed

section \<open>Rejecting candidates\<close>

definition code_points_of :: "whisper_grammar_candidate \<Rightarrow> u32 list" where
  "code_points_of tok = takeWhile (\<lambda>c. c \<noteq> 0) (drop (gc_offset tok) (gc_vector tok))"

definition terminated :: "whisper_grammar_candidate \<Rightarrow> bool" where
  "terminated tok \<longleftrightarrow> 0 \<in> set (drop (gc_offset tok) (gc_vector tok))"

text \<open>A stack on which the partial sequence of a token can still be completed.\<close>

definition viable_end :: "whisper_partial_utf8 \<Rightarrow> grammar_stack \<Rightarrow> bool" where
  "viable_end partial stack \<longleftrightarrow>
     pu_n_remain partial = 0 \<or> (stack \<noteq> [] \<and> whisper_grammar_match_partial_char (hd stack) partial)"

text \<open>The specification: the token's code points are accepted one after the other, and a viable stack
  is left.\<close>

definition kept :: "whisper_grammar_element list list \<Rightarrow> grammar_stack list \<Rightarrow> whisper_grammar_candidate \<Rightarrow> bool" where
  "kept rules stacks tok \<longleftrightarrow>
     (\<exists>ss. eventually_is (\<lambda>fuel. accept_all fuel rules (code_points_of tok) stacks) ss
         \<and> (\<exists>s \<in> set ss. viable_end (gc_partial_utf8 tok) s))"

lemma eventually_unique: "eventually_is f x \<Longrightarrow> eventually_is f y \<Longrightarrow> x = y"
  unfolding eventually_is_def by (metis le_cases option.inject)

lemma kept_iff:
  assumes "eventually_is (\<lambda>fuel. accept_all fuel rules (code_points_of tok) stacks) ss"
  shows "kept rules stacks tok \<longleftrightarrow> (\<exists>s \<in> set ss. viable_end (gc_partial_utf8 tok) s)"
proof
  assume "kept rules stacks tok"
  then obtain ts where ts: "eventually_is (\<lambda>fuel. accept_all fuel rules (code_points_of tok) stacks) ts"
    "\<exists>s \<in> set ts. viable_end (gc_partial_utf8 tok) s" unfolding kept_def by (elim exE conjE)
  then show "\<exists>s \<in> set ss. viable_end (gc_partial_utf8 tok) s" using eventually_unique [OF assms ts(1)] by simp
next
  assume "\<exists>s \<in> set ss. viable_end (gc_partial_utf8 tok) s"
  then show "kept rules stacks tok" unfolding kept_def using assms by (intro exI conjI)
qed

lemma terminated_cases:
  assumes "terminated tok"
  shows "code_points_of tok = (if code_point tok = 0 then [] else code_point tok # code_points_of (tok\<lparr>gc_offset := gc_offset tok + 1\<rparr>))"
    "code_point tok \<noteq> 0 \<Longrightarrow> terminated (tok\<lparr>gc_offset := gc_offset tok + 1\<rparr>)"
proof -
  have "gc_offset tok < length (gc_vector tok)" using assms by (cases "gc_offset tok < length (gc_vector tok)") (auto simp: terminated_def)
  then have "drop (gc_offset tok) (gc_vector tok) = code_point tok # drop (gc_offset tok + 1) (gc_vector tok)"
    by (simp add: code_point_def Cons_nth_drop_Suc)
  then show "code_points_of tok = (if code_point tok = 0 then [] else code_point tok # code_points_of (tok\<lparr>gc_offset := gc_offset tok + 1\<rparr>))"
    "code_point tok \<noteq> 0 \<Longrightarrow> terminated (tok\<lparr>gc_offset := gc_offset tok + 1\<rparr>)"
    using assms by (auto simp: code_points_of_def terminated_def)
qed

lemma concat_results_append:
  "concat_results xs = Some us \<Longrightarrow> concat_results ys = Some vs \<Longrightarrow> concat_results (xs @ ys) = Some (us @ vs)"
  by (induction xs arbitrary: us) (auto simp: bind_eq_Some_conv)

lemma accept_all_append:
  "accept_all fuel rules cs xs = Some us \<Longrightarrow> accept_all fuel rules cs ys = Some vs
    \<Longrightarrow> accept_all fuel rules cs (xs @ ys) = Some (us @ vs)"
proof (induction cs arbitrary: xs ys)
  case Nil
  then show ?case by (simp add: accept_all_def)
next
  case (Cons c cs)
  obtain xs' ys' where acc: "whisper_grammar_accept fuel rules xs c = Some xs'" "whisper_grammar_accept fuel rules ys c = Some ys'"
    and rest: "accept_all fuel rules cs xs' = Some us" "accept_all fuel rules cs ys' = Some vs"
    using Cons.prems by (auto simp: accept_all_Cons bind_eq_Some_conv)
  have "whisper_grammar_accept fuel rules (xs @ ys) c = Some (xs' @ ys')"
    using acc concat_results_append unfolding whisper_grammar_accept_def map_append by blast
  then show ?case using Cons.IH [OF rest] by (simp add: accept_all_Cons)
qed

lemma eventually_accept_append:
  assumes "eventually_is (\<lambda>fuel. accept_all fuel rules cs xs) us" and "eventually_is (\<lambda>fuel. accept_all fuel rules cs ys) vs"
  shows "eventually_is (\<lambda>fuel. accept_all fuel rules cs (xs @ ys)) (us @ vs)"
proof -
  obtain F G where "\<forall>fuel \<ge> F. accept_all fuel rules cs xs = Some us" "\<forall>fuel \<ge> G. accept_all fuel rules cs ys = Some vs"
    using assms unfolding eventually_is_def by blast
  then show ?thesis unfolding eventually_is_def by (intro exI [of _ "max F G"]) (auto intro: accept_all_append)
qed

lemma kept_append:
  assumes "grammar_ok rules" and "stacks_ok rules xs" and "stacks_ok rules ys"
  shows "kept rules (xs @ ys) tok \<longleftrightarrow> kept rules xs tok \<or> kept rules ys tok"
proof -
  let ?acc = "\<lambda>xs fuel. accept_all fuel rules (code_points_of tok) xs"
  obtain us vs where us: "eventually_is (?acc xs) us" and vs: "eventually_is (?acc ys) vs"
    using accept_all_total [OF assms(1,2)] accept_all_total [OF assms(1,3)] by metis
  note app = eventually_accept_append [OF us vs]
  show ?thesis unfolding kept_iff [OF app] kept_iff [OF us] kept_iff [OF vs] by auto
qed

lemma kept_Nil: "\<not> kept rules [] tok"
proof -
  have "accept_all fuel rules cs [] = Some []" for fuel cs
    by (induction cs) (simp add: accept_all_def, simp add: accept_all_Cons whisper_grammar_accept_def)
  then have "eventually_is (\<lambda>fuel. accept_all fuel rules (code_points_of tok) []) []" by (simp add: eventually_const)
  from kept_iff [OF this] show ?thesis by simp
qed

lemma kept_end: "code_points_of tok = [] \<Longrightarrow> kept rules stacks tok \<longleftrightarrow> (\<exists>s \<in> set stacks. viable_end (gc_partial_utf8 tok) s)"
proof -
  assume "code_points_of tok = []"
  then have "eventually_is (\<lambda>fuel. accept_all fuel rules (code_points_of tok) stacks) stacks"
    by (simp add: accept_all_def eventually_const)
  from kept_iff [OF this] show ?thesis .
qed

lemma accept_single: "whisper_grammar_accept fuel rules [stack] c = accept_stack fuel rules c stack"
  by (cases "accept_stack fuel rules c stack") (simp_all add: whisper_grammar_accept_def)

lemma kept_step:
  assumes "grammar_ok rules" and "code_points_of tok = c # code_points_of tok'" and "gc_partial_utf8 tok' = gc_partial_utf8 tok"
    and acc: "eventually_is (\<lambda>fuel. accept_stack fuel rules c stack) ss" and "stacks_ok rules ss"
  shows "kept rules [stack] tok \<longleftrightarrow> kept rules ss tok'"
proof -
  obtain ts where ts: "eventually_is (\<lambda>fuel. accept_all fuel rules (code_points_of tok') ss) ts"
    using accept_all_total [OF assms(1,5)] by metis
  have all: "eventually_is (\<lambda>fuel. accept_all fuel rules (code_points_of tok) [stack]) ts"
    unfolding assms(2) accept_all_Cons accept_single using acc ts by (rule eventually_bind)
  show ?thesis
    unfolding kept_iff [OF all] kept_iff [OF ts] assms(3) ..
qed

lemma image_filter_image:
  assumes "\<And>x. dec (inc x) = x"
  shows "image_mset dec (filter_mset P (image_mset inc (filter_mset Q M))) = filter_mset (\<lambda>x. Q x \<and> P (inc x)) M"
  using assms by (induction M) auto

lemma filter_disjoint:
  "(\<And>x. x \<in># M \<Longrightarrow> \<not> (P x \<and> Q x)) \<Longrightarrow> filter_mset P M + filter_mset Q M = filter_mset (\<lambda>x. P x \<or> Q x) M"
  by (induction M) auto

definition good_candidates :: "nat \<Rightarrow> whisper_grammar_candidate list \<Rightarrow> bool" where
  "good_candidates depth cands \<longleftrightarrow> (\<forall>tok \<in> set cands. terminated tok \<and> length (code_points_of tok) + 1 < depth)"

lemma reject_stack_correct:
  assumes ok: "grammar_ok rules" "stack_ok (length rules) stack" "ready stack"
    and good: "good_candidates (Suc depth) cands"
    and rec: "\<And>stacks cands. stacks_ok rules stacks \<Longrightarrow> stacks \<noteq> [] \<Longrightarrow> good_candidates depth cands \<Longrightarrow>
      \<exists>r. eventually_is (\<lambda>fuel. reject fuel stacks cands) r \<and> mset r = filter_mset (\<lambda>tok. \<not> kept rules stacks tok) (mset cands)"
  shows "\<exists>r. eventually_is (\<lambda>fuel. whisper_grammar_reject_candidates_for_stack (reject fuel) fuel rules stack cands) r
    \<and> mset r = filter_mset (\<lambda>tok. \<not> kept rules [stack] tok) (mset cands)"
proof (cases stack)
  case Nil
  have "kept rules [[]] tok \<longleftrightarrow> \<not> (code_point tok \<noteq> 0 \<or> pu_n_remain (gc_partial_utf8 tok) \<noteq> 0)" if "tok \<in> set cands" for tok
  proof (cases "code_point tok = 0")
    case True
    then show ?thesis using terminated_cases(1) [of tok] good that
      by (simp add: good_candidates_def kept_end viable_end_def)
  next
    case False
    have "eventually_is (\<lambda>fuel. accept_stack fuel rules (code_point tok) []) []" by (simp add: accept_stack_def eventually_const)
    then show ?thesis
      using kept_step [OF ok(1), of tok "code_point tok" "tok\<lparr>gc_offset := gc_offset tok + 1\<rparr>" "[]" "[]"]
        terminated_cases(1) [of tok] good that False
      by (simp add: good_candidates_def stacks_ok_def kept_Nil)
  qed
  then have "mset (filter (\<lambda>tok. code_point tok \<noteq> 0 \<or> pu_n_remain (gc_partial_utf8 tok) \<noteq> 0) cands)
      = filter_mset (\<lambda>tok. \<not> kept rules [[]] tok) (mset cands)"
    unfolding mset_filter by (intro filter_mset_cong) auto
  then show ?thesis
    using Nil by (intro exI) (auto simp: whisper_grammar_reject_candidates_for_stack_def intro: eventually_const)
next
  case (Cons p rest)
  then have p: "is_char_range p" "good_pos (length rules) p" "stack_ok (length rules) rest"
    using ok by (auto simp: ready_def stack_ok_def)
  let ?inc = "\<lambda>tok. tok\<lparr>gc_offset := gc_offset tok + 1\<rparr>" and ?dec = "\<lambda>tok. tok\<lparr>gc_offset := gc_offset tok - 1\<rparr>"
  let ?after = "push_pos (snd (whisper_grammar_match_char p 0)) rest"
  let ?next = "map ?inc (filter (goes_on p) cands)"
  have after: "push_pos (snd (whisper_grammar_match_char p c)) rest = ?after" for c
    using match_loop_position [of c False p 0 False] by (simp add: whisper_grammar_match_char_def case_prod_unfold Let_def)
  have "stack_ok (length rules) ?after" using good_after_match [OF p(2,1)] p(3) by (intro stack_ok_push)
  then obtain ss where ss: "eventually_is (\<lambda>fuel. whisper_grammar_advance_stack fuel rules ?after) ss" "ss \<noteq> []" "stacks_ok rules ss"
    using advances_well_stack [OF ok(1)] unfolding advances_well_def advances_eventually stacks_ok_def by blast
  have "good_candidates depth ?next"
    unfolding good_candidates_def
  proof
    fix tok' assume "tok' \<in> set ?next"
    then obtain tok where tok: "tok \<in> set cands" "goes_on p tok" "tok' = ?inc tok" by auto
    then have "terminated tok" "length (code_points_of tok) + 1 < Suc depth" "code_point tok \<noteq> 0"
      using good by (auto simp: good_candidates_def goes_on_def)
    then show "terminated tok' \<and> length (code_points_of tok') + 1 < depth"
      using terminated_cases [of tok] tok(3) by simp
  qed
  from rec [OF ss(3,2) this] obtain r where r: "eventually_is (\<lambda>fuel. reject fuel ss ?next) r"
    "mset r = filter_mset (\<lambda>tok. \<not> kept rules ss tok) (mset ?next)" by blast
  let ?r = "filter (rejects_now p) cands @ map ?dec r"
  have "eventually_is (\<lambda>fuel. whisper_grammar_reject_candidates_for_stack (reject fuel) fuel rules stack cands) ?r"
    unfolding Cons whisper_grammar_reject_candidates_for_stack_def list.case Let_def
    by (intro eventually_bind [OF ss(1)] eventually_bind [OF r(1)] eventually_const)
  moreover have "mset ?r = filter_mset (\<lambda>tok. \<not> kept rules [stack] tok) (mset cands)"
  proof -
    have "mset ?r = filter_mset (rejects_now p) (mset cands) + filter_mset (\<lambda>tok. goes_on p tok \<and> \<not> kept rules ss (?inc tok)) (mset cands)"
      using r(2) image_filter_image [of ?dec ?inc "\<lambda>tok. \<not> kept rules ss tok" "goes_on p" "mset cands"] by simp
    also have "\<dots> = filter_mset (\<lambda>tok. rejects_now p tok \<or> goes_on p tok \<and> \<not> kept rules ss (?inc tok)) (mset cands)"
      by (rule filter_disjoint) (auto simp: rejects_now_def goes_on_def)
    also have "\<dots> = filter_mset (\<lambda>tok. \<not> kept rules [stack] tok) (mset cands)"
    proof (rule filter_mset_cong [OF refl])
      fix tok assume "tok \<in># mset cands"
      then have t: "terminated tok" using good by (simp add: good_candidates_def)
      show "(rejects_now p tok \<or> goes_on p tok \<and> \<not> kept rules ss (?inc tok)) = (\<not> kept rules [stack] tok)"
      proof (cases "code_point tok = 0")
        case True
        then show ?thesis using terminated_cases(1) [OF t]
          by (simp add: kept_end viable_end_def rejects_now_def goes_on_def Cons)
      next
        case False
        let ?m = "fst (whisper_grammar_match_char p (code_point tok))"
        have "eventually_is (\<lambda>fuel. accept_stack fuel rules (code_point tok) stack) (if ?m then ss else [])"
          using ss(1) unfolding Cons accept_stack_def list.case case_prod_unfold Let_def after [of "code_point tok"]
          by (simp add: eventually_const)
        then have "kept rules [stack] tok \<longleftrightarrow> kept rules (if ?m then ss else []) (?inc tok)"
          by (rule kept_step [OF ok(1), rotated 2])
            (use terminated_cases(1) [OF t] False ss(3) in \<open>simp_all add: stacks_ok_def\<close>)
        then show ?thesis using False by (simp add: rejects_now_def goes_on_def kept_Nil)
      qed
    qed
    finally show ?thesis .
  qed
  ultimately show ?thesis by blast
qed

lemma kept_single_or_fold:
  assumes ok: "grammar_ok rules"
    and rec: "\<And>stack cands. stack_ok (length rules) stack \<Longrightarrow> ready stack \<Longrightarrow> good_candidates depth cands \<Longrightarrow>
      \<exists>r. eventually_is (\<lambda>fuel. rej fuel stack cands) r \<and> mset r = filter_mset (\<lambda>tok. \<not> kept rules [stack] tok) (mset cands)"
    and "stacks_ok rules stacks" and "good_candidates depth cands" and "eventually_is start cands"
  shows "\<exists>r. eventually_is (\<lambda>fuel. fold (\<lambda>stack rejects. rejects \<bind> rej fuel stack) stacks (start fuel)) r
    \<and> mset r = filter_mset (\<lambda>tok. \<not> kept rules stacks tok) (mset cands)"
  using assms(3-)
proof (induction stacks arbitrary: cands start)
  case Nil
  then show ?case by (intro exI [of _ cands]) (simp add: kept_Nil)
next
  case (Cons stack stacks)
  then have s: "stack_ok (length rules) stack" "ready stack" "stacks_ok rules stacks" by (simp_all add: stacks_ok_def)
  from rec [OF s(1,2) Cons.prems(2)] obtain r where r: "eventually_is (\<lambda>fuel. rej fuel stack cands) r"
    "mset r = filter_mset (\<lambda>tok. \<not> kept rules [stack] tok) (mset cands)" by (elim exE conjE)
  have "set r \<subseteq> set cands" using arg_cong [OF r(2), of set_mset] by auto
  then have good: "good_candidates depth r" using Cons.prems(2) by (auto simp: good_candidates_def)
  have "eventually_is (\<lambda>fuel. start fuel \<bind> rej fuel stack) r"
    using Cons.prems(3) r(1) by (rule eventually_bind)
  from Cons.IH [OF s(3) good this] obtain r' where r': "eventually_is (\<lambda>fuel. fold (\<lambda>stack rejects. rejects \<bind> rej fuel stack) stacks (start fuel \<bind> rej fuel stack)) r'"
    "mset r' = filter_mset (\<lambda>tok. \<not> kept rules stacks tok) (mset r)" by (elim exE conjE)
  have "mset r' = filter_mset (\<lambda>tok. \<not> kept rules (stack # stacks) tok) (mset cands)"
    using kept_append [OF ok, of "[stack]" stacks] s
    by (simp add: r'(2) r(2) filter_filter_mset stacks_ok_def conj_commute)
  then show ?case using r'(1) by auto
qed

lemma reject_candidates_total:
  assumes "grammar_ok rules" and "stacks_ok rules stacks" and "stacks \<noteq> []" and "good_candidates depth cands" and "1 \<le> depth"
  shows "\<exists>r. eventually_is (\<lambda>fuel. whisper_grammar_reject_candidates depth fuel rules stacks cands) r
    \<and> mset r = filter_mset (\<lambda>tok. \<not> kept rules stacks tok) (mset cands)"
  using assms(2-)
proof (induction depth arbitrary: stacks cands)
  case (Suc depth)
  show ?case
  proof (cases "cands = []")
    case True
    then show ?thesis by (intro exI [of _ "[]"]) (simp add: eventually_const)
  next
    case False
    have depth: "1 \<le> depth"
      using False Suc.prems(3) by (cases cands) (auto simp: good_candidates_def)
    have "\<exists>r. eventually_is (\<lambda>fuel. whisper_grammar_reject_candidates_for_stack
        (whisper_grammar_reject_candidates depth fuel rules) fuel rules stack cands) r
      \<and> mset r = filter_mset (\<lambda>tok. \<not> kept rules [stack] tok) (mset cands)"
      if "stack_ok (length rules) stack" "ready stack" "good_candidates (Suc depth) cands" for stack cands
      by (rule reject_stack_correct [OF assms(1) that]) (rule Suc.IH, assumption+, rule depth)
    from kept_single_or_fold [OF assms(1) this Suc.prems(1,3) eventually_const]
    show ?thesis using False Suc.prems(2) by simp
  qed
qed simp

end
