(* ===== verification/GrammarTokens.thy ===== *)
theory GrammarTokens
  imports Complex_Main Prelude GrammarCorrect
begin

unbundle bit_operations_syntax

text \<open>
  Grammar-constrained decoding over tokens: the UTF-8 decoder byte by byte, texts cut anywhere into
  tokens, the language that whole runs of tokens follow, partial sequences and the penalised tokens.
\<close>

section \<open>The decoder byte by byte\<close>

definition is_payload :: "u8 \<Rightarrow> bool" where
  "is_payload b \<longleftrightarrow> drop_bit 6 b = 2"

definition with_payload :: "u32 \<Rightarrow> u8 \<Rightarrow> u32" where
  "with_payload v b = push_bit 6 v + (ucast b AND 0x3F)"

definition announced :: "u8 \<Rightarrow> int" where
  "announced b = utf8_lookup ! unat (drop_bit 4 b) - 1"

definition lead_payload :: "u8 \<Rightarrow> u32" where
  "lead_payload b = ucast (b AND (push_bit (nat (7 - announced b)) 1 - 1))"

text \<open>The code points that end within the bytes, and the value and the number of the missing bytes
  behind them; \<open>None\<close> if a byte is not of the class that is due.\<close>

fun feed :: "u8 list \<Rightarrow> u32 \<Rightarrow> int \<Rightarrow> (u32 list \<times> u32 \<times> int) option" where
  "feed [] v n = Some ([], v, n)"
| "feed (b # bs) v n =
     (if (if n > 0 then is_payload b else announced b \<ge> 0)
      then let (v', n') = (if n > 0 then (with_payload v b, n - 1) else (lead_payload b, announced b))
           in map_option (\<lambda>(cs, r). ((if n' = 0 then [v'] else []) @ cs, r)) (feed bs v' n')
      else None)"

lemma feed_append:
  "feed (xs @ ys) v n = do { (cs, v', n') \<leftarrow> feed xs v n; (ds, r) \<leftarrow> feed ys v' n'; Some (cs @ ds, r) }"
proof (induction xs arbitrary: v n)
  case Nil
  then show ?case by (cases "feed ys v n") auto
next
  case (Cons b xs)
  let ?due = "if n > 0 then is_payload b else announced b \<ge> 0"
  obtain w m where st: "(if n > 0 then (with_payload v b, n - 1) else (lead_payload b, announced b)) = (w, m)" by fastforce
  show ?case
  proof (cases ?due)
    case True
    have eq: "feed (b # bs) v n = map_option (\<lambda>(cs, r). ((if m = 0 then [w] else []) @ cs, r)) (feed bs w m)" for bs
      by (simp only: feed.simps if_P [OF True] st Let_def prod.case)
    show ?thesis
      unfolding append_Cons eq Cons.IH by (cases "feed xs w m"; simp add: map_option_bind case_prod_unfold comp_def)
  qed (simp only: append_Cons feed.simps if_False bind.bind_lzero)
qed

lemma feed_continue:
  "feed bs v n = Some (cs, v', n') \<Longrightarrow> n > 0 \<Longrightarrow>
     (\<exists>ds rest w. continue_utf8 bs v n = Some (rest, w, 0) \<and> take_payload bs v n = (rest, w, 0)
        \<and> cs = w # ds \<and> feed rest w 0 = Some (ds, v', n'))
     \<or> continue_utf8 bs v n = Some ([], v', n') \<and> take_payload bs v n = ([], v', n') \<and> cs = [] \<and> n' > 0"
proof (induction bs arbitrary: v n cs)
  case (Cons b bs)
  then have b: "drop_bit 6 b = 2" by (auto simp: is_payload_def split: if_splits)
  let ?v = "push_bit 6 v + (ucast b AND 0x3F)"
  obtain ds where ds: "feed bs ?v (n - 1) = Some (ds, v', n')" "cs = (if n - 1 = 0 then [?v] else []) @ ds"
    using Cons.prems by (auto simp: with_payload_def Let_def split: if_splits)
  show ?case
  proof (cases "n = 1")
    case True
    have "continue_utf8 bs ?v 0 = Some (bs, ?v, 0)" "take_payload bs ?v 0 = (bs, ?v, 0)" by (cases bs; simp)+
    then show ?thesis using True ds b by auto
  next
    case False
    then show ?thesis using Cons.IH [OF ds(1)] Cons.prems(2) b ds(2) by auto
  qed
qed simp

lemma feed_loop:
  "feed bs v n = Some (cs, v', n') \<Longrightarrow> n \<le> 0 \<Longrightarrow>
     decode_loop bs acc v n = (acc @ cs @ [0], \<lparr>pu_value = v', pu_n_remain = n'\<rparr>)"
proof (induction bs acc v n arbitrary: cs rule: decode_loop.induct)
  case (2 b bs acc v n)
  obtain ds where lead: "announced b \<ge> 0"
    and ds: "feed bs (lead_payload b) (announced b) = Some (ds, v', n')" "cs = (if announced b = 0 then [lead_payload b] else []) @ ds"
    using 2(2,3) by (auto simp: Let_def split: if_splits)
  obtain bs' w m where t: "take_payload bs (lead_payload b) (announced b) = (bs', w, m)" by (metis prod_cases3)
  have eq: "decode_loop (b # bs) acc v n = decode_loop bs' (if m = 0 then acc @ [w] else acc) w m"
    using lead t by (simp add: announced_def lead_payload_def)
  have t': "take_payload bs (ucast (b AND (push_bit (nat (7 - announced b)) 1 - 1))) (announced b) = (bs', w, m)"
    using t by (simp add: lead_payload_def)
  note IH = 2(1) [OF announced_def, OF _ t' [symmetric] refl refl]
  show ?case
  proof (cases "announced b = 0")
    case True
    then have "bs' = bs" "w = lead_payload b" "m = 0" using t by (cases bs; simp)+
    then show ?thesis using IH [of ds] ds eq True lead by simp
  next
    case False
    from feed_continue [OF ds(1)] False lead t show ?thesis
      using IH ds(2) eq lead by auto
  qed
qed auto

text \<open>On bytes of the due classes the code decodes as \<open>feed\<close> does.\<close>

lemma decode_utf8_feed:
  assumes "feed bs (pu_value p) (pu_n_remain p) = Some (cs, v, n)" and "0 \<notin> set bs"
  shows "decode_utf8 bs p = (cs @ [0], \<lparr>pu_value = v, pu_n_remain = n\<rparr>)"
proof -
  have src: "takeWhile (\<lambda>b. b \<noteq> 0) bs = bs" using assms(2) by (auto simp: takeWhile_eq_all_conv)
  show ?thesis
  proof (cases "pu_n_remain p > 0")
    case True
    from feed_continue [OF assms(1) True] show ?thesis
    proof (elim disjE exE conjE)
      fix ds rest w
      assume "continue_utf8 bs (pu_value p) (pu_n_remain p) = Some (rest, w, 0)" "cs = w # ds" "feed rest w 0 = Some (ds, v, n)"
      then show ?thesis using feed_loop [of rest w 0 ds v n "[w]"] True by (simp add: decode_utf8_def src)
    next
      assume "continue_utf8 bs (pu_value p) (pu_n_remain p) = Some ([], v, n)" "cs = []" "0 < n"
      then show ?thesis by (simp add: decode_utf8_def src)
    qed
  next
    case False
    then have "continue_utf8 bs (pu_value p) (pu_n_remain p) = Some (bs, pu_value p, pu_n_remain p)" by (cases bs) auto
    then show ?thesis using feed_loop [OF assms(1)] False by (simp add: decode_utf8_def src)
  qed
qed

section \<open>Encoded text\<close>

lemma with_payload_unat:
  assumes "unat v < 2 ^ 26" shows "unat (with_payload v b) = 64 * unat v + unat b mod 64"
proof -
  have u: "unat (ucast b AND (0x3F :: u32)) = unat b mod 64" by (simp add: mask6_word unat_and_mask unat_ucast_u8_u32)
  have "64 * unat v + unat b mod 64 < 2 ^ 32" using assms by simp
  then show ?thesis
    by (simp add: with_payload_def push_bit_eq_mult unat_word_ariths u wordsimps)
qed

lemma lead_payload_unat: "announced b \<ge> 0 \<Longrightarrow> unat (lead_payload b) = unat b mod 2 ^ nat (7 - announced b)"
  by (simp add: lead_payload_def push_bit_eq_mult mask_eq_exp_minus_1 [symmetric] unat_ucast_u8_u32 wordsimps)

lemma announced_unat: "announced b = utf8_lookup ! (unat b div 16) - 1"
  by (simp add: announced_def wordsimps)

lemma is_payload_unat: "is_payload b \<longleftrightarrow> unat b div 64 = 2"
  by (simp add: is_payload_def word_unat_eq_iff wordsimps)

lemma above_multiple: "x < d \<Longrightarrow> (k * d + x) mod d = (x :: nat)"
  by simp

lemma lead_mod:
  "x < 64 \<Longrightarrow> (192 + x) mod 64 = (x :: nat)" "x < 32 \<Longrightarrow> (224 + x) mod 32 = (x :: nat)" "x < 16 \<Longrightarrow> (240 + x) mod 16 = (x :: nat)"
  using above_multiple [of x 64 3] above_multiple [of x 32 7] above_multiple [of x 16 15] by simp_all

lemma payload_mod: "(128 + x mod 64) mod 64 = (x mod 64 :: nat)"
  using above_multiple [of "x mod 64" 64 2] by simp

lemma split64:
  "64 * (n div 4096) + (128 + n div 64 mod 64) mod 64 = n div (64 :: nat)"
  "64 * (n div 262144) + (128 + n div 4096 mod 64) mod 64 = n div (4096 :: nat)"
  using mult_div_mod_eq [of 64 "n div 64"] mult_div_mod_eq [of 64 "n div 4096"]
  by (simp_all add: payload_mod div_mult2_eq [symmetric])

lemma append_utf8_cases:
  assumes "unat p < 0x110000"
  obtains (one) b where "append_utf8 p = [b]" "unat b = unat p" "unat p < 0x80"
  | (two) b c where "append_utf8 p = [b, c]" "unat b = 192 + unat p div 64" "unat c = 128 + unat p mod 64"
      "0x80 \<le> unat p" "unat p < 0x800"
  | (three) b c d where "append_utf8 p = [b, c, d]" "unat b = 224 + unat p div 4096" "unat c = 128 + unat p div 64 mod 64"
      "unat d = 128 + unat p mod 64" "0x800 \<le> unat p" "unat p < 0x10000"
  | (four) b c d e where "append_utf8 p = [b, c, d, e]" "unat b = 240 + unat p div 262144" "unat c = 128 + unat p div 4096 mod 64"
      "unat d = 128 + unat p div 64 mod 64" "unat e = 128 + unat p mod 64" "0x10000 \<le> unat p"
  using map_unat_append_utf8 [of p] assms that unfolding utf8_bytes_def
  by (auto simp: map_eq_Cons_conv split: if_splits)

lemma announced_range:
  "unat b < 128 \<Longrightarrow> announced b = 0"
  "192 \<le> unat b \<Longrightarrow> unat b < 224 \<Longrightarrow> announced b = 1"
  "224 \<le> unat b \<Longrightarrow> unat b < 240 \<Longrightarrow> announced b = 2"
  "240 \<le> unat b \<Longrightarrow> announced b = 3"
proof -
  have "unat b div 16 \<in> {0, 1, 2, 3, 4, 5, 6, 7}" if "unat b < 128" using that by auto
  then show "unat b < 128 \<Longrightarrow> announced b = 0" by (auto simp: announced_unat utf8_lookup_def)
  have "unat b div 16 \<in> {12, 13}" if "192 \<le> unat b" "unat b < 224" using that by auto
  then show "192 \<le> unat b \<Longrightarrow> unat b < 224 \<Longrightarrow> announced b = 1" by (auto simp: announced_unat utf8_lookup_def)
  have "unat b div 16 = 14" if "224 \<le> unat b" "unat b < 240" using that by auto
  then show "224 \<le> unat b \<Longrightarrow> unat b < 240 \<Longrightarrow> announced b = 2" by (auto simp: announced_unat utf8_lookup_def)
  have unat_lt: "unat b < 256" by (rule order_less_le_trans [OF unsigned_less]) simp
  have "unat b div 16 = 15" if "240 \<le> unat b" using that unat_lt by auto
  then show "240 \<le> unat b \<Longrightarrow> announced b = 3" by (auto simp: announced_unat utf8_lookup_def)
qed

lemma feed_lead: "n \<le> 0 \<Longrightarrow> announced b \<ge> 0 \<Longrightarrow>
    feed (b # bs) v n = map_option (\<lambda>(cs, r). ((if announced b = 0 then [lead_payload b] else []) @ cs, r)) (feed bs (lead_payload b) (announced b))"
  by simp

lemma feed_payload: "n > 0 \<Longrightarrow> is_payload b \<Longrightarrow>
    feed (b # bs) v n = map_option (\<lambda>(cs, r). ((if n = 1 then [with_payload v b] else []) @ cs, r)) (feed bs (with_payload v b) (n - 1))"
  by simp

lemma feed_append_utf8:
  assumes "unat p < 0x110000" and "n \<le> 0"
  shows "feed (append_utf8 p @ rest) v n = map_option (\<lambda>(cs, r). (p # cs, r)) (feed rest p 0)"
  using assms(1)
proof (cases p rule: append_utf8_cases)
  case (one b)
  have "announced b = 0" using one by (simp add: announced_range)
  moreover have "lead_payload b = p" using one calculation by (simp add: word_unat_eq_iff lead_payload_unat)
  ultimately show ?thesis using one(1) assms(2) by (simp add: feed_lead del: feed.simps(2))
next
  case (two b c)
  have a: "announced b = 1" using two by (intro announced_range) auto
  have c: "is_payload c" using two by (simp add: is_payload_unat)
  have "unat p div 64 < 32" using two by auto
  then have "unat (lead_payload b) = unat p div 64" using two(2) a by (simp add: lead_payload_unat lead_mod)
  then have "with_payload (lead_payload b) c = p"
    using two by (simp add: word_unat_eq_iff with_payload_unat payload_mod)
  then show ?thesis using two(1) assms(2) a c
    by (simp add: feed_lead feed_payload option.map_comp comp_def case_prod_unfold del: feed.simps(2))
next
  case (three b c d)
  have a: "announced b = 2" using three by (intro announced_range) auto
  have cd: "is_payload c" "is_payload d" using three by (simp_all add: is_payload_unat)
  have "unat p div 4096 < 16" using three by auto
  then have "unat (lead_payload b) = unat p div 4096" using three(2) a by (simp add: lead_payload_unat lead_mod)
  then have "unat (with_payload (lead_payload b) c) = unat p div 64"
    using three \<open>unat p div 4096 < 16\<close> by (simp add: with_payload_unat split64)
  then have "with_payload (with_payload (lead_payload b) c) d = p"
    using three by (simp add: word_unat_eq_iff with_payload_unat payload_mod)
  then show ?thesis using three(1) assms(2) a cd
    by (simp add: feed_lead feed_payload option.map_comp comp_def case_prod_unfold del: feed.simps(2))
next
  case (four b c d e)
  have a: "announced b = 3" using four by (intro announced_range) auto
  have cde: "is_payload c" "is_payload d" "is_payload e" using four by (simp_all add: is_payload_unat)
  have "unat p div 262144 < 16" using assms(1) by auto
  then have "unat (lead_payload b) = unat p div 262144" using four(2) a by (simp add: lead_payload_unat lead_mod)
  then have "unat (with_payload (lead_payload b) c) = unat p div 4096"
    using four \<open>unat p div 262144 < 16\<close> by (simp add: with_payload_unat split64)
  moreover have "unat p div 4096 < 2 ^ 26" using assms(1) by auto
  ultimately have "unat (with_payload (with_payload (lead_payload b) c) d) = unat p div 64"
    using four by (simp add: with_payload_unat split64)
  then have "with_payload (with_payload (with_payload (lead_payload b) c) d) e = p"
    using four assms(1) by (simp add: word_unat_eq_iff with_payload_unat payload_mod)
  then show ?thesis using four(1) assms(2) a cde
    by (simp add: feed_lead feed_payload option.map_comp comp_def case_prod_unfold del: feed.simps(2))
qed

text \<open>The bytes of a text.\<close>

definition encoded :: "u32 list \<Rightarrow> u8 list" where
  "encoded ps = concat (map append_utf8 ps)"

lemma feed_encoded:
  "\<forall>p \<in> set ps. unat p < 0x110000 \<Longrightarrow> n \<le> 0 \<Longrightarrow> \<exists>v' n'. feed (encoded ps) v n = Some (ps, v', n') \<and> n' \<le> 0 \<and> (n = 0 \<longrightarrow> n' = 0)"
proof (induction ps arbitrary: v n)
  case (Cons p ps)
  obtain v' n' where "feed (encoded ps) p 0 = Some (ps, v', n')" "n' = 0"
    using Cons.IH [of 0 p] Cons.prems by auto
  then show ?case using Cons.prems by (simp add: encoded_def feed_append_utf8)
qed (simp add: encoded_def)

lemma encoded_nonzero:
  "\<forall>p \<in> set ps. unat p < 0x110000 \<and> p \<noteq> 0 \<Longrightarrow> 0 \<notin> set (encoded ps)"
proof (induction ps)
  case (Cons p ps)
  have "0 \<notin> set (append_utf8 p)"
  proof (rule append_utf8_cases [of p])
    fix b assume "append_utf8 p = [b]" "unat b = unat p"
    then show ?thesis using Cons.prems by (auto simp: unat_eq_0)
  qed (use Cons.prems in \<open>auto simp: word_unat_eq_iff\<close>)
  then show ?case using Cons by (simp add: encoded_def)
qed (simp add: encoded_def)

text \<open>Pieces of a text, cut at any byte, decoded one after the other.\<close>

fun decode_pieces :: "u8 list list \<Rightarrow> whisper_partial_utf8 \<Rightarrow> u32 list \<times> whisper_partial_utf8" where
  "decode_pieces [] partial = ([], partial)"
| "decode_pieces (b # bs) partial =
     (let (cps, partial) = decode_utf8 b partial;
          (cps', partial) = decode_pieces bs partial
      in (butlast cps @ cps', partial))"

lemma decode_pieces_feed:
  "feed (concat bss) (pu_value p) (pu_n_remain p) = Some (cs, v, n) \<Longrightarrow> 0 \<notin> set (concat bss) \<Longrightarrow>
     decode_pieces bss p = (cs, \<lparr>pu_value = v, pu_n_remain = n\<rparr>)"
proof (induction bss arbitrary: p cs)
  case (Cons bs bss)
  obtain cs1 w m ds where run: "feed bs (pu_value p) (pu_n_remain p) = Some (cs1, w, m)" "feed (concat bss) w m = Some (ds, v, n)"
    "cs = cs1 @ ds"
    using Cons.prems(1) by (auto simp: feed_append bind_eq_Some_conv)
  then show ?case
    using decode_utf8_feed [OF run(1)] Cons.IH [of "\<lparr>pu_value = w, pu_n_remain = m\<rparr>" ds] Cons.prems(2) by simp
qed simp

section \<open>Accepting tokens\<close>

definition accept_tokens :: "nat \<Rightarrow> (int \<Rightarrow> u8 list) \<Rightarrow> whisper_grammar \<Rightarrow> int list \<Rightarrow> whisper_grammar option" where
  "accept_tokens fuel id_to_token grammar toks =
     fold (\<lambda>tok g. g \<bind> (\<lambda>g. whisper_grammar_accept_token fuel id_to_token g tok)) toks (Some grammar)"

lemma accept_tokens_Cons:
  "accept_tokens fuel id_to_token g (tok # toks) =
     whisper_grammar_accept_token fuel id_to_token g tok \<bind> (\<lambda>g. accept_tokens fuel id_to_token g toks)"
proof -
  have none: "fold (\<lambda>tok g. g \<bind> (\<lambda>g. whisper_grammar_accept_token fuel id_to_token g tok)) toks None = None"
    by (induction toks) auto
  show ?thesis
    by (cases "whisper_grammar_accept_token fuel id_to_token g tok") (simp_all add: accept_tokens_def none)
qed

lemma accept_all_nil: "accept_all fuel rules cs [] = Some []"
  by (induction cs) (simp add: accept_all_def, simp add: accept_all_Cons whisper_grammar_accept_def)

lemma accept_all_concat: "accept_all fuel rules (cs @ ds) stacks = accept_all fuel rules cs stacks \<bind> accept_all fuel rules ds"
proof (induction cs arbitrary: stacks)
  case Nil
  then show ?case by (simp add: accept_all_def)
next
  case (Cons c cs)
  then show ?case by (cases "whisper_grammar_accept fuel rules stacks c") (simp_all add: accept_all_Cons)
qed

definition plain_token :: "u8 list \<Rightarrow> bool" where
  "plain_token t \<longleftrightarrow> take 2 t \<noteq> [0x5B, 0x5F] \<and> 0 \<notin> set t"

lemma accept_tokens_total:
  assumes "grammar_ok rules" and "rules \<noteq> []"
  shows "feed (concat (map id_to_token toks)) v n = Some (cs, v', n') \<Longrightarrow> \<forall>tok \<in> set toks. plain_token (id_to_token tok) \<Longrightarrow>
    stacks_ok rules stacks \<Longrightarrow> eventually_is (\<lambda>fuel. accept_all fuel rules cs stacks) ss \<Longrightarrow>
    \<exists>g. eventually_is (\<lambda>fuel. accept_tokens fuel id_to_token
        \<lparr>gr_rules = rules, gr_stacks = stacks, gr_partial_utf8 = \<lparr>pu_value = v, pu_n_remain = n\<rparr>\<rparr> toks) g
      \<and> gr_stacks g = ss"
proof (induction toks arbitrary: v n cs stacks)
  case Nil
  then have "eventually_is (\<lambda>fuel. Some stacks) ss" by (simp add: accept_all_def)
  then have "stacks = ss" by (rule eventually_unique [OF eventually_const])
  then show ?case
    by (intro exI [of _ "\<lparr>gr_rules = rules, gr_stacks = ss, gr_partial_utf8 = \<lparr>pu_value = v, pu_n_remain = n\<rparr>\<rparr>"])
      (simp add: accept_tokens_def eventually_const)
next
  case (Cons tok toks)
  let ?g = "\<lparr>gr_rules = rules, gr_stacks = stacks, gr_partial_utf8 = \<lparr>pu_value = v, pu_n_remain = n\<rparr>\<rparr>"
  show ?case
  proof (cases "stacks = []")
    case True
    have "accept_tokens fuel id_to_token ?g toks = Some ?g" for fuel toks
      by (induction toks) (simp add: accept_tokens_def, simp add: accept_tokens_Cons whisper_grammar_accept_token_def True)
    moreover have "ss = []"
    proof -
      have "eventually_is (\<lambda>fuel. Some []) ss" using Cons.prems(4) by (simp add: True accept_all_nil)
      from eventually_unique [OF this eventually_const] show ?thesis .
    qed
    ultimately show ?thesis using True by (intro exI [of _ ?g]) (simp add: eventually_const)
  next
    case False
    obtain cs1 w m ds where run: "feed (id_to_token tok) v n = Some (cs1, w, m)"
      "feed (concat (map id_to_token toks)) w m = Some (ds, v', n')" "cs = cs1 @ ds"
      using Cons.prems(1) by (auto simp: feed_append bind_eq_Some_conv)
    have dec: "decode_utf8 (id_to_token tok) \<lparr>pu_value = v, pu_n_remain = n\<rparr> = (cs1 @ [0], \<lparr>pu_value = w, pu_n_remain = m\<rparr>)"
      using run(1) Cons.prems(2) by (intro decode_utf8_feed) (simp_all add: plain_token_def)
    obtain us where us: "eventually_is (\<lambda>fuel. accept_all fuel rules cs1 stacks) us" "stacks_ok rules us"
      using accept_all_total [OF assms(1) Cons.prems(3)] by metis
    obtain ts where ts: "eventually_is (\<lambda>fuel. accept_all fuel rules ds us) ts"
      using accept_all_total [OF assms(1) us(2)] by metis
    have "eventually_is (\<lambda>fuel. accept_all fuel rules cs stacks) ts"
      unfolding run(3) accept_all_concat using us(1) ts by (rule eventually_bind)
    from eventually_unique [OF this Cons.prems(4)] have "ts = ss" .
    then obtain g where g: "eventually_is (\<lambda>fuel. accept_tokens fuel id_to_token
        \<lparr>gr_rules = rules, gr_stacks = us, gr_partial_utf8 = \<lparr>pu_value = w, pu_n_remain = m\<rparr>\<rparr> toks) g" "gr_stacks g = ss"
      using Cons.IH [OF run(2) _ us(2)] ts Cons.prems(2) by auto
    have "eventually_is (\<lambda>fuel. whisper_grammar_accept_token fuel id_to_token ?g tok)
        \<lparr>gr_rules = rules, gr_stacks = us, gr_partial_utf8 = \<lparr>pu_value = w, pu_n_remain = m\<rparr>\<rparr>"
    proof -
      have "whisper_grammar_accept_token fuel id_to_token ?g tok = accept_all fuel rules cs1 stacks \<bind>
          (\<lambda>st. Some \<lparr>gr_rules = rules, gr_stacks = st, gr_partial_utf8 = \<lparr>pu_value = w, pu_n_remain = m\<rparr>\<rparr>)" for fuel
        using False assms(2) Cons.prems(2) dec by (simp add: whisper_grammar_accept_token_def plain_token_def)
      then show ?thesis using eventually_bind [OF us(1) eventually_const] by simp
    qed
    from eventually_bind [where g = "\<lambda>fuel g. accept_tokens fuel id_to_token g toks", OF this g(1)] g(2)
    show ?thesis by (intro exI [of _ g] conjI) (simp_all add: accept_tokens_Cons)
  qed
qed

section \<open>The language of a grammar\<close>

text \<open>The grammar the code works on, each rule cut behind its end; \<open>grammar_ok\<close> of it is well-formedness.\<close>

definition cut_rules :: "whisper_grammar_element list list \<Rightarrow> whisper_grammar_element list list" where
  "cut_rules rules = map (\<lambda>r. takeWhile (\<lambda>e. ge_type e \<noteq> GRETYPE_END) r @ [\<lparr>ge_type = GRETYPE_END, ge_value = 0\<rparr>]) rules"

definition grammar_language :: "whisper_grammar_element list list \<Rightarrow> nat \<Rightarrow> u32 list \<Rightarrow> bool" where
  "grammar_language rules i cs \<longleftrightarrow> (\<exists>a \<in> set (alternates (rules ! i)). stack_language (cut_rules rules) (push_pos a []) cs)"

lemma init_total:
  assumes "grammar_ok (cut_rules rules)" and "good_pos (length rules) (rules ! i)"
  shows "\<exists>ss. eventually_is (\<lambda>fuel. whisper_grammar_init fuel rules i)
      \<lparr>gr_rules = cut_rules rules, gr_stacks = ss, gr_partial_utf8 = \<lparr>pu_value = 0, pu_n_remain = 0\<rparr>\<rparr>
    \<and> stacks_ok (cut_rules rules) ss \<and> (\<forall>cs. grammar_language rules i cs \<longleftrightarrow> (\<exists>s \<in> set ss. stack_language (cut_rules rules) s cs))"
proof -
  have "length (cut_rules rules) = length rules" by (simp add: cut_rules_def)
  then obtain ss where ss: "eventually_is (\<lambda>fuel. concat_results (map (\<lambda>p. whisper_grammar_advance_stack fuel (cut_rules rules) (push_pos p [])) (alternates (rules ! i)))) ss"
    "stacks_ok (cut_rules rules) ss" "\<forall>cs. grammar_language rules i cs \<longleftrightarrow> (\<exists>s \<in> set ss. stack_language (cut_rules rules) s cs)"
    using start_stacks_total [OF assms(1), of "rules ! i"] assms(2) unfolding grammar_language_def by auto
  have "eventually_is (\<lambda>fuel. whisper_grammar_init fuel rules i)
      \<lparr>gr_rules = cut_rules rules, gr_stacks = ss, gr_partial_utf8 = \<lparr>pu_value = 0, pu_n_remain = 0\<rparr>\<rparr>"
    unfolding whisper_grammar_init_def Let_def cut_rules_def [symmetric] by (rule eventually_bind [OF ss(1) eventually_const])
  with ss show ?thesis by blast
qed

lemma accepting_iff: "stacks_ok rules ss \<Longrightarrow> (\<exists>s \<in> set ss. stack_language rules s []) \<longleftrightarrow> [] \<in> set ss"
  by (auto simp: stacks_ok_def language_ready_nil)

lemma grammar_follows_language_total:
  assumes "grammar_ok (cut_rules rules)" and "good_pos (length rules) (rules ! i)" and "i < length rules"
    and "\<forall>p \<in> set ps. unat p < 0x110000 \<and> p \<noteq> 0" and "concat (map id_to_token toks) = encoded ps"
    and "\<forall>tok \<in> set toks. take 2 (id_to_token tok) \<noteq> [0x5B, 0x5F]"
  shows "\<exists>g g'. eventually_is (\<lambda>fuel. whisper_grammar_init fuel rules i) g
    \<and> eventually_is (\<lambda>fuel. accept_tokens fuel id_to_token g toks) g'
    \<and> ([] \<in> set (gr_stacks g') \<longleftrightarrow> grammar_language rules i ps)"
proof -
  obtain ss where init: "eventually_is (\<lambda>fuel. whisper_grammar_init fuel rules i)
      \<lparr>gr_rules = cut_rules rules, gr_stacks = ss, gr_partial_utf8 = \<lparr>pu_value = 0, pu_n_remain = 0\<rparr>\<rparr>"
    and ss: "stacks_ok (cut_rules rules) ss"
    "\<forall>cs. grammar_language rules i cs \<longleftrightarrow> (\<exists>s \<in> set ss. stack_language (cut_rules rules) s cs)"
    using init_total [OF assms(1,2)] by (elim exE conjE)
  obtain us where us: "eventually_is (\<lambda>fuel. accept_all fuel (cut_rules rules) ps ss) us" "stacks_ok (cut_rules rules) us"
    "\<forall>cs. (\<exists>s \<in> set ss. stack_language (cut_rules rules) s (ps @ cs)) \<longleftrightarrow> (\<exists>s \<in> set us. stack_language (cut_rules rules) s cs)"
    using accept_all_total [OF assms(1) ss(1), of ps] by (elim exE conjE)
  obtain v' n' where feed: "feed (concat (map id_to_token toks)) 0 0 = Some (ps, v', n')"
    using feed_encoded [of ps 0 0] assms(4,5) by auto
  have plain: "\<forall>tok \<in> set toks. plain_token (id_to_token tok)"
    using encoded_nonzero [OF assms(4)] assms(6) unfolding plain_token_def assms(5) [symmetric] by auto
  have ne: "cut_rules rules \<noteq> []" using assms(3) by (auto simp: cut_rules_def)
  obtain g where g: "eventually_is (\<lambda>fuel. accept_tokens fuel id_to_token
      \<lparr>gr_rules = cut_rules rules, gr_stacks = ss, gr_partial_utf8 = \<lparr>pu_value = 0, pu_n_remain = 0\<rparr>\<rparr> toks) g" "gr_stacks g = us"
    using accept_tokens_total [OF assms(1) ne feed plain ss(1) us(1)] by (elim exE conjE)
  have "[] \<in> set (gr_stacks g) \<longleftrightarrow> grammar_language rules i ps"
    using accepting_iff [OF us(2)] us(3) ss(2) g(2) by (metis append_Nil2)
  with init g(1) show ?thesis by (intro exI conjI)
qed

section \<open>Partial sequences\<close>

text \<open>The code points a partial sequence can still become: its bits in front, and no shorter sequence
  encodes them.\<close>

definition shortest :: "int \<Rightarrow> nat" where
  "shortest n_remain = (if n_remain = 1 then 0x80 else if n_remain = 2 then 0x800 else 0x10000)"

definition completions :: "whisper_partial_utf8 \<Rightarrow> u32 set" where
  "completions partial =
     {c. unat c div 2 ^ nat (6 * pu_n_remain partial) = unat (pu_value partial) \<and> shortest (pu_n_remain partial) \<le> unat c}"

text \<open>The values a range position covers, and whether its bounds are in order.\<close>

fun ranges_ordered :: "grammar_pos \<Rightarrow> bool" where
  "ranges_ordered (e # u # p) = ((ge_type u = GRETYPE_CHAR_RNG_UPPER \<longrightarrow> ge_value e \<le> ge_value u) \<and> ranges_ordered (u # p))"
| "ranges_ordered _ = True"

lemma match_loop_found:
  "fst (match_loop chr found p) \<longleftrightarrow> found \<or> fst (match_loop chr False p)"
proof (induction p arbitrary: found rule: measure_induct_rule [of length])
  case (less p)
  obtain hit q where r: "match_element (\<lambda>lo hi. lo \<le> chr \<and> chr \<le> hi) (\<lambda>v. v = chr) p = (hit, q)" by fastforce
  have e: "match_loop chr f p = (if at_alternative_char q \<and> p \<noteq> [] then match_loop chr (f \<or> hit) q else (f \<or> hit, q))" for f
    using r by (subst match_loop.simps) simp
  show ?case
  proof (cases "at_alternative_char q \<and> p \<noteq> []")
    case True
    have "fst (match_loop chr (f \<or> hit) q) \<longleftrightarrow> (f \<or> hit) \<or> fst (match_loop chr False q)" for f
      by (rule less) (rule match_element_shorter [OF r [symmetric]], use True in simp)
    then show ?thesis unfolding e if_P [OF True] by (metis (full_types))
  qed (auto simp: e)
qed

lemma partial_loop_correct:
  "ranges_ordered p \<Longrightarrow> low \<le> high \<Longrightarrow>
     partial_loop low high p \<longleftrightarrow> (\<exists>c. low \<le> c \<and> c \<le> high \<and> fst (match_loop c False p))"
proof (induction low high p rule: partial_loop.induct)
  case (1 low high p)
  let ?el = "match_element (\<lambda>lo hi. lo \<le> high \<and> low \<le> hi) (\<lambda>v. low \<le> v \<and> v \<le> high) p"
  let ?c = "\<lambda>c. match_element (\<lambda>lo hi. lo \<le> c \<and> c \<le> hi) (\<lambda>v. v = c) p"
  have q: "snd (?c c) = snd ?el" for c by (cases p rule: ranges_ordered.cases) auto
  have hit: "fst ?el \<longleftrightarrow> (\<exists>c. low \<le> c \<and> c \<le> high \<and> fst (?c c))"
  proof (cases p rule: ranges_ordered.cases)
    case (1 e u r)
    show ?thesis
    proof (cases "ge_type u = GRETYPE_CHAR_RNG_UPPER")
      case True
      then have o: "ge_value e \<le> ge_value u" using \<open>ranges_ordered p\<close> 1 by simp
      have "low \<le> max low (ge_value e)" "max low (ge_value e) \<le> high \<longleftrightarrow> ge_value e \<le> high" 
        "max low (ge_value e) \<le> ge_value u \<longleftrightarrow> low \<le> ge_value u"
        using o \<open>low \<le> high\<close> by auto
      then show ?thesis using 1 True by (auto intro: order_trans exI [of _ "max low (ge_value e)"])
    qed (auto simp: 1)
  qed auto
  have ord: "ranges_ordered (snd ?el)" using \<open>ranges_ordered p\<close>
    by (cases p rule: ranges_ordered.cases) (auto elim: ranges_ordered.elims)
  have eq: "partial_loop low high p = (if fst ?el then True else if at_alternative_char (snd ?el) \<and> p \<noteq> [] then partial_loop low high (snd ?el) else False)"
    by (subst partial_loop.simps) (simp add: case_prod_unfold Let_def)
  have eqc: "fst (match_loop c False p) \<longleftrightarrow> fst (?c c) \<or> (at_alternative_char (snd ?el) \<and> p \<noteq> [] \<and> fst (match_loop c False (snd ?el)))" for c
    by (subst match_loop.simps) (auto simp: case_prod_unfold Let_def q match_loop_found [of c "fst (?c c)"])
  show ?case
  proof (cases "fst ?el")
    case True
    then show ?thesis using hit unfolding eq eqc by auto
  next
    case False
    then show ?thesis
      using 1(1) [OF refl prod.collapse False _ ord \<open>low \<le> high\<close>] hit unfolding eq eqc by auto
  qed
qed

lemma div_block: "(c div d = v) = (v * d \<le> c \<and> c \<le> v * d + (d - 1))" if "0 < d" for c d v :: nat
proof
  assume "c div d = v"
  then show "v * d \<le> c \<and> c \<le> v * d + (d - 1)"
    using div_mult_mod_eq [of c d] mod_less_divisor [OF that, of c] by auto
next
  assume "v * d \<le> c \<and> c \<le> v * d + (d - 1)"
  then have "c = v * d + (c - v * d)" "c - v * d < d" using that by auto
  then obtain r where "c = v * d + r" "r < d" by blast
  then show "c div d = v" by simp
qed

lemma block_interval:
  fixes v c :: u32
  assumes "unat v * 2 ^ k < 2 ^ 32" and "k \<in> {6, 12, 18}"
  shows "unat (push_bit k v) = unat v * 2 ^ k"
    "unat (push_bit k v OR (push_bit k 1 - 1)) = unat v * 2 ^ k + (2 ^ k - 1)"
    "(unat c div 2 ^ k = unat v) = (push_bit k v \<le> c \<and> c \<le> push_bit k v OR (push_bit k 1 - 1))"
proof -
  show low: "unat (push_bit k v) = unat v * 2 ^ k"
    using assms(1) by (simp add: push_bit_eq_mult unat_word_ariths) (use assms(2) in auto)
  have mask: "push_bit k 1 - 1 = (mask k :: u32)" by (simp add: push_bit_eq_mult mask_eq_exp_minus_1)
  have "push_bit k v AND mask k = (0 :: u32)" by (rule bit_word_eqI) (auto simp: bit_simps)
  then have sum: "push_bit k v OR mask k = push_bit k v + (mask k :: u32)" by (simp add: disjunctive_add_eq_or)
  have "unat (mask k :: u32) = 2 ^ k - 1" "unat v * 2 ^ k + (2 ^ k - 1) < 2 ^ 32"
    using assms by (auto simp: mask_eq_exp_minus_1)
  then show high: "unat (push_bit k v OR (push_bit k 1 - 1)) = unat v * 2 ^ k + (2 ^ k - 1)"
    unfolding mask using low by (simp add: sum unat_word_ariths)
  show "(unat c div 2 ^ k = unat v) = (push_bit k v \<le> c \<and> c \<le> push_bit k v OR (push_bit k 1 - 1))"
    unfolding word_le_nat_alt low high by (rule div_block) simp
qed

definition partial_low :: "whisper_partial_utf8 \<Rightarrow> u32" where
  "partial_low partial =
     (let low = push_bit (nat (pu_n_remain partial * 6)) (pu_value partial)
      in if low = 0 then if pu_n_remain partial = 2 then push_bit 11 1 else if pu_n_remain partial = 3 then push_bit 16 1 else low
         else low)"

definition partial_high :: "whisper_partial_utf8 \<Rightarrow> u32" where
  "partial_high partial =
     push_bit (nat (pu_n_remain partial * 6)) (pu_value partial) OR (push_bit (nat (pu_n_remain partial * 6)) 1 - 1)"

definition partial_ok :: "whisper_partial_utf8 \<Rightarrow> bool" where
  "partial_ok partial \<longleftrightarrow> pu_n_remain partial \<in> {1, 2, 3}
     \<and> unat (pu_value partial) * 2 ^ nat (6 * pu_n_remain partial) < 2 ^ 32"

lemma completions_interval:
  assumes "partial_ok partial" and "\<not> (pu_n_remain partial = 1 \<and> pu_value partial < 2)"
  shows "completions partial = {c. partial_low partial \<le> c \<and> c \<le> partial_high partial}" (is ?set)
    and "partial_low partial \<le> partial_high partial" (is ?le)
proof -
  let ?n = "pu_n_remain partial" and ?v = "pu_value partial"
  have k: "nat (6 * ?n) \<in> {6, 12, 18}" "nat (?n * 6) = nat (6 * ?n)" using assms(1) by (auto simp: partial_ok_def)
  have ok: "unat ?v * 2 ^ nat (6 * ?n) < 2 ^ 32" using assms(1) by (simp add: partial_ok_def)
  note block = block_interval [OF ok k(1)]
  have zero: "push_bit (nat (6 * ?n)) ?v = 0 \<longleftrightarrow> unat ?v = 0"
    using block(1) k(1) by (metis mult_eq_0_iff power_not_zero unat_eq_zero zero_neq_numeral)
  have low: "unat (partial_low partial) = (if unat ?v = 0 then if ?n = 2 then 2048 else if ?n = 3 then 65536 else 0 else unat ?v * 2 ^ nat (6 * ?n))"
    unfolding partial_low_def Let_def k(2) zero using block(1) by simp
  have high: "unat (partial_high partial) = unat ?v * 2 ^ nat (6 * ?n) + (2 ^ nat (6 * ?n) - 1)"
    unfolding partial_high_def k(2) by (rule block(2))
  have n: "?n = 1 \<or> ?n = 2 \<or> ?n = 3" using assms(1) by (simp add: partial_ok_def)
  have v: "?n = 1 \<Longrightarrow> 2 \<le> unat ?v" using assms(2) by (auto simp: word_less_nat_alt)
  have mem: "c \<in> completions partial \<longleftrightarrow> partial_low partial \<le> c \<and> c \<le> partial_high partial" for c
    using n
  proof (elim disjE)
    assume "?n = 1"
    then show ?thesis using v
      by (auto simp: completions_def shortest_def word_le_nat_alt low high div_block)
  next
    assume "?n = 2"
    then show ?thesis
      by (auto simp: completions_def shortest_def word_le_nat_alt low high div_block)
  next
    assume "?n = 3"
    then show ?thesis
      by (auto simp: completions_def shortest_def word_le_nat_alt low high div_block)
  qed
  then show ?set by blast
  show ?le using n v by (auto simp: word_le_nat_alt low high)
qed

lemma match_partial_iff:
  assumes "partial_ok partial" and "is_char_range p" and "ranges_ordered p"
  shows "whisper_grammar_match_partial_char p partial \<longleftrightarrow>
    completions partial \<noteq> {} \<and>
    (if is_positive_char p then \<exists>c \<in> completions partial. fst (whisper_grammar_match_char p c)
     else \<forall>c \<in> completions partial. fst (whisper_grammar_match_char p c))"
proof (cases "pu_n_remain partial = 1 \<and> pu_value partial < 2")
  case True
  then have "unat (pu_value partial) < 2" by (simp add: word_less_nat_alt)
  then have "completions partial = {}" using True by (auto simp: completions_def shortest_def div_less_iff_less_mult split: if_splits)
  then show ?thesis using True by (simp add: whisper_grammar_match_partial_char_def)
next
  case False
  note int = completions_interval [OF assms(1) False]
  have c: "(pu_n_remain partial < 0 \<or> (pu_n_remain partial = 1 \<and> pu_value partial < 2)) = False"
    using assms(1) False by (auto simp: partial_ok_def)
  have eq: "whisper_grammar_match_partial_char p partial \<longleftrightarrow>
      (if partial_loop (partial_low partial) (partial_high partial) p then is_positive_char p else \<not> is_positive_char p)"
    unfolding whisper_grammar_match_partial_char_def partial_low_def partial_high_def Let_def c if_False ..
  have loop: "partial_loop (partial_low partial) (partial_high partial) p \<longleftrightarrow> (\<exists>c \<in> completions partial. fst (match_loop c False p))"
    unfolding int(1) using partial_loop_correct [OF assms(3) int(2)] by auto
  have fst: "fst (whisper_grammar_match_char p c) \<longleftrightarrow> fst (match_loop c False p) = is_positive_char p" for c
    by (simp add: whisper_grammar_match_char_def case_prod_unfold Let_def)
  have "partial_low partial \<in> completions partial" unfolding int(1) using int(2) by simp
  then show ?thesis unfolding eq loop fst by auto
qed

section \<open>Suppressing tokens\<close>

lemma decoded_terminated: "\<exists>cs. fst (decode_utf8 bs p) = cs @ [0]"
proof -
  have "\<exists>cs. fst (decode_loop bs acc v n) = cs @ [0]" for bs acc v n
    by (induction bs acc v n rule: decode_loop.induct) (auto simp: Let_def split: prod.splits if_splits)
  then show ?thesis by (auto simp: decode_utf8_def Let_def split: option.splits)
qed

lemma subtract_at:
  "distinct ids \<Longrightarrow> \<forall>j \<in> set ids. j < length logits \<Longrightarrow>
     fold (\<lambda>j l. l[j := map_option (\<lambda>x. x - penalty) (l ! j)]) ids logits =
       map (\<lambda>j. if j \<in> set ids then map_option (\<lambda>x. x - penalty) (logits ! j) else logits ! j) [0..<length logits]"
  for penalty :: real
proof (induction ids rule: rev_induct)
  case Nil
  then show ?case by (simp add: map_nth)
next
  case (snoc j ids)
  then show ?case by (auto intro!: nth_equalityI simp: nth_list_update)
qed

definition candidate :: "(int \<Rightarrow> u8 list) \<Rightarrow> whisper_grammar \<Rightarrow> int \<Rightarrow> whisper_grammar_candidate" where
  "candidate id_to_token g tid =
     \<lparr>gc_id = tid, gc_vector = fst (decode_utf8 (id_to_token tid) (gr_partial_utf8 g)), gc_offset = 0,
      gc_partial_utf8 = snd (decode_utf8 (id_to_token tid) (gr_partial_utf8 g))\<rparr>"

lemma suppress_total:
  assumes ok: "grammar_ok (gr_rules g)" "stacks_ok (gr_rules g) (gr_stacks g)" "gr_rules g \<noteq> []" "gr_stacks g \<noteq> []"
    and eot: "nat eot \<le> length logits"
    and depth: "1 \<le> depth" "\<forall>tid. 0 \<le> tid \<and> tid < eot \<longrightarrow> length (fst (decode_utf8 (id_to_token tid) (gr_partial_utf8 g))) < depth"
  shows "eventually_is (\<lambda>fuel. whisper_suppress_invalid_grammar depth fuel id_to_token eot penalty logits g)
    (map (\<lambda>j. if int j < eot \<and> id_to_token (int j) \<noteq> [] \<and> \<not> kept (gr_rules g) (gr_stacks g) (candidate id_to_token g (int j))
              then map_option (\<lambda>x. x - penalty) (logits ! j) else logits ! j) [0..<length logits])"
proof -
  let ?ids = "filter (\<lambda>tid. id_to_token tid \<noteq> []) (map int [0..<nat eot])"
  let ?cands = "map (candidate id_to_token g) ?ids"
  let ?no = "\<lambda>tok. \<not> kept (gr_rules g) (gr_stacks g) tok"
  have cands: "grammar_candidates id_to_token eot g = ?cands"
    by (simp add: grammar_candidates_def candidate_def case_prod_unfold Let_def)
  have "good_candidates depth ?cands"
    unfolding good_candidates_def
  proof
    fix tok assume "tok \<in> set ?cands"
    then obtain j where "j < nat eot" "tok = candidate id_to_token g (int j)" by auto
    then obtain tid where tid: "0 \<le> tid" "tid < eot" "tok = candidate id_to_token g tid"
      by (intro that [of "int j"]) auto
    obtain cs where cs: "fst (decode_utf8 (id_to_token tid) (gr_partial_utf8 g)) = cs @ [0]"
      using decoded_terminated by blast
    have "length (takeWhile (\<lambda>c. c \<noteq> 0) (cs @ [0])) \<le> length cs"
      by (simp add: takeWhile_tail length_takeWhile_le)
    moreover have "length (cs @ [0]) < depth" using depth(2) tid(1,2) unfolding cs [symmetric] by blast
    ultimately show "terminated tok \<and> length (code_points_of tok) + 1 < depth"
      by (simp add: tid(3) terminated_def code_points_of_def candidate_def cs)
  qed
  from reject_candidates_total [OF ok(1,2,4) this depth(1)]
  obtain r where r: "eventually_is (\<lambda>fuel. whisper_grammar_reject_candidates depth fuel (gr_rules g) (gr_stacks g) ?cands) r"
    "mset r = mset (filter ?no ?cands)" by (auto simp: mset_filter)
  let ?js = "map (nat \<circ> gc_id) r"
  have "map (nat \<circ> gc_id) ?cands = map nat ?ids" by (simp add: candidate_def comp_def)
  moreover have "distinct (map nat ?ids)" by (auto simp: distinct_map inj_on_def filter_map comp_def)
  ultimately have "distinct (map (nat \<circ> gc_id) (filter ?no ?cands))" by (metis distinct_map_filter)
  moreover have "mset ?js = mset (map (nat \<circ> gc_id) (filter ?no ?cands))" using r(2) by (metis mset_map)
  ultimately have dist: "distinct ?js" by (metis mset_eq_imp_distinct_iff)
  have mem: "j \<in> set ?js \<longleftrightarrow> int j < eot \<and> id_to_token (int j) \<noteq> [] \<and> ?no (candidate id_to_token g (int j))" for j
    unfolding set_map mset_eq_setD [OF r(2)] by (force simp: candidate_def image_iff)
  have "fold (\<lambda>r l. l[nat (gc_id r) := map_option (\<lambda>x. x - penalty) (l ! nat (gc_id r))]) r logits = fold (\<lambda>j l. l[j := map_option (\<lambda>x. x - penalty) (l ! j)]) ?js logits"
    by (simp add: fold_map comp_def)
  also have "\<dots> = map (\<lambda>j. if j \<in> set ?js then map_option (\<lambda>x. x - penalty) (logits ! j) else logits ! j) [0..<length logits]"
  proof (intro subtract_at dist ballI)
    fix j assume "j \<in> set ?js"
    then have "int j < eot" unfolding mem by blast
    then show "j < length logits" using eot by linarith
  qed
  finally have "fold (\<lambda>r l. l[nat (gc_id r) := map_option (\<lambda>x. x - penalty) (l ! nat (gc_id r))]) r logits =
    map (\<lambda>j. if int j < eot \<and> id_to_token (int j) \<noteq> [] \<and> ?no (candidate id_to_token g (int j)) then map_option (\<lambda>x. x - penalty) (logits ! j) else logits ! j)
      [0..<length logits]" unfolding mem .
  moreover have "eventually_is (\<lambda>fuel. whisper_suppress_invalid_grammar depth fuel id_to_token eot penalty logits g)
    (fold (\<lambda>r l. l[nat (gc_id r) := map_option (\<lambda>x. x - penalty) (l ! nat (gc_id r))]) r logits)"
    using ok(3,4) by (simp add: whisper_suppress_invalid_grammar_def cands) (rule eventually_bind [OF r(1) eventually_const])
  ultimately show ?thesis by simp
qed

section \<open>Properties\<close>

text \<open>C28: Grammar-constrained decoding follows the language of the grammar. For a well-formed grammar (no
  rule reaches itself before a character), its initialisation and the acceptance of tokens return, and
  after tokens whose bytes together spell a text of nonzero code points, cut anywhere, even inside a
  character, the empty stack is among the stacks exactly if the text is in the language of the start
  rule.\<close>

theorem grammar_follows_language:
  assumes "grammar_ok (cut_rules rules)" and "good_pos (length rules) (rules ! i)" and "i < length rules"
    and "\<forall>p \<in> set ps. unat p < 0x110000 \<and> p \<noteq> 0" and "concat (map id_to_token toks) = encoded ps"
    and "\<forall>tok \<in> set toks. take 2 (id_to_token tok) \<noteq> [0x5B, 0x5F]"
  shows "\<exists>g g'. eventually_is (\<lambda>fuel. whisper_grammar_init fuel rules i) g
    \<and> eventually_is (\<lambda>fuel. accept_tokens fuel id_to_token g toks) g'
    \<and> ([] \<in> set (gr_stacks g') \<longleftrightarrow> grammar_language rules i ps)"
  by (rule grammar_follows_language_total [OF assms])

text \<open>The grammar of the witness: one or more characters of \<open>a\<close> to \<open>z\<close> or the letter e with an acute
  accent. Its accented letter is cut between two tokens.\<close>

definition letters :: "whisper_grammar_element list list" where
  "letters = [[\<lparr>ge_type = GRETYPE_RULE_REF, ge_value = 1\<rparr>, \<lparr>ge_type = GRETYPE_RULE_REF, ge_value = 0\<rparr>,
      \<lparr>ge_type = GRETYPE_ALT, ge_value = 0\<rparr>, \<lparr>ge_type = GRETYPE_RULE_REF, ge_value = 1\<rparr>,
      \<lparr>ge_type = GRETYPE_END, ge_value = 0\<rparr>],
    [\<lparr>ge_type = GRETYPE_CHAR, ge_value = 97\<rparr>, \<lparr>ge_type = GRETYPE_CHAR_RNG_UPPER, ge_value = 122\<rparr>,
      \<lparr>ge_type = GRETYPE_CHAR_ALT, ge_value = 233\<rparr>, \<lparr>ge_type = GRETYPE_END, ge_value = 0\<rparr>]]"

lemma cut_letters: "cut_rules letters = letters"
  by (simp add: cut_rules_def letters_def)

lemma letters_alternates:
  "alternates (letters ! 0) = [letters ! 0, drop 3 (letters ! 0)]" "alternates (letters ! 1) = [letters ! 1]"
  by (simp_all add: letters_def alternates.simps scan_to_end_def)

lemma letters_cases:
  assumes "r < length letters" and "a \<in> set (alternates (letters ! r))"
  obtains "r = 0" "a = letters ! 0" | "r = 0" "a = drop 3 (letters ! 0)" | "r = 1" "a = letters ! 1"
proof -
  have "r = 0 \<or> r = 1" using assms(1) by (auto simp: letters_def)
  then show thesis using assms(2) that letters_alternates by auto
qed

lemma letters_ok: "grammar_ok (cut_rules letters)" "good_pos (length letters) (letters ! 0)"
proof -
  have good: "\<forall>r \<in> set letters. good_pos (length letters) r"
    by (simp add: letters_def good_pos_def begins_modifier_def modifier_def)
  then show "good_pos (length letters) (letters ! 0)" by (simp add: letters_def)
  have "nullable_closed letters (\<lambda>_. False)"
    unfolding nullable_closed_def
    by (intro allI ballI impI, erule letters_cases)
      (assumption, simp_all add: letters_def whisper_grammar_is_end_of_sequence_def)
  moreover have "rank_decreases letters (\<lambda>_. False) (\<lambda>r. 1 - r)"
    unfolding rank_decreases_def
    by (intro allI ballI impI, erule letters_cases) (assumption, simp_all add: letters_def)
  ultimately show "grammar_ok (cut_rules letters)"
    unfolding cut_letters grammar_ok_def using good by blast
qed

lemma grammar_follows_language_witness:
  "\<exists>g g'. eventually_is (\<lambda>fuel. whisper_grammar_init fuel letters 0) g
    \<and> eventually_is (\<lambda>fuel. accept_tokens fuel (\<lambda>tid. if tid = 0 then [0x6F, 0xC3] else [0xA9]) g [0, 1]) g'
    \<and> ([] \<in> set (gr_stacks g') \<longleftrightarrow> grammar_language letters 0 [0x6F, 0xE9])"
proof (rule grammar_follows_language [OF letters_ok])
  show "concat (map (\<lambda>tid. if tid = 0 then [0x6F, 0xC3] else [0xA9]) [0, 1 :: int]) = encoded [0x6F, 0xE9]"
    by (simp add: encoded_def append_utf8_def)
qed (simp_all add: letters_def)

text \<open>C29: The tokens a grammar rejects are penalised, and no others. With a depth above the length of every
  decoded token, suppression returns; a text token loses the penalty exactly if accepting its code
  points, from the stacks and the partial sequence of the grammar, leaves no stack on which its own
  partial sequence can go on; every other logit is unchanged.\<close>

theorem suppress_penalises_rejected:
  assumes "grammar_ok (gr_rules g)" and "stacks_ok (gr_rules g) (gr_stacks g)" and "gr_rules g \<noteq> []" and "gr_stacks g \<noteq> []"
    and "nat eot \<le> length logits" and "1 \<le> depth"
    and "\<forall>tid. 0 \<le> tid \<and> tid < eot \<longrightarrow> length (fst (decode_utf8 (id_to_token tid) (gr_partial_utf8 g))) < depth"
  shows "eventually_is (\<lambda>fuel. whisper_suppress_invalid_grammar depth fuel id_to_token eot penalty logits g)
    (map (\<lambda>j. if int j < eot \<and> id_to_token (int j) \<noteq> [] \<and> \<not> kept (gr_rules g) (gr_stacks g) (candidate id_to_token g (int j))
              then map_option (\<lambda>x. x - penalty) (logits ! j) else logits ! j) [0..<length logits])"
  by (rule suppress_total [OF assms])

lemma suppress_penalises_rejected_witness:
  "\<exists>l. eventually_is (\<lambda>fuel. whisper_suppress_invalid_grammar 9 fuel (\<lambda>tid. if tid = 0 then [0x41] else [0x61]) 2 100 [Some 1, Some 2, None]
      \<lparr>gr_rules = letters, gr_stacks = [[letters ! 1]], gr_partial_utf8 = \<lparr>pu_value = 0, pu_n_remain = 0\<rparr>\<rparr>) l"
  (is "\<exists>l. eventually_is (\<lambda>fuel. whisper_suppress_invalid_grammar 9 fuel ?t 2 100 [Some 1, Some 2, None] ?g) l")
proof (intro exI, rule suppress_penalises_rejected)
  show "grammar_ok (gr_rules ?g)" using letters_ok(1) by (simp add: cut_letters)
  show "stacks_ok (gr_rules ?g) (gr_stacks ?g)"
    by (simp add: stacks_ok_def stack_ok_def ready_def letters_def good_pos_def begins_modifier_def modifier_def
        whisper_grammar_is_end_of_sequence_def is_char_range_def)
qed (auto simp: letters_def decode_utf8_def utf8_lookup_def drop_bit_eq_div)



text \<open>C31: UTF-8 is decoded incrementally: bytes that together encode a text of nonzero code points, cut
  anywhere into pieces, are decoded piece by piece to exactly that text, and nothing is left over.\<close>

theorem decode_utf8_pieces:
  assumes "\<forall>p \<in> set ps. unat p < 0x110000 \<and> p \<noteq> 0" and "concat bss = encoded ps"
  shows "\<exists>v. decode_pieces bss \<lparr>pu_value = 0, pu_n_remain = 0\<rparr> = (ps, \<lparr>pu_value = v, pu_n_remain = 0\<rparr>)"
  using decode_pieces_feed [of bss "\<lparr>pu_value = 0, pu_n_remain = 0\<rparr>"] feed_encoded [of ps 0 0] encoded_nonzero [of ps] assms
  by auto

lemma decode_utf8_pieces_witness:
  "\<exists>v. decode_pieces [[0x6F, 0xE2], [], [0x82], [0xAC, 0x21]] \<lparr>pu_value = 0, pu_n_remain = 0\<rparr>
      = ([0x6F, 0x20AC, 0x21], \<lparr>pu_value = v, pu_n_remain = 0\<rparr>)"
  by (rule decode_utf8_pieces) (simp_all add: encoded_def append_utf8_def drop_bit_eq_div)

end
