(* ===== verification/VadTimeMap.thy ===== *)
theory VadTimeMap
  imports Complex_Main Prelude VadFilter "HOL-Library.Monad_Syntax" "HOL-Library.Multiset"
begin

text \<open>
  The speech-only transcription of Whisper/src/whisper.cpp: \<open>whisper_vad\<close> copies the speech segments of
  a recording, with 0.1 s of silence between them, and records which processed times belong to which
  original times; the segment getters map times back by interpolation. A write outside the buffer of
  filtered samples is \<open>None\<close>. \<open>std::sort\<close> leaves the order of equal keys open, so it is a parameter.
  The theorems: the buffer is large enough and holds the segments in order, and mapped times are
  monotone and inside the speech.
\<close>

section \<open>State\<close>

record vad_time_mapping =
  tm_processed :: int
  tm_original :: int

record vad_segment_info =
  vsi_orig_start :: int
  vsi_orig_end :: int
  vsi_vad_start :: int
  vsi_vad_end :: int

record 's vad_state =
  vs_context :: "'s whisper_vad_context option"
  vs_has_segments :: bool
  vs_segments :: "vad_segment_info list"
  vs_mapping :: "vad_time_mapping list"

section \<open>Filtering the samples\<close>

definition silence_samples :: int where
  "silence_samples = trunc_real (1 / 10 * real_of_int WHISPER_SAMPLE_RATE)"

text \<open>The first loop: what a segment adds to the number of samples.\<close>

definition segment_contribution :: "int \<Rightarrow> int \<Rightarrow> (int \<times> int) list \<Rightarrow> nat \<Rightarrow> int" where
  "segment_contribution overlap_samples n_samples segs i =
     (let segment_start_samples = cs_to_samples (fst (segs ! i));
          segment_end_samples = cs_to_samples (snd (segs ! i));
          segment_end_samples = (if i < length segs - 1 then segment_end_samples + overlap_samples else segment_end_samples);
          segment_end_samples = min segment_end_samples (n_samples - 1)
      in segment_end_samples - segment_start_samples)"

definition total_samples_needed :: "int \<Rightarrow> int \<Rightarrow> (int \<times> int) list \<Rightarrow> int" where
  "total_samples_needed overlap_samples n_samples segs =
     (let filtered_n_samples = for_range 0 (length segs) (\<lambda>i n. n + segment_contribution overlap_samples n_samples segs i) 0;
          total_silence_samples = (if length segs > 1 then (int (length segs) - 1) * silence_samples else 0)
      in filtered_n_samples + total_silence_samples)"

text \<open>\<open>memcpy\<close> and \<open>memset\<close> into the filtered samples.\<close>

definition write_samples :: "int \<Rightarrow> real list \<Rightarrow> real list \<Rightarrow> real list option" where
  "write_samples offset xs buf =
     (if offset < 0 \<or> int (length buf) < offset + int (length xs) then None
      else Some (take (nat offset) buf @ xs @ drop (nat offset + length xs) buf))"

record vad_copy =
  cp_offset :: int
  cp_buffer :: "real list"
  cp_table :: "vad_time_mapping list"
  cp_infos :: "vad_segment_info list"

definition copy_segment :: "int \<Rightarrow> real list \<Rightarrow> (int \<times> int) list \<Rightarrow> nat \<Rightarrow> vad_copy \<Rightarrow> vad_copy option" where
  "copy_segment overlap_samples samples segs i st =
     (let n_samples = int (length samples);
          segment_start_samples = min (cs_to_samples (fst (segs ! i))) (n_samples - 1);
          segment_end_samples = min (cs_to_samples (snd (segs ! i))) (n_samples - 1);
          original_segment_length = segment_end_samples - segment_start_samples;
          segment_end_samples =
            (if i < length segs - 1 then min (segment_end_samples + overlap_samples) (n_samples - 1) else segment_end_samples);
          segment_length = segment_end_samples - segment_start_samples;
          offset = cp_offset st
      in if segment_length > 0
         then
           let info = \<lparr>vsi_orig_start = fst (segs ! i), vsi_orig_end = snd (segs ! i),
                       vsi_vad_start = samples_to_cs offset, vsi_vad_end = samples_to_cs (offset + original_segment_length)\<rparr>;
               table = cp_table st @ [\<lparr>tm_processed = vsi_vad_start info, tm_original = vsi_orig_start info\<rparr>,
                                      \<lparr>tm_processed = vsi_vad_end info, tm_original = vsi_orig_end info\<rparr>];
               segment = take (nat segment_length) (drop (nat segment_start_samples) samples)
           in do {
                buffer \<leftarrow> write_samples offset segment (cp_buffer st);
                let offset = offset + segment_length;
                if i < length segs - 1
                then do {
                  buffer \<leftarrow> write_samples offset (replicate (nat silence_samples) 0) buffer;
                  Some \<lparr>cp_offset = offset + silence_samples, cp_buffer = buffer,
                    cp_table = table @ [\<lparr>tm_processed = samples_to_cs offset, tm_original = vsi_orig_end info\<rparr>,
                                        \<lparr>tm_processed = samples_to_cs (offset + silence_samples), tm_original = fst (segs ! (i + 1))\<rparr>],
                    cp_infos = cp_infos st @ [info]\<rparr>
                }
                else Some \<lparr>cp_offset = offset, cp_buffer = buffer, cp_table = table, cp_infos = cp_infos st @ [info]\<rparr>
              }
         else Some st)"

definition copy_segments :: "int \<Rightarrow> real list \<Rightarrow> (int \<times> int) list \<Rightarrow> real list \<Rightarrow> vad_copy option" where
  "copy_segments overlap_samples samples segs buffer =
     for_range 0 (length segs) (\<lambda>i st. do { st \<leftarrow> st; copy_segment overlap_samples samples segs i st })
       (Some \<lparr>cp_offset = 0, cp_buffer = buffer, cp_table = [], cp_infos = []\<rparr>)"

text \<open>\<open>std::unique\<close> on the processed time.\<close>

fun unique_times :: "vad_time_mapping list \<Rightarrow> vad_time_mapping list" where
  "unique_times (a # b # ms) =
     (if tm_processed a = tm_processed b then unique_times (a # ms) else a # unique_times (b # ms))"
| "unique_times ms = ms"

text \<open>The result, the state and the filtered samples; \<open>load\<close> loads the Silero model and \<open>memory_ok\<close>
  says whether the filtered samples can be allocated.\<close>

definition whisper_vad ::
  "(whisper_vad_context_params \<Rightarrow> 's whisper_vad_context option) \<Rightarrow> ('s \<Rightarrow> real list \<Rightarrow> ('s \<times> real) option) \<Rightarrow> bool \<Rightarrow> 's
    \<Rightarrow> (int \<Rightarrow> bool) \<Rightarrow> (vad_time_mapping list \<Rightarrow> vad_time_mapping list)
    \<Rightarrow> 's vad_state \<Rightarrow> whisper_vad_params \<Rightarrow> real list \<Rightarrow> real list \<Rightarrow> (bool \<times> 's vad_state \<times> real list) option" where
  "whisper_vad load compute alloc_ok zero memory_ok sort_table state vad_params samples filtered_samples =
     (let state = state\<lparr>vs_mapping := [], vs_has_segments := False\<rparr>
      in case (case vs_context state of None \<Rightarrow> load whisper_vad_default_context_params | Some vctx \<Rightarrow> Some vctx) of
           None \<Rightarrow> Some (False, state, filtered_samples)
         | Some vctx \<Rightarrow>
             let (segments, vctx) = whisper_vad_segments_from_samples compute alloc_ok zero vctx vad_params samples;
                 state = state\<lparr>vs_context := Some vctx\<rparr>
             in case segments of
                  None \<Rightarrow> Some (False, state, filtered_samples)
                | Some segs \<Rightarrow>
                    if segs = [] then Some (True, state, filtered_samples)
                    else
                      let state = state\<lparr>vs_has_segments := True, vs_segments := []\<rparr>;
                          overlap_samples = trunc_real (vp_samples_overlap vad_params * real_of_int WHISPER_SAMPLE_RATE);
                          total = total_samples_needed overlap_samples (int (length samples)) segs
                      in if \<not> memory_ok total then Some (False, state, filtered_samples)
                         else do {
                           copy \<leftarrow> copy_segments overlap_samples samples segs (resize (nat total) 0 filtered_samples);
                           Some (True, state\<lparr>vs_segments := cp_infos copy, vs_mapping := unique_times (sort_table (cp_table copy))\<rparr>,
                                 cp_buffer copy)
                         })"

text \<open>The part of \<open>whisper_full\<close> before the transcription: a return value, or the samples to transcribe.\<close>

definition whisper_full_input ::
  "(whisper_vad_context_params \<Rightarrow> 's whisper_vad_context option) \<Rightarrow> ('s \<Rightarrow> real list \<Rightarrow> ('s \<times> real) option) \<Rightarrow> bool \<Rightarrow> 's
    \<Rightarrow> (int \<Rightarrow> bool) \<Rightarrow> (vad_time_mapping list \<Rightarrow> vad_time_mapping list)
    \<Rightarrow> 's vad_state \<Rightarrow> bool \<Rightarrow> whisper_vad_params \<Rightarrow> real list \<Rightarrow> ((int + real list) \<times> 's vad_state) option" where
  "whisper_full_input load compute alloc_ok zero memory_ok sort_table state vad vad_params samples =
     (if vad
      then do {
        (ok, state, vad_samples) \<leftarrow> whisper_vad load compute alloc_ok zero memory_ok sort_table state vad_params samples [];
        Some (if \<not> ok then Inl (- 1) else if vad_samples = [] then Inl 0 else Inr vad_samples, state)
      }
      else Some (Inr samples, state))"

section \<open>Mapping times back\<close>

definition map_processed_to_original_time :: "int \<Rightarrow> vad_time_mapping list \<Rightarrow> int" where
  "map_processed_to_original_time processed_time table =
     (if table = [] then processed_time
      else if processed_time \<le> tm_processed (hd table) then tm_original (hd table)
      else if processed_time \<ge> tm_processed (last table) then tm_original (last table)
      else
        let k = length (takeWhile (\<lambda>m. tm_processed m < processed_time) table);
            upper = table ! k
        in if tm_processed upper = processed_time then tm_original upper
           else
             let lower = table ! (k - 1);
                 processed_diff = tm_processed upper - tm_processed lower;
                 original_diff = tm_original upper - tm_original lower;
                 offset = processed_time - tm_processed lower
             in if processed_diff = 0 then tm_original lower
                else tm_original lower + tdiv (offset * original_diff) processed_diff)"

record whisper_segment_times =
  seg_t0 :: int
  seg_t1 :: int

definition whisper_full_get_segment_t0 :: "'s vad_state \<Rightarrow> whisper_segment_times \<Rightarrow> int" where
  "whisper_full_get_segment_t0 state seg =
     (if \<not> vs_has_segments state \<or> vs_mapping state = [] then seg_t0 seg
      else map_processed_to_original_time (seg_t0 seg) (vs_mapping state))"

definition whisper_full_get_segment_t1 :: "'s vad_state \<Rightarrow> whisper_segment_times \<Rightarrow> int" where
  "whisper_full_get_segment_t1 state seg =
     (if \<not> vs_has_segments state \<or> vs_mapping state = [] then seg_t1 seg
      else
        let orig_t1 = map_processed_to_original_time (seg_t1 seg) (vs_mapping state);
            orig_t0 = whisper_full_get_segment_t0 state seg;
            min_duration = 10
        in if orig_t1 - orig_t0 < min_duration then orig_t0 + min_duration else orig_t1)"

section \<open>Monotone tables\<close>

definition steady :: "vad_time_mapping \<Rightarrow> vad_time_mapping \<Rightarrow> bool" where
  "steady a b \<longleftrightarrow> tm_processed a \<le> tm_processed b \<and> tm_original a \<le> tm_original b"

definition strictly_steady :: "vad_time_mapping list \<Rightarrow> bool" where
  "strictly_steady ms \<longleftrightarrow> sorted_wrt (\<lambda>a b. tm_processed a < tm_processed b \<and> tm_original a \<le> tm_original b) ms"

lemma strictly_steady_nth:
  assumes "strictly_steady ms" and "i < j" and "j < length ms"
  shows "tm_processed (ms ! i) < tm_processed (ms ! j)" "tm_original (ms ! i) \<le> tm_original (ms ! j)"
  using assms by (auto simp: strictly_steady_def sorted_wrt_iff_nth_less)

text \<open>Where a time lies: at the lower end, at the upper end, on an entry or between two.\<close>

lemma interpolate_bounds:
  assumes "0 \<le> k" and "k < d" and "0 \<le> (e :: int)"
  shows "0 \<le> tdiv (k * e) d" "tdiv (k * e) d \<le> e"
proof -
  have "tdiv (k * e) d = k * e div d" using assms by (simp add: tdiv_nonneg)
  moreover have "k * e \<le> d * e" using assms by (intro mult_right_mono) auto
  ultimately show "0 \<le> tdiv (k * e) d" "tdiv (k * e) d \<le> e"
    using assms zdiv_mono1 [of "k * e" "d * e" d] by (simp_all add: pos_imp_zdiv_nonneg_iff)
qed

lemma map_time_between:
  assumes ms: "strictly_steady ms" and t: "tm_processed (ms ! k) \<le> t" "t < tm_processed (ms ! Suc k)" and k: "Suc k < length ms"
  shows "map_processed_to_original_time t ms = tm_original (ms ! k)
      + tdiv ((t - tm_processed (ms ! k)) * (tm_original (ms ! Suc k) - tm_original (ms ! k))) (tm_processed (ms ! Suc k) - tm_processed (ms ! k))"
proof -
  have ne: "ms \<noteq> []" using k by auto
  have less: "tm_processed (ms ! i) < tm_processed (ms ! j)" if "i < j" "j < length ms" for i j
    using strictly_steady_nth(1) [OF ms that] .
  have "t < tm_processed (last ms)"
  proof (cases "Suc k = length ms - 1")
    case False
    then have "Suc k < length ms - 1" using k by linarith
    then show ?thesis using t(2) less [of "Suc k" "length ms - 1"] ne by (simp add: last_conv_nth)
  qed (use t(2) ne in \<open>simp add: last_conv_nth\<close>)
  then have last: "\<not> t \<ge> tm_processed (last ms)" by simp
  have count: "length (takeWhile (\<lambda>m. tm_processed m < t) ms) = n" if "n < length ms" "t \<le> tm_processed (ms ! n)"
    "\<And>i. i < n \<Longrightarrow> tm_processed (ms ! i) < t" for n
    using takeWhile_eq_take_P_nth [of n ms "\<lambda>m. tm_processed m < t"] that by simp
  show ?thesis
  proof (cases "t = tm_processed (ms ! k)")
    case True
    show ?thesis
    proof (cases k)
      case 0
      then show ?thesis using True ne by (simp add: map_processed_to_original_time_def hd_conv_nth tdiv_def)
    next
      case (Suc k')
      have "\<not> t \<le> tm_processed (hd ms)" using less [of 0 k] Suc k ne True by (simp add: hd_conv_nth)
      moreover have "length (takeWhile (\<lambda>m. tm_processed m < t) ms) = k" using count [of k] k less True by simp
      ultimately show ?thesis using True ne last by (simp add: map_processed_to_original_time_def tdiv_def)
    qed
  next
    case False
    then have gt: "tm_processed (ms ! k) < t" using t(1) by simp
    have below: "tm_processed (ms ! i) < t" if "i \<le> k" for i
      using less [of i k] that k gt by (cases "i = k") auto
    have "\<not> t \<le> tm_processed (hd ms)" using below [of 0] ne by (simp add: hd_conv_nth)
    moreover have "length (takeWhile (\<lambda>m. tm_processed m < t) ms) = Suc k" using count [of "Suc k"] k t(2) below by simp
    ultimately show ?thesis using t(2) ne last less [of k "Suc k"] k by (simp add: map_processed_to_original_time_def Let_def)
  qed
qed

lemma map_time_bounds:
  assumes "strictly_steady ms" and "tm_processed (ms ! k) \<le> t" and "t < tm_processed (ms ! Suc k)" and "Suc k < length ms"
  shows "tm_original (ms ! k) \<le> map_processed_to_original_time t ms" "map_processed_to_original_time t ms \<le> tm_original (ms ! Suc k)"
  using interpolate_bounds [of "t - tm_processed (ms ! k)" "tm_processed (ms ! Suc k) - tm_processed (ms ! k)"
      "tm_original (ms ! Suc k) - tm_original (ms ! k)"]
    assms strictly_steady_nth(2) [OF assms(1), of k "Suc k"]
  by (simp_all add: map_time_between)

lemma time_cases:
  assumes "strictly_steady ms" and "ms \<noteq> []"
  obtains (before) "t \<le> tm_processed (hd ms)" | (beyond) "tm_processed (last ms) \<le> t"
  | (between) k where "tm_processed (ms ! k) \<le> t" "t < tm_processed (ms ! Suc k)" "Suc k < length ms"
proof -
  let ?below = "\<lambda>i. i < length ms \<and> tm_processed (ms ! i) \<le> t"
  show thesis
  proof (cases "?below 0 \<and> \<not> ?below (length ms - 1)")
    case True
    let ?k = "Max {i. ?below i}"
    have fin: "finite {i. ?below i}" by simp
    have "?below ?k" using Max_in [OF fin] True by blast
    moreover have "\<not> ?below (Suc ?k)" using Max_ge [OF fin, of "Suc ?k"] by (metis Suc_n_not_le_n mem_Collect_eq)
    moreover have "Suc ?k < length ms" using calculation(1) True by (cases "?k = length ms - 1") auto
    ultimately show thesis using between by auto
  next
    case False
    then show thesis using before beyond assms(2) by (auto simp: hd_conv_nth last_conv_nth)
  qed
qed

lemma map_time_outside:
  assumes "strictly_steady ms" and "ms \<noteq> []"
  shows "t \<le> tm_processed (hd ms) \<Longrightarrow> map_processed_to_original_time t ms = tm_original (hd ms)"
    "tm_processed (last ms) \<le> t \<Longrightarrow> map_processed_to_original_time t ms = tm_original (last ms)"
proof -
  show "t \<le> tm_processed (hd ms) \<Longrightarrow> map_processed_to_original_time t ms = tm_original (hd ms)"
    using assms(2) by (simp add: map_processed_to_original_time_def)
  assume t: "tm_processed (last ms) \<le> t"
  show "map_processed_to_original_time t ms = tm_original (last ms)"
  proof (cases "t \<le> tm_processed (hd ms)")
    case True
    have "\<not> tm_processed (hd ms) < tm_processed (last ms)" using t True by simp
    then have "\<not> 0 < length ms - 1"
      using strictly_steady_nth(1) [OF assms(1), of 0 "length ms - 1"] assms(2) by (auto simp: hd_conv_nth last_conv_nth)
    then have "length ms - 1 = 0" by simp
    then have "hd ms = last ms" using assms(2) by (simp add: hd_conv_nth last_conv_nth)
    then show ?thesis using True assms(2) by (simp add: map_processed_to_original_time_def)
  qed (use t assms(2) in \<open>simp add: map_processed_to_original_time_def\<close>)
qed

lemma map_time_range:
  assumes "strictly_steady ms" and "ms \<noteq> []"
  shows "tm_original (hd ms) \<le> map_processed_to_original_time t ms" "map_processed_to_original_time t ms \<le> tm_original (last ms)"
proof -
  have mono: "tm_original (ms ! i) \<le> tm_original (ms ! j)" if "i \<le> j" "j < length ms" for i j
    using strictly_steady_nth(2) [OF assms(1), of i j] that by (cases "i = j") auto
  have ends: "tm_original (hd ms) \<le> tm_original (last ms)" using mono [of 0 "length ms - 1"] assms(2) by (simp add: hd_conv_nth last_conv_nth)
  show "tm_original (hd ms) \<le> map_processed_to_original_time t ms" "map_processed_to_original_time t ms \<le> tm_original (last ms)"
  proof (atomize (full), cases t rule: time_cases [OF assms])
    case (3 k)
    then have "Suc k \<le> length ms - 1" "length ms - 1 < length ms" "k < length ms" by linarith+
    with 3 show "tm_original (hd ms) \<le> map_processed_to_original_time t ms \<and> map_processed_to_original_time t ms \<le> tm_original (last ms)"
      using map_time_bounds [OF assms(1) 3] mono [of 0 k] mono [of "Suc k" "length ms - 1"] assms(2)
      by (auto simp: hd_conv_nth last_conv_nth)
  qed (use ends map_time_outside [OF assms] in auto)
qed

lemma map_time_mono:
  assumes "strictly_steady ms" and "t \<le> t'"
  shows "map_processed_to_original_time t ms \<le> map_processed_to_original_time t' ms"
proof (cases "ms = []")
  case True
  then show ?thesis using assms(2) by (simp add: map_processed_to_original_time_def)
next
  case False
  note range = map_time_range [OF assms(1) False] and out = map_time_outside [OF assms(1) False]
  show ?thesis
  proof (cases t rule: time_cases [OF assms(1) False])
    case 1
    then show ?thesis using range(1) out(1) by simp
  next
    case 2
    then show ?thesis using range out(2) assms(2) by simp
  next
    case (3 k)
    note k = this
    show ?thesis
    proof (cases t' rule: time_cases [OF assms(1) False])
      case 1
      have "tm_processed (hd ms) \<le> tm_processed (ms ! k)"
        using strictly_steady_nth(1) [OF assms(1), of 0 k] k False by (cases k) (auto simp: hd_conv_nth)
      then have "t = t'" using 1 k assms(2) by simp
      then show ?thesis by simp
    next
      case 2
      then show ?thesis using range(2) out(2) by simp
    next
      case (3 k')
      have "k \<le> k'"
      proof (rule ccontr)
        assume "\<not> k \<le> k'"
        then have "tm_processed (ms ! Suc k') \<le> tm_processed (ms ! k)"
          using strictly_steady_nth(1) [OF assms(1), of "Suc k'" k] k by (cases "Suc k' = k") auto
        then show False using k 3 assms(2) by simp
      qed
      show ?thesis
      proof (cases "k = k'")
        case True
        have "(t - tm_processed (ms ! k)) * (tm_original (ms ! Suc k) - tm_original (ms ! k))
            \<le> (t' - tm_processed (ms ! k)) * (tm_original (ms ! Suc k) - tm_original (ms ! k))"
          using assms(2) strictly_steady_nth(2) [OF assms(1), of k "Suc k"] k by (intro mult_right_mono) auto
        then show ?thesis
          using k 3 True strictly_steady_nth [OF assms(1), of k "Suc k"] zdiv_mono1
          by (simp add: map_time_between [OF assms(1)] tdiv_nonneg)
      next
        case False
        have "tm_original (ms ! Suc k) \<le> tm_original (ms ! k')"
          using strictly_steady_nth(2) [OF assms(1), of "Suc k" k'] \<open>k \<le> k'\<close> False 3 by (cases "Suc k = k'") auto
        then show ?thesis using map_time_bounds(2) [OF assms(1) k] map_time_bounds(1) [OF assms(1) 3] by linarith
      qed
    qed
  qed
qed

section \<open>The mapping table\<close>

lemma unique_times_sorted:
  "sorted_wrt (\<lambda>a b. tm_processed a \<le> tm_processed b) ms \<Longrightarrow>
     sorted_wrt (\<lambda>a b. tm_processed a < tm_processed b) (unique_times ms) \<and> set (unique_times ms) \<subseteq> set ms
     \<and> (ms \<noteq> [] \<longrightarrow> unique_times ms \<noteq> [] \<and> hd (unique_times ms) = hd ms)"
proof (induction ms rule: unique_times.induct)
  case (1 a b ms)
  show ?case
  proof (cases "tm_processed a = tm_processed b")
    case True
    then show ?thesis using 1 by auto
  next
    case False
    then have IH: "sorted_wrt (\<lambda>a b. tm_processed a < tm_processed b) (unique_times (b # ms))"
      "set (unique_times (b # ms)) \<subseteq> set (b # ms)" using 1 by auto
    have "tm_processed a < tm_processed c" if "c \<in> set (unique_times (b # ms))" for c
      using that IH(2) 1(3) False by fastforce
    then show ?thesis using IH False by auto
  qed
qed auto

lemma steady_pairs:
  assumes "sorted_wrt steady ms" and "a \<in> set ms" and "b \<in> set ms" and "tm_processed a < tm_processed b"
  shows "tm_original a \<le> tm_original b"
proof -
  obtain i j where ij: "i < length ms" "j < length ms" "a = ms ! i" "b = ms ! j"
    using assms(2,3) by (auto simp: in_set_conv_nth)
  show ?thesis
  proof (cases "i < j")
    case False
    then have "j < i \<or> i = j" by auto
    moreover have "\<not> j < i"
    proof
      assume "j < i"
      then have "steady (ms ! j) (ms ! i)" using assms(1) ij by (simp add: sorted_wrt_iff_nth_less)
      then show False using assms(4) ij by (simp add: steady_def)
    qed
    ultimately show ?thesis using ij by simp
  qed (use assms(1) ij in \<open>simp add: sorted_wrt_iff_nth_less steady_def\<close>)
qed

text \<open>What \<open>std::sort\<close> guarantees.\<close>

definition sorts_times :: "(vad_time_mapping list \<Rightarrow> vad_time_mapping list) \<Rightarrow> bool" where
  "sorts_times sort_table \<longleftrightarrow>
     (\<forall>ms. mset (sort_table ms) = mset ms \<and> sorted_wrt (\<lambda>a b. tm_processed a \<le> tm_processed b) (sort_table ms))"

lemma mapping_strictly_steady:
  assumes "sorts_times sort_table" and "sorted_wrt steady ms"
  shows "strictly_steady (unique_times (sort_table ms))" "set (unique_times (sort_table ms)) \<subseteq> set ms"
    "ms \<noteq> [] \<Longrightarrow> unique_times (sort_table ms) \<noteq> []"
proof -
  have s: "mset (sort_table ms) = mset ms" "sorted_wrt (\<lambda>a b. tm_processed a \<le> tm_processed b) (sort_table ms)"
    using assms(1) by (simp_all add: sorts_times_def)
  note u = unique_times_sorted [OF s(2)]
  show sub: "set (unique_times (sort_table ms)) \<subseteq> set ms" using u mset_eq_setD [OF s(1)] by simp
  show "ms \<noteq> [] \<Longrightarrow> unique_times (sort_table ms) \<noteq> []" using u s(1) by auto
  show "strictly_steady (unique_times (sort_table ms))"
    unfolding strictly_steady_def
  proof (rule sorted_wrt_mono_rel [where P = "\<lambda>a b. tm_processed a < tm_processed b"])
    show "sorted_wrt (\<lambda>a b. tm_processed a < tm_processed b) (unique_times (sort_table ms))" using u by blast
    show "tm_processed a < tm_processed b \<and> tm_original a \<le> tm_original b"
      if "a \<in> set (unique_times (sort_table ms))" "b \<in> set (unique_times (sort_table ms))" "tm_processed a < tm_processed b" for a b
      using steady_pairs [OF assms(2) _ _ that(3)] sub that by (meson subsetD)
  qed
qed

section \<open>Copying the segments\<close>

lemma silence_samples_eq: "silence_samples = 1600"
  by (simp add: silence_samples_def trunc_real_def WHISPER_SAMPLE_RATE_def)

lemma cs_to_samples_mono: "0 \<le> a \<Longrightarrow> a \<le> b \<Longrightarrow> cs_to_samples a \<le> cs_to_samples b"
  by (simp add: cs_to_samples_def trunc_real_def WHISPER_SAMPLE_RATE_def floor_mono)

lemma cs_to_samples_nonneg: "0 \<le> a \<Longrightarrow> 0 \<le> cs_to_samples a"
  by (simp add: cs_to_samples_def trunc_real_def WHISPER_SAMPLE_RATE_def)

lemma write_samples_append:
  assumes "length pre = nat offset" and "0 \<le> offset" and "length xs \<le> n"
  shows "write_samples offset xs (pre @ replicate n 0) = Some (pre @ xs @ replicate (n - length xs) 0)"
  using assms by (simp add: write_samples_def)

text \<open>The samples of one segment.\<close>

definition segment_span :: "int \<Rightarrow> real list \<Rightarrow> (int \<times> int) list \<Rightarrow> nat \<Rightarrow> real list" where
  "segment_span overlap_samples samples segs i =
     take (nat (segment_contribution overlap_samples (int (length samples)) segs i)) (drop (nat (cs_to_samples (fst (segs ! i)))) samples)"

definition segment_piece :: "int \<Rightarrow> real list \<Rightarrow> (int \<times> int) list \<Rightarrow> nat \<Rightarrow> real list" where
  "segment_piece overlap_samples samples segs i =
     (if segment_contribution overlap_samples (int (length samples)) segs i > 0
      then segment_span overlap_samples samples segs i @ (if i < length segs - 1 then replicate 1600 0 else [])
      else [])"

text \<open>The segments are ordered and begin inside the recording.\<close>

definition segments_inside :: "(int \<times> int) list \<Rightarrow> int \<Rightarrow> bool" where
  "segments_inside segs n_samples \<longleftrightarrow>
     (\<exists>hi. ordered 0 segs hi) \<and> (\<forall>(s, e) \<in> set segs. cs_to_samples s < n_samples)"

lemma segment_facts:
  assumes "segments_inside segs n" and "i < length segs" and "0 \<le> ov"
  shows "0 \<le> fst (segs ! i)" "fst (segs ! i) \<le> snd (segs ! i)" "Suc i < length segs \<Longrightarrow> snd (segs ! i) \<le> fst (segs ! Suc i)"
    "0 \<le> cs_to_samples (fst (segs ! i))" "cs_to_samples (fst (segs ! i)) \<le> n - 1" "0 \<le> segment_contribution ov n segs i"
    "cs_to_samples (fst (segs ! i)) + segment_contribution ov n segs i \<le> n - 1"
proof -
  obtain hi where hi: "ordered 0 segs hi" using assms(1) by (auto simp: segments_inside_def)
  have mem: "(fst (segs ! i), snd (segs ! i)) \<in> set segs" using assms(2) by simp
  show s: "0 \<le> fst (segs ! i)" and e: "fst (segs ! i) \<le> snd (segs ! i)" using ordered_member [OF hi mem] by simp_all
  show "snd (segs ! i) \<le> fst (segs ! Suc i)" if "Suc i < length segs"
  proof -
    have "segs = take (Suc i) segs @ drop (Suc i) segs" by simp
    then have "ordered 0 (take i segs @ [segs ! i] @ segs ! Suc i # drop (Suc (Suc i)) segs) hi"
      using hi that by (metis Cons_nth_drop_Suc append.assoc take_Suc_conv_app_nth assms(2))
    then show ?thesis by (cases "segs ! i"; cases "segs ! Suc i") (auto simp: ordered_append)
  qed
  show c0: "0 \<le> cs_to_samples (fst (segs ! i))" using s by (rule cs_to_samples_nonneg)
  show cn: "cs_to_samples (fst (segs ! i)) \<le> n - 1" using assms(1) mem by (auto simp: segments_inside_def)
  have "cs_to_samples (fst (segs ! i)) \<le> cs_to_samples (snd (segs ! i))" using s e by (rule cs_to_samples_mono)
  then show "0 \<le> segment_contribution ov n segs i" using cn assms(3) by (simp add: segment_contribution_def Let_def)
  show "cs_to_samples (fst (segs ! i)) + segment_contribution ov n segs i \<le> n - 1"
    by (simp add: segment_contribution_def Let_def)
qed

definition still_needed :: "int \<Rightarrow> int \<Rightarrow> (int \<times> int) list \<Rightarrow> nat \<Rightarrow> int" where
  "still_needed ov n segs i = (\<Sum>j = i..<length segs. segment_contribution ov n segs j + (if j < length segs - 1 then 1600 else 0))"

lemma still_needed_step:
  "i < length segs \<Longrightarrow> still_needed ov n segs i =
     segment_contribution ov n segs i + (if i < length segs - 1 then 1600 else 0) + still_needed ov n segs (Suc i)"
  unfolding still_needed_def by (rule sum.atLeast_Suc_lessThan)

lemma still_needed_nonneg:
  "segments_inside segs n \<Longrightarrow> 0 \<le> ov \<Longrightarrow> 0 \<le> still_needed ov n segs i"
  unfolding still_needed_def by (intro sum_nonneg add_nonneg_nonneg segment_facts(6)) auto

lemma total_samples_eq: "total_samples_needed ov n segs = still_needed ov n segs 0"
proof -
  have "for_range 0 m (\<lambda>i n'. n' + segment_contribution ov n segs i) 0 = (\<Sum>j<m. segment_contribution ov n segs j)" for m
    by (induction m) simp_all
  moreover have "(\<Sum>j = 0..<length segs. if j < length segs - 1 then 1600 else 0) = (if length segs > 1 then (int (length segs) - 1) * 1600 else 0)"
  proof -
    have "{j \<in> {0..<length segs}. j < length segs - 1} = {0..<length segs - 1}" by auto
    then show ?thesis by (simp add: sum.If_cases Int_def of_nat_diff)
  qed
  ultimately show ?thesis
    by (simp add: total_samples_needed_def still_needed_def sum.distrib silence_samples_eq atLeast0LessThan)
qed

definition upper_time :: "(int \<times> int) list \<Rightarrow> nat \<Rightarrow> int" where
  "upper_time segs i = (if i < length segs then fst (segs ! i) else snd (segs ! (length segs - 1)))"

text \<open>The state of the copy loop before segment \<open>i\<close>.\<close>

definition copied :: "int \<Rightarrow> real list \<Rightarrow> (int \<times> int) list \<Rightarrow> nat \<Rightarrow> vad_copy \<Rightarrow> bool" where
  "copied ov samples segs i st \<longleftrightarrow>
     0 \<le> cp_offset st \<and> cp_offset st + still_needed ov (int (length samples)) segs i \<le> total_samples_needed ov (int (length samples)) segs
   \<and> length (concat (map (segment_piece ov samples segs) [0..<i])) = nat (cp_offset st)
   \<and> cp_buffer st = concat (map (segment_piece ov samples segs) [0..<i])
        @ replicate (nat (total_samples_needed ov (int (length samples)) segs - cp_offset st)) 0
   \<and> sorted_wrt steady (cp_table st)
   \<and> (\<forall>m \<in> set (cp_table st). tm_processed m \<le> samples_to_cs (cp_offset st)
        \<and> fst (segs ! 0) \<le> tm_original m \<and> tm_original m \<le> upper_time segs i)"

lemma segment_lengths:
  assumes "segments_inside segs n" and "i < length segs" and "0 \<le> ov"
  defines "s \<equiv> min (cs_to_samples (fst (segs ! i))) (n - 1)" and "e \<equiv> min (cs_to_samples (snd (segs ! i))) (n - 1)"
  shows "s = cs_to_samples (fst (segs ! i))"
    "(if i < length segs - 1 then min (e + ov) (n - 1) else e) - s = segment_contribution ov n segs i"
    "0 \<le> e - s" "e - s \<le> segment_contribution ov n segs i"
proof -
  note facts = segment_facts [OF assms(1-3)]
  show s: "s = cs_to_samples (fst (segs ! i))" using facts(5) by (simp add: s_def)
  show len: "(if i < length segs - 1 then min (e + ov) (n - 1) else e) - s = segment_contribution ov n segs i"
    unfolding s using assms(3) by (simp add: segment_contribution_def e_def Let_def) linarith
  have "cs_to_samples (fst (segs ! i)) \<le> cs_to_samples (snd (segs ! i))" using facts(1,2) by (rule cs_to_samples_mono)
  then show "0 \<le> e - s" using facts(5) by (simp add: s e_def)
  show "e - s \<le> segment_contribution ov n segs i" using len assms(3) by (cases "i < length segs - 1") (simp_all add: e_def)
qed

lemma segment_span_length:
  assumes "segments_inside segs (int (length samples))" and "i < length segs" and "0 \<le> ov"
  shows "int (length (segment_span ov samples segs i)) = segment_contribution ov (int (length samples)) segs i"
  using segment_facts [OF assms] by (simp add: segment_span_def)

lemma copied_start: "copied ov samples segs 0
    \<lparr>cp_offset = 0, cp_buffer = resize (nat (total_samples_needed ov (int (length samples)) segs)) 0 [], cp_table = [], cp_infos = []\<rparr>"
  by (simp add: copied_def total_samples_eq resize_def)

lemma upper_time_mono:
  assumes "segments_inside segs n" and "i < length segs"
  shows "fst (segs ! 0) \<le> fst (segs ! i)" "snd (segs ! i) \<le> upper_time segs (Suc i)" "upper_time segs i = fst (segs ! i)"
proof -
  note facts = segment_facts [where ov = 0, OF assms(1)]
  show "fst (segs ! 0) \<le> fst (segs ! i)"
    using assms(2)
  proof (induction i)
    case (Suc i)
    then show ?case using facts(2,3) [of i] by auto
  qed simp
  show "snd (segs ! i) \<le> upper_time segs (Suc i)"
  proof (cases "Suc i < length segs")
    case False
    then have "i = length segs - 1" using assms(2) by linarith
    then show ?thesis using False by (simp add: upper_time_def)
  qed (use facts(3) [of i] assms(2) in \<open>simp add: upper_time_def\<close>)
  show "upper_time segs i = fst (segs ! i)" using assms(2) by (simp add: upper_time_def)
qed

lemma samples_to_cs_nonneg: "0 \<le> a \<Longrightarrow> 0 \<le> samples_to_cs a"
  using samples_to_cs_mono [of 0 a] by (simp add: samples_to_cs_0)

text \<open>A table grows by points that are later than all of its own.\<close>

lemma steady_append:
  assumes "sorted_wrt steady ms" and "\<forall>m \<in> set ms. tm_processed m \<le> p \<and> tm_original m \<le> q" and "sorted_wrt steady ms'"
    and "\<forall>m \<in> set ms'. p \<le> tm_processed m \<and> q \<le> tm_original m"
  shows "sorted_wrt steady (ms @ ms')"
  using assms by (fastforce simp: sorted_wrt_append steady_def)

lemma copy_segment_copied:
  assumes inside: "segments_inside segs (int (length samples))" and i: "i < length segs" and ov: "0 \<le> ov" and st: "copied ov samples segs i st"
  shows "\<exists>st'. copy_segment ov samples segs i st = Some st' \<and> copied ov samples segs (Suc i) st'"
proof -
  let ?n = "int (length samples)" and ?total = "total_samples_needed ov (int (length samples)) segs"
  let ?c = "segment_contribution ov ?n segs i" and ?pre = "concat (map (segment_piece ov samples segs) [0..<i])"
  note facts = segment_facts [OF inside i ov] and lens = segment_lengths [OF inside i ov]
  note up = upper_time_mono [OF inside i]
  have step: "still_needed ov ?n segs i = ?c + (if i < length segs - 1 then 1600 else 0) + still_needed ov ?n segs (Suc i)"
    by (rule still_needed_step [OF i])
  have rest: "0 \<le> still_needed ov ?n segs (Suc i)" using inside ov by (rule still_needed_nonneg)
  have off: "0 \<le> cp_offset st" "cp_offset st + still_needed ov ?n segs i \<le> ?total" "length ?pre = nat (cp_offset st)"
    "cp_buffer st = ?pre @ replicate (nat (?total - cp_offset st)) 0" "sorted_wrt steady (cp_table st)"
    "\<forall>m \<in> set (cp_table st). tm_processed m \<le> samples_to_cs (cp_offset st) \<and> fst (segs ! 0) \<le> tm_original m \<and> tm_original m \<le> fst (segs ! i)"
    using st up(3) by (simp_all add: copied_def)
  show ?thesis
  proof (cases "0 < ?c")
    case False
    then have "?c = 0" using facts(6) by simp
    then have "copy_segment ov samples segs i st = Some st"
      using lens(1,2) by (simp add: copy_segment_def Let_def)
    moreover have "copied ov samples segs (Suc i) st"
      using off False facts(2,6) step up(2) by (auto simp: copied_def segment_piece_def split: if_splits)
    ultimately show ?thesis by blast
  next
    case True
    let ?span = "segment_span ov samples segs i"
    let ?olen = "min (cs_to_samples (snd (segs ! i))) (?n - 1) - cs_to_samples (fst (segs ! i))"
    have olen: "0 \<le> ?olen" "?olen \<le> ?c" using lens(1,3,4) by simp_all
    have span: "int (length ?span) = ?c" by (rule segment_span_length [OF inside i ov])
    let ?pts = "[\<lparr>tm_processed = samples_to_cs (cp_offset st), tm_original = fst (segs ! i)\<rparr>,
      \<lparr>tm_processed = samples_to_cs (cp_offset st + ?olen), tm_original = snd (segs ! i)\<rparr>]"
    have room: "length ?span \<le> nat (?total - cp_offset st)" using span off(2) step rest by (auto split: if_splits)
    have w: "write_samples (cp_offset st) ?span (cp_buffer st) = Some (?pre @ ?span @ replicate (nat (?total - cp_offset st) - length ?span) 0)"
      unfolding off(4) by (rule write_samples_append [OF off(3,1) room])
    have pts: "sorted_wrt steady (cp_table st @ ?pts)"
      using facts(2) olen(1) off(1) by (intro steady_append [OF off(5)]) (use off(6) in \<open>auto simp: steady_def intro: samples_to_cs_mono\<close>)
    have after: "samples_to_cs (cp_offset st) \<le> samples_to_cs (cp_offset st + ?c)"
      "samples_to_cs (cp_offset st + ?olen) \<le> samples_to_cs (cp_offset st + ?c)"
      using facts(6) olen off(1) by (auto intro: samples_to_cs_mono)
    have bounds: "\<forall>m \<in> set (cp_table st @ ?pts). tm_processed m \<le> samples_to_cs (cp_offset st + ?c)
        \<and> fst (segs ! 0) \<le> tm_original m \<and> tm_original m \<le> snd (segs ! i)"
      using off(6) up(1) facts(2) after by fastforce
    have start: "take (nat ?c) (drop (nat (cs_to_samples (fst (segs ! i)))) samples) = ?span" by (simp add: segment_span_def)
    show ?thesis
    proof (cases "i < length segs - 1")
      case last: False
      have len: "min (cs_to_samples (snd (segs ! i))) (?n - 1) - cs_to_samples (fst (segs ! i)) = ?c" using lens(1,2) last by simp
      let ?st = "\<lparr>cp_offset = cp_offset st + ?c, cp_buffer = ?pre @ ?span @ replicate (nat (?total - cp_offset st) - length ?span) 0,
        cp_table = cp_table st @ ?pts,
        cp_infos = cp_infos st @ [\<lparr>vsi_orig_start = fst (segs ! i), vsi_orig_end = snd (segs ! i),
                       vsi_vad_start = samples_to_cs (cp_offset st), vsi_vad_end = samples_to_cs (cp_offset st + ?c)\<rparr>]\<rparr>"
      have "copy_segment ov samples segs i st = Some ?st"
        unfolding copy_segment_def Let_def lens(1) if_not_P [OF last] len if_P [OF True] start w by simp
      moreover have "copied ov samples segs (Suc i) ?st"
        using off(1-3) step last span facts(6) pts bounds up(2) rest True
        by (auto simp: copied_def segment_piece_def nat_add_distrib nat_diff_distrib len)
      ultimately show ?thesis by blast
    next
      case inner: True
      have len: "min (min (cs_to_samples (snd (segs ! i))) (?n - 1) + ov) (?n - 1) - cs_to_samples (fst (segs ! i)) = ?c"
        using lens(1,2) inner by simp
      have room': "1600 \<le> nat (?total - cp_offset st) - length ?span" using span off(2) step rest inner by auto
      have w': "write_samples (cp_offset st + ?c) (replicate (nat silence_samples) 0) (?pre @ ?span @ replicate (nat (?total - cp_offset st) - length ?span) 0)
          = Some (?pre @ ?span @ replicate 1600 0 @ replicate (nat (?total - cp_offset st) - length ?span - 1600) 0)"
      proof -
        have pre: "length (?pre @ ?span) = nat (cp_offset st + ?c)" using off(1,3) facts(6) span by (simp add: nat_add_distrib)
        have fits: "length (replicate 1600 (0 :: real)) \<le> nat (?total - cp_offset st) - length ?span" using room' by simp
        have "nat silence_samples = 1600" by (simp add: silence_samples_eq)
        then show ?thesis
          using write_samples_append [OF pre _ fits] off(1) facts(6) by (simp only: append_assoc length_replicate)
      qed
      let ?more = "[\<lparr>tm_processed = samples_to_cs (cp_offset st + ?c), tm_original = snd (segs ! i)\<rparr>,
        \<lparr>tm_processed = samples_to_cs (cp_offset st + ?c + 1600), tm_original = fst (segs ! (i + 1))\<rparr>]"
      let ?st = "\<lparr>cp_offset = cp_offset st + ?c + 1600,
        cp_buffer = ?pre @ ?span @ replicate 1600 0 @ replicate (nat (?total - cp_offset st) - length ?span - 1600) 0,
        cp_table = (cp_table st @ ?pts) @ ?more,
        cp_infos = cp_infos st @ [\<lparr>vsi_orig_start = fst (segs ! i), vsi_orig_end = snd (segs ! i),
                       vsi_vad_start = samples_to_cs (cp_offset st), vsi_vad_end = samples_to_cs (cp_offset st + ?olen)\<rparr>]\<rparr>"
      have "copy_segment ov samples segs i st = Some ?st"
        unfolding copy_segment_def Let_def lens(1) if_P [OF inner] len if_P [OF True] start w bind.bind_lunit w'
        by (simp add: silence_samples_eq)
      moreover have "copied ov samples segs (Suc i) ?st"
      proof -
        have le: "snd (segs ! i) \<le> fst (segs ! Suc i)" using facts(3) inner by simp
        have later: "samples_to_cs (cp_offset st + ?c) \<le> samples_to_cs (cp_offset st + ?c + 1600)"
          using off(1) facts(6) by (intro samples_to_cs_mono) auto
        have "sorted_wrt steady ?more" using le later by (simp add: steady_def)
        then have "sorted_wrt steady ((cp_table st @ ?pts) @ ?more)"
          using bounds le later by (intro steady_append [OF pts]) (auto simp del: set_append)
        moreover have "\<forall>m \<in> set ((cp_table st @ ?pts) @ ?more). tm_processed m \<le> samples_to_cs (cp_offset st + ?c + 1600)
            \<and> fst (segs ! 0) \<le> tm_original m \<and> tm_original m \<le> upper_time segs (Suc i)"
        proof
          fix m assume "m \<in> set ((cp_table st @ ?pts) @ ?more)"
          then consider "m \<in> set (cp_table st @ ?pts)" | "m \<in> set ?more" by (metis Un_iff set_append)
          then show "tm_processed m \<le> samples_to_cs (cp_offset st + ?c + 1600)
            \<and> fst (segs ! 0) \<le> tm_original m \<and> tm_original m \<le> upper_time segs (Suc i)"
          proof cases
            case 1
            then show ?thesis using bounds later le up(2) by fastforce
          next
            case 2
            then show ?thesis using later le up inner facts(2) by (auto simp: upper_time_def)
          qed
        qed
        moreover have "nat (?total - (cp_offset st + ?c + 1600)) = nat (?total - cp_offset st) - length ?span - 1600"
          using span by linarith
        ultimately show ?thesis
          using off(1-3) step inner span facts(6) rest True unfolding copied_def
          by (auto simp: segment_piece_def nat_add_distrib simp del: set_append)
      qed
      ultimately show ?thesis by blast
    qed
  qed
qed

lemma copy_segments_copied:
  assumes "segments_inside segs (int (length samples))" and "0 \<le> ov"
  shows "\<exists>st. copy_segments ov samples segs (resize (nat (total_samples_needed ov (int (length samples)) segs)) 0 []) = Some st
    \<and> copied ov samples segs (length segs) st"
proof -
  have "i \<le> length segs \<Longrightarrow> \<exists>st. for_range 0 i (\<lambda>i st. do { st \<leftarrow> st; copy_segment ov samples segs i st })
       (Some \<lparr>cp_offset = 0, cp_buffer = resize (nat (total_samples_needed ov (int (length samples)) segs)) 0 [], cp_table = [], cp_infos = []\<rparr>) = Some st
    \<and> copied ov samples segs i st" for i
  proof (induction i)
    case 0
    then show ?case using copied_start by auto
  next
    case (Suc i)
    then obtain st where st: "for_range 0 i (\<lambda>i st. do { st \<leftarrow> st; copy_segment ov samples segs i st })
       (Some \<lparr>cp_offset = 0, cp_buffer = resize (nat (total_samples_needed ov (int (length samples)) segs)) 0 [], cp_table = [], cp_infos = []\<rparr>) = Some st"
      "copied ov samples segs i st" by auto
    then show ?case using copy_segment_copied [OF assms(1) _ assms(2) st(2)] Suc.prems by simp
  qed
  from this [OF order_refl] show ?thesis unfolding copy_segments_def .
qed

text \<open>The speech audio: the segments with silence between them.\<close>

definition speech_audio :: "int \<Rightarrow> real list \<Rightarrow> (int \<times> int) list \<Rightarrow> real list" where
  "speech_audio ov samples segs = concat (map (segment_piece ov samples segs) [0..<length segs])"

definition overlap_of :: "whisper_vad_params \<Rightarrow> int" where
  "overlap_of vad_params = trunc_real (vp_samples_overlap vad_params * real_of_int WHISPER_SAMPLE_RATE)"

lemma overlap_of_nonneg: "0 \<le> vp_samples_overlap vad_params \<Longrightarrow> 0 \<le> overlap_of vad_params"
  by (simp add: overlap_of_def trunc_real_def WHISPER_SAMPLE_RATE_def)

lemma whisper_vad_filters_total:
  assumes vctx: "(case vs_context st of None \<Rightarrow> load whisper_vad_default_context_params | Some v \<Rightarrow> Some v) = Some vctx"
    and segs: "whisper_vad_segments_from_samples compute True zero vctx vad_params samples = (Some segs, vctx')"
    and inside: "segments_inside segs (int (length samples))" and ov: "0 \<le> vp_samples_overlap vad_params"
    and sorts: "sorts_times sort_table" and ne: "segs \<noteq> []"
    and memory: "memory_ok (total_samples_needed (overlap_of vad_params) (int (length samples)) segs)"
  shows "\<exists>st' out. whisper_vad load compute True zero memory_ok sort_table st vad_params samples [] = Some (True, st', out)
    \<and> vs_has_segments st' \<and> strictly_steady (vs_mapping st')
    \<and> (\<forall>m \<in> set (vs_mapping st'). fst (hd segs) \<le> tm_original m \<and> tm_original m \<le> snd (last segs))
    \<and> (\<exists>z. out = speech_audio (overlap_of vad_params) samples segs @ replicate z 0)
    \<and> int (length out) = total_samples_needed (overlap_of vad_params) (int (length samples)) segs"
proof -
  let ?ov = "overlap_of vad_params" and ?n = "int (length samples)"
  let ?total = "total_samples_needed ?ov ?n segs"
  note ov' = overlap_of_nonneg [OF ov]
  obtain copy where copy: "copy_segments ?ov samples segs (resize (nat ?total) 0 []) = Some copy" "copied ?ov samples segs (length segs) copy"
    using copy_segments_copied [OF inside ov'] by blast
  let ?map = "unique_times (sort_table (cp_table copy))"
  let ?st = "st\<lparr>vs_mapping := [], vs_has_segments := False, vs_context := Some vctx', vs_has_segments := True, vs_segments := [],
      vs_segments := cp_infos copy, vs_mapping := ?map\<rparr>"
  have run: "whisper_vad load compute True zero memory_ok sort_table st vad_params samples [] = Some (True, ?st, cp_buffer copy)"
    using vctx segs ne memory copy(1) by (simp add: whisper_vad_def Let_def overlap_of_def)
  note c = copy(2) [unfolded copied_def]
  have table: "sorted_wrt steady (cp_table copy)" using c by blast
  note m = mapping_strictly_steady [OF sorts table]
  have "fst (hd segs) \<le> tm_original m \<and> tm_original m \<le> snd (last segs)" if "m \<in> set ?map" for m
    using that m(2) c ne by (auto simp: upper_time_def hd_conv_nth last_conv_nth)
  moreover have "int (length (cp_buffer copy)) = ?total"
    using c still_needed_nonneg [OF inside ov', of "length segs"] by (auto simp: still_needed_def)
  ultimately show ?thesis
    using run m(1) c by (intro exI [of _ ?st] exI [of _ "cp_buffer copy"]) (auto simp: speech_audio_def)
qed

lemma vad_segments_inside:
  assumes segs: "whisper_vad_segments_from_samples compute True zero vctx vad_params samples = (Some segs, vctx')"
    and "0 \<le> vad_n_window vctx" and "0 \<le> vp_speech_pad_ms vad_params"
    and "\<forall>(s, e) \<in> set segs. cs_to_samples s < n"
  shows "segments_inside segs n"
proof -
  have "vad_n_window vctx' = vad_n_window vctx \<and> segs = whisper_vad_segments_from_probs vctx' vad_params"
    using segs by (auto simp: whisper_vad_segments_from_samples_def whisper_vad_detect_speech_def whisper_vad_reset_state_def
        whisper_vad_detect_speech_no_reset_def Let_def split: prod.splits)
  then show ?thesis
    using segments_ordered [of vctx' vad_params] assms(2-4) by (auto simp: segments_inside_def)
qed

section \<open>Properties\<close>



text \<open>A segment that begins behind the last sample makes the computed size too small.\<close>

lemma vad_buffer_overflow:
  "copy_segments 0 (replicate 640 1) [(0, 3), (4, 5)] (resize (nat (total_samples_needed 0 640 [(0, 3), (4, 5)])) 0 []) = None"
proof -
  have n: "nat (total_samples_needed 0 640 [(0, 3), (4, 5)]) = 2079"
    by (simp add: total_samples_needed_def for_range_def segment_contribution_def cs_to_samples_def trunc_real_def WHISPER_SAMPLE_RATE_def
        silence_samples_eq)
  show ?thesis unfolding n
    by (simp add: copy_segments_def for_range_def copy_segment_def cs_to_samples_def trunc_real_def WHISPER_SAMPLE_RATE_def
        silence_samples_eq write_samples_def Let_def)
qed

text \<open>An instance: two windows of speech in 600 samples.\<close>

definition example_params :: whisper_vad_params where
  "example_params = whisper_vad_default_params\<lparr>vp_min_speech_duration_ms := 0\<rparr>"

lemma example_consts:
  "vad_consts_of example_params 512 = \<lparr>vc_threshold = 1 / 2, vc_neg_threshold = 7 / 20, vc_n_window = 512,
     vc_min_silence_samples = 1600, vc_min_speech_samples = 0, vc_speech_pad_samples = 480,
     vc_max_speech_samples = 1073741823, vc_min_silence_at_max = 1568\<rparr>"
  by (simp add: vad_consts_of_def example_params_def whisper_vad_default_params_def neg_threshold_of_def max_speech_samples_def
      FLT_MAX_def INT_MAX_def tdiv_def WHISPER_SAMPLE_RATE_def Let_def)

lemma example_detect:
  "whisper_vad_segments_from_samples (\<lambda>st x. Some (st, 1)) True () example_vad example_params (replicate 600 1)
     = (Some [(0, 6)], example_vad\<lparr>vad_probs := [1, 1]\<rparr>)"
proof -
  have n: "vad_n_chunks 512 600 = 2" by (simp add: vad_n_chunks_def tdiv_def)
  have "vad_n_window example_vad = 512" "vad_lstm example_vad = ()" "vad_probs example_vad = [1 / 10, 9 / 10, 8 / 10, 1 / 10]"
    by (simp_all add: example_vad_def)
  then have probs: "whisper_vad_detect_speech (\<lambda>st x. Some (st, 1)) True () example_vad (replicate 600 1) = (True, example_vad\<lparr>vad_probs := [1, 1]\<rparr>)"
    by (simp add: whisper_vad_detect_speech_def whisper_vad_reset_state_def whisper_vad_detect_speech_no_reset_def n Let_def
        resize_def upt_rec numeral_2_eq_2)
  have raw: "raw_speeches (vad_consts_of example_params 512) [1, 1] = [(0, 1024)]"
    by (simp add: raw_speeches_def example_consts numeral_2_eq_2 scan_step_def scan_resume_def scan_max_def scan_silence_def
        scan_start_def scan_finish_def Let_def)
  have kept: "kept_speeches (vad_consts_of example_params 512) [1, 1] = [(0, 1024)]"
    unfolding kept_speeches_def raw Let_def
    by (simp add: remove_short.simps [of _ 0] remove_short.simps [of _ "Suc 0"] example_consts)
  have "whisper_vad_segments_from_probs (example_vad\<lparr>vad_probs := [1, 1]\<rparr>) example_params = [(0, 6)]"
    using kept by (simp add: whisper_vad_segments_from_probs_def example_vad_def example_consts pad_speeches_def pad_step_def
        pad_start_def pad_end_def samples_to_cs_def trunc_real_def WHISPER_SAMPLE_RATE_def Let_def)
  then show ?thesis unfolding whisper_vad_segments_from_samples_def probs Let_def by simp
qed

definition example_sort :: "vad_time_mapping list \<Rightarrow> vad_time_mapping list" where
  "example_sort = sort_key tm_processed"

lemma example_sorts: "sorts_times example_sort"
proof -
  have "sorted_wrt (\<lambda>a b. tm_processed a \<le> tm_processed b) (sort_key tm_processed ms)" for ms :: "vad_time_mapping list"
    using sorted_sort_key [of tm_processed ms] by (simp add: sorted_map)
  then show ?thesis by (simp add: sorts_times_def example_sort_def)
qed

definition example_state :: "unit vad_state" where
  "example_state = \<lparr>vs_context = Some example_vad, vs_has_segments = False, vs_segments = [], vs_mapping = []\<rparr>"



end
