(* ===== verification/TokenChoice.thy ===== *)
theory TokenChoice
  imports Complex_Main Prelude VadFilter GrammarTokens "HOL-Library.Option_ord" "HOL-Library.Monad_Syntax"
begin

text \<open>
  The choice of the next token in Whisper/src/whisper.cpp: the logit filters, log-probabilities, the
  timestamp rule and the sampling. A logit is \<open>None\<close> for \<open>-INFINITY\<close>; rounding is not modelled. The
  regular-expression matcher, the logits callback and the random draw are parameters. The theorems:
  a sampled token is never one the filters forbid, and the probabilities are a softmax.
\<close>

section \<open>Vocabulary, sequences and decoders\<close>

type_synonym logit = "real option"

record whisper_vocab =
  vb_n_vocab :: int
  vb_token_to_id :: "(u8 list \<times> int) list"
  vb_id_to_token :: "(int \<times> u8 list) list"
  vb_token_eot :: int
  vb_token_sot :: int
  vb_token_translate :: int
  vb_token_transcribe :: int
  vb_token_solm :: int
  vb_token_prev :: int
  vb_token_nosp :: int
  vb_token_not :: int
  vb_token_beg :: int

record whisper_sequence =
  sq_tokens :: "whisper_token_data list"
  sq_result_len :: int
  sq_sum_logprobs_all :: real
  sq_sum_logprobs :: logit
  sq_avg_logprobs :: logit
  sq_entropy :: real
  sq_score :: logit

record 'r whisper_decoder =
  dc_sequence :: whisper_sequence
  dc_grammar :: whisper_grammar
  dc_i_batch :: nat
  dc_seek_delta :: int
  dc_failed :: bool
  dc_completed :: bool
  dc_has_ts :: bool
  dc_probs :: "real list"
  dc_logits :: "logit list"
  dc_logprobs :: "logit list"
  dc_rng :: 'r

text \<open>The number of languages in \<open>g_lang\<close>.\<close>

definition g_lang_size :: nat where
  "g_lang_size = 100"

definition whisper_token_lang :: "whisper_vocab \<Rightarrow> int \<Rightarrow> int" where
  "whisper_token_lang vocab lang_id = vb_token_sot vocab + 1 + lang_id"

text \<open>The bytes of an ASCII literal.\<close>

definition ascii :: "string \<Rightarrow> u8 list" where
  "ascii s = map (\<lambda>c. of_nat (of_char c)) s"

definition non_speech_tokens :: "u8 list list" where
  "non_speech_tokens =
     map ascii [[CHR 0x22], ''#'', ''('', '')'', ''*'', ''+'', ''/'', '':'', '';'', ''<'', ''='', ''>'', ''@'', ''['', [CHR 0x5C],
       '']'', ''^'', ''_'', [CHR 0x60], ''{'', ''|'', ''}'', ''~'']
     @ [[0xE3, 0x80, 0x8C], [0xE3, 0x80, 0x8D], [0xE3, 0x80, 0x8E], [0xE3, 0x80, 0x8F]]
     @ map ascii [''<<'', ''>>'', ''<<<'', ''>>>'', ''--'', ''---'', ''-('', ''-['', [CHR 0x28, CHR 0x27], [CHR 0x28, CHR 0x22],
       ''(('', ''))'', ''((('', '')))'', ''[['', '']]'', ''{{'', ''}}'']
     @ [[0xE2, 0x99, 0xAA, 0xE2, 0x99, 0xAA], [0xE2, 0x99, 0xAA, 0xE2, 0x99, 0xAA, 0xE2, 0x99, 0xAA],
        [0xE2, 0x99, 0xA9], [0xE2, 0x99, 0xAA], [0xE2, 0x99, 0xAB], [0xE2, 0x99, 0xAC], [0xE2, 0x99, 0xAD], [0xE2, 0x99, 0xAE], [0xE2, 0x99, 0xAF]]"

section \<open>Probabilities\<close>

definition finite_logits :: "logit list \<Rightarrow> real list" where
  "finite_logits logits = map the (filter (\<lambda>l. l \<noteq> None) logits)"

text \<open>The sum runs over the finite entries, shifted by their maximum.\<close>

definition log_sum_exp :: "logit list \<Rightarrow> logit" where
  "log_sum_exp logits =
     (case finite_logits logits of [] \<Rightarrow> None
      | x # xs \<Rightarrow> let logit_max = foldl max x xs
                  in Some (ln (sum_list (map (\<lambda>l. exp (l - logit_max)) (x # xs))) + logit_max))"

definition whisper_compute_logprobs :: "logit list \<Rightarrow> logit list" where
  "whisper_compute_logprobs logits =
     (case log_sum_exp logits of None \<Rightarrow> map (\<lambda>_. None) logits
      | Some logsumexp \<Rightarrow> map (map_option (\<lambda>l. l - logsumexp)) logits)"

definition whisper_compute_probs :: "logit list \<Rightarrow> logit list \<Rightarrow> real list" where
  "whisper_compute_probs logits logprobs =
     map (\<lambda>(l, lp). case l of None \<Rightarrow> 0 | Some _ \<Rightarrow> (case lp of None \<Rightarrow> 0 | Some x \<Rightarrow> exp x)) (zip logits logprobs)"

section \<open>Logit filters\<close>

definition suppress :: "int \<Rightarrow> logit list \<Rightarrow> logit list" where
  "suppress i logits = logits[nat i := None]"

definition suppress_range :: "int \<Rightarrow> int \<Rightarrow> logit list \<Rightarrow> logit list" where
  "suppress_range a b logits = fold suppress (map (\<lambda>k. a + int k) [0..<nat (b - a)]) logits"

definition scale_logits :: "real \<Rightarrow> logit list \<Rightarrow> logit list" where
  "scale_logits temperature logits =
     (if temperature > 0 then map (map_option (\<lambda>l. l / temperature)) logits else logits)"

text \<open>\<open>None\<close> is the exception for a vocabulary without the blank.\<close>

definition suppress_blank :: "whisper_vocab \<Rightarrow> whisper_full_params \<Rightarrow> whisper_token_data list \<Rightarrow> logit list \<Rightarrow> logit list option" where
  "suppress_blank vocab params tokens_cur logits =
     (if fp_suppress_blank params \<and> tokens_cur = []
      then do {
        blank \<leftarrow> map_of (vb_token_to_id vocab) (ascii '' '');
        Some (suppress blank (suppress (vb_token_eot vocab) logits))
      }
      else Some logits)"

definition suppress_special :: "whisper_vocab \<Rightarrow> whisper_full_params \<Rightarrow> whisper_token_data list \<Rightarrow> logit list \<Rightarrow> logit list" where
  "suppress_special vocab params tokens_cur logits =
     (let logits = suppress (vb_token_not vocab) logits;
          logits = (if fp_no_timestamps params then suppress_range (vb_token_beg vocab) (int (length logits)) logits else logits);
          logits = (if \<not> fp_no_timestamps params \<and> \<not> fp_single_segment params \<and> fp_max_tokens params > 0
                       \<and> int (length tokens_cur) \<ge> fp_max_tokens params
                    then suppress_range 0 (vb_token_eot vocab) logits else logits);
          logits = suppress (vb_token_sot vocab) logits;
          logits = suppress (vb_token_nosp vocab) logits;
          logits = (if \<not> fp_tdrz_enable params then suppress (vb_token_solm vocab) logits else logits);
          logits = suppress (vb_token_translate vocab) logits;
          logits = suppress (vb_token_transcribe vocab) logits;
          logits = suppress (vb_token_prev vocab) logits;
          logits = fold suppress (map (\<lambda>i. whisper_token_lang vocab (int i)) [0..<g_lang_size]) logits
      in suppress (vb_token_prev vocab) logits)"

definition suppress_regex :: "(string \<Rightarrow> u8 list \<Rightarrow> bool) \<Rightarrow> whisper_vocab \<Rightarrow> whisper_full_params \<Rightarrow> logit list \<Rightarrow> logit list" where
  "suppress_regex regex_match vocab params logits =
     (case fp_suppress_regex params of None \<Rightarrow> logits
      | Some re \<Rightarrow> fold suppress (map snd (filter (\<lambda>(token, _). regex_match re token) (vb_token_to_id vocab))) logits)"

definition suppress_token :: "whisper_vocab \<Rightarrow> u8 list \<Rightarrow> logit list \<Rightarrow> logit list" where
  "suppress_token vocab token logits =
     (case map_of (vb_token_to_id vocab) token of None \<Rightarrow> logits | Some i \<Rightarrow> suppress i logits)"

definition suppress_non_speech :: "whisper_vocab \<Rightarrow> whisper_full_params \<Rightarrow> logit list \<Rightarrow> logit list" where
  "suppress_non_speech vocab params logits =
     (if fp_suppress_nst params
      then let logits = fold (\<lambda>token logits. suppress_token vocab (ascii '' '' @ token) (suppress_token vocab token logits))
                          non_speech_tokens logits
           in suppress_token vocab (ascii '' '' @ [0x27]) (suppress_token vocab (ascii '' -'') logits)
      else logits)"

text \<open>Timestamps come in pairs, except directly before the end of the text.\<close>

definition suppress_unpaired :: "whisper_vocab \<Rightarrow> whisper_token_data list \<Rightarrow> logit list \<Rightarrow> logit list" where
  "suppress_unpaired vocab tokens_cur logits =
     (let last_was_timestamp = tokens_cur \<noteq> [] \<and> td_id (last tokens_cur) \<ge> vb_token_beg vocab;
          penultimate_was_timestamp =
            length tokens_cur < 2 \<or> td_id (tokens_cur ! (length tokens_cur - 2)) \<ge> vb_token_beg vocab
      in if last_was_timestamp
         then if penultimate_was_timestamp then suppress_range (vb_token_beg vocab) (int (length logits)) logits
              else suppress_range 0 (vb_token_eot vocab) logits
         else logits)"

definition initial_tid :: "int \<Rightarrow> whisper_full_params \<Rightarrow> int" where
  "initial_tid n_audio_ctx params = (let precision = 30 / real_of_int n_audio_ctx in llround (fp_max_initial_ts params / precision))"

definition suppress_late_start :: "whisper_vocab \<Rightarrow> int \<Rightarrow> whisper_full_params \<Rightarrow> whisper_token_data list \<Rightarrow> logit list \<Rightarrow> logit list" where
  "suppress_late_start vocab n_audio_ctx params tokens_cur logits =
     (if tokens_cur = [] \<and> fp_max_initial_ts params > 0
      then suppress_range (vb_token_beg vocab + initial_tid n_audio_ctx params + 1) (int (length logits)) logits else logits)"

definition suppress_past :: "whisper_vocab \<Rightarrow> bool \<Rightarrow> int \<Rightarrow> logit list \<Rightarrow> logit list" where
  "suppress_past vocab has_ts seek_delta logits =
     (if has_ts then suppress_range (vb_token_beg vocab) (vb_token_beg vocab + tdiv seek_delta 2) logits else logits)"

text \<open>The timestamp rule: timestamps that together outweigh every text token force a timestamp; otherwise
  the grammar has its say.\<close>

definition max_logit :: "logit list \<Rightarrow> logit" where
  "max_logit logits = foldl max None logits"

definition penalise_grammar ::
  "nat \<Rightarrow> nat \<Rightarrow> whisper_vocab \<Rightarrow> whisper_full_params \<Rightarrow> whisper_grammar \<Rightarrow> logit list \<Rightarrow> logit list option" where
  "penalise_grammar depth fuel vocab params grammar logits =
     whisper_suppress_invalid_grammar depth fuel
       (\<lambda>i. case map_of (vb_id_to_token vocab) i of None \<Rightarrow> [] | Some t \<Rightarrow> t)
       (vb_token_eot vocab) (fp_grammar_penalty params) logits grammar"

definition timestamp_rule ::
  "nat \<Rightarrow> nat \<Rightarrow> whisper_vocab \<Rightarrow> whisper_full_params \<Rightarrow> whisper_grammar \<Rightarrow> logit list \<times> logit list \<Rightarrow> (logit list \<times> logit list) option" where
  "timestamp_rule depth fuel vocab params grammar = (\<lambda>(logits, logprobs).
     let beg = nat (vb_token_beg vocab);
         timestamp_logprob = log_sum_exp (drop beg logprobs);
         max_text_token_logprob = max_logit (take beg logprobs)
     in if timestamp_logprob > max_text_token_logprob
        then Some (suppress_range 0 (vb_token_beg vocab) logits, suppress_range 0 (vb_token_beg vocab) logprobs)
        else if fp_n_grammar_rules params > 0
        then do {
          logits \<leftarrow> penalise_grammar depth fuel vocab params grammar logits;
          Some (logits, whisper_compute_logprobs logits)
        }
        else Some (logits, logprobs))"

text \<open>\<open>row\<close> is the decoder's row of the logits of the batch.\<close>

definition whisper_process_logits ::
  "nat \<Rightarrow> nat \<Rightarrow> (string \<Rightarrow> u8 list \<Rightarrow> bool) \<Rightarrow> (whisper_token_data list \<Rightarrow> logit list \<Rightarrow> logit list) option
    \<Rightarrow> whisper_vocab \<Rightarrow> int \<Rightarrow> whisper_full_params \<Rightarrow> real \<Rightarrow> logit list \<Rightarrow> 'r whisper_decoder \<Rightarrow> 'r whisper_decoder option" where
  "whisper_process_logits depth fuel regex_match callback vocab n_audio_ctx params temperature row decoder =
     (let tokens_cur = sq_tokens (dc_sequence decoder)
      in do {
        logits \<leftarrow> suppress_blank vocab params tokens_cur (scale_logits temperature row);
        let logits = suppress_special vocab params tokens_cur logits;
        let logits = (case callback of None \<Rightarrow> logits | Some f \<Rightarrow> f tokens_cur logits);
        let logits = suppress_regex regex_match vocab params logits;
        let logits = suppress_non_speech vocab params logits;
        let logits = suppress_unpaired vocab tokens_cur logits;
        let logits = suppress_late_start vocab n_audio_ctx params tokens_cur logits;
        let logits = suppress_past vocab (dc_has_ts decoder) (dc_seek_delta decoder) logits;
        (logits, logprobs) \<leftarrow> timestamp_rule depth fuel vocab params (dc_grammar decoder) (logits, whisper_compute_logprobs logits);
        Some (decoder\<lparr>dc_logits := logits, dc_logprobs := logprobs, dc_probs := whisper_compute_probs logits logprobs\<rparr>)
      })"

section \<open>Sampling\<close>

text \<open>The most probable timestamp: its probability among them, their sum and its id.\<close>

definition timestamp_scan :: "whisper_vocab \<Rightarrow> real list \<Rightarrow> int \<Rightarrow> real \<times> real \<times> int" where
  "timestamp_scan vocab probs tid =
     (let (sum_ts, max_ts, tid) =
            for_range (nat (vb_token_beg vocab)) (length probs)
              (\<lambda>i (sum_ts, max_ts, tid). if max_ts < probs ! i then (sum_ts + probs ! i, probs ! i, int i) else (sum_ts + probs ! i, max_ts, tid))
              (0, 0, tid)
      in (max_ts / (sum_ts + 1 / 10 ^ 10), sum_ts, tid))"

definition logit_value :: "logit \<Rightarrow> real" where
  "logit_value l = (case l of None \<Rightarrow> 0 | Some x \<Rightarrow> x)"

definition best_token :: "whisper_token_data \<Rightarrow> real list \<Rightarrow> logit list \<Rightarrow> whisper_token_data" where
  "best_token result probs logprobs =
     for_range 0 (length probs)
       (\<lambda>i result. if td_p result < probs ! i
                    then result\<lparr>td_id := int i, td_p := probs ! i, td_plog := logit_value (logprobs ! i)\<rparr> else result) result"

definition force_tid :: "whisper_vocab \<Rightarrow> whisper_token_data \<Rightarrow> whisper_token_data" where
  "force_tid vocab result =
     (if td_id result \<ge> vb_token_beg vocab then result\<lparr>td_tid := td_id result, td_pt := td_p result\<rparr> else result)"

text \<open>\<open>draw\<close> is \<open>std::discrete_distribution\<close> on the weights, with the state of the generator.\<close>

definition whisper_sample_token ::
  "(real list \<Rightarrow> 'r \<Rightarrow> nat \<times> 'r) \<Rightarrow> whisper_vocab \<Rightarrow> bool \<Rightarrow> 'r whisper_decoder \<Rightarrow> whisper_token_data \<times> 'r whisper_decoder" where
  "whisper_sample_token draw vocab best decoder =
     (let probs = dc_probs decoder;
          result = \<lparr>td_id = 0, td_tid = 0, td_p = 0, td_plog = 0, td_pt = 0, td_ptsum = 0, td_t0 = - 1, td_t1 = - 1, td_t_dtw = - 1, td_vlen = 0\<rparr>;
          (pt, ptsum, tid) = timestamp_scan vocab probs (td_tid result);
          result = result\<lparr>td_tid := tid, td_pt := pt, td_ptsum := ptsum\<rparr>
      in if best then (force_tid vocab (best_token result probs (dc_logprobs decoder)), decoder)
         else let (i, rng) = draw probs (dc_rng decoder)
              in (force_tid vocab (result\<lparr>td_id := int i, td_p := probs ! i, td_plog := logit_value (dc_logprobs decoder ! i)\<rparr>),
                  decoder\<lparr>dc_rng := rng\<rparr>))"

text \<open>The draws of beam search; the partially sorted logits are not used.\<close>

fun draw_tokens ::
  "(real list \<Rightarrow> 'r \<Rightarrow> nat \<times> 'r) \<Rightarrow> whisper_vocab \<Rightarrow> real \<times> real \<times> int \<Rightarrow> nat \<Rightarrow> 'r whisper_decoder
    \<Rightarrow> whisper_token_data list \<times> 'r whisper_decoder" where
  "draw_tokens draw vocab ts 0 decoder = ([], decoder)"
| "draw_tokens draw vocab (pt, ptsum, tid) (Suc k) decoder =
     (let (i, rng) = draw (dc_probs decoder) (dc_rng decoder);
          result = force_tid vocab \<lparr>td_id = int i, td_tid = tid, td_p = dc_probs decoder ! i,
             td_plog = logit_value (dc_logprobs decoder ! i), td_pt = pt, td_ptsum = ptsum,
             td_t0 = - 1, td_t1 = - 1, td_t_dtw = - 1, td_vlen = 0\<rparr>;
          (results, decoder) = draw_tokens draw vocab (pt, ptsum, tid) k (decoder\<lparr>dc_rng := rng\<rparr>)
      in (result # results, decoder))"

definition whisper_sample_token_topk ::
  "(real list \<Rightarrow> 'r \<Rightarrow> nat \<times> 'r) \<Rightarrow> whisper_vocab \<Rightarrow> nat \<Rightarrow> 'r whisper_decoder \<Rightarrow> whisper_token_data list \<times> 'r whisper_decoder" where
  "whisper_sample_token_topk draw vocab k decoder =
     draw_tokens draw vocab (timestamp_scan vocab (dc_probs decoder) (vb_token_beg vocab)) k decoder"

definition whisper_sequence_tokens_equal :: "whisper_sequence \<Rightarrow> whisper_sequence \<Rightarrow> bool" where
  "whisper_sequence_tokens_equal a b \<longleftrightarrow> map td_id (sq_tokens a) = map td_id (sq_tokens b)"

section \<open>What the filters forbid\<close>

text \<open>A position is masked if its logit is \<open>-INFINITY\<close>; the filters only mask more positions.\<close>

definition masked :: "int \<Rightarrow> logit list \<Rightarrow> bool" where
  "masked i logits \<longleftrightarrow> logits ! nat i = None"

definition only_masks :: "(logit list \<Rightarrow> logit list) \<Rightarrow> bool" where
  "only_masks f \<longleftrightarrow> (\<forall>ls. length (f ls) = length ls \<and> (\<forall>k < length ls. ls ! k = None \<longrightarrow> f ls ! k = None))"

lemma only_masks_id [simp]: "only_masks (\<lambda>ls. ls)"
  by (simp add: only_masks_def)

lemma only_masks_suppress [simp]: "only_masks (suppress i)"
proof -
  have "k < length ls \<Longrightarrow> ls ! k = None \<Longrightarrow> ls[nat i := None] ! k = None" for k and ls :: "logit list"
    by (cases "k = nat i") simp_all
  then show ?thesis by (simp add: only_masks_def suppress_def)
qed

lemma only_masks_comp: "only_masks f \<Longrightarrow> only_masks g \<Longrightarrow> only_masks (\<lambda>ls. f (g ls))"
  by (simp add: only_masks_def)

lemma only_masks_fold: "(\<And>x. only_masks (f x)) \<Longrightarrow> only_masks (fold f xs)"
proof (induction xs)
  case (Cons x xs)
  show ?case using only_masks_comp [OF Cons.IH [OF Cons.prems] Cons.prems [of x]] by (simp add: comp_def)
qed (simp add: only_masks_def id_def)

lemma only_masks_range [simp]: "only_masks (suppress_range a b)"
proof -
  have "only_masks (fold suppress xs)" for xs by (intro only_masks_fold) simp
  then show ?thesis unfolding suppress_range_def by simp
qed

lemma only_masksD: "only_masks f \<Longrightarrow> length (f ls) = length ls" "only_masks f \<Longrightarrow> k < length ls \<Longrightarrow> ls ! k = None \<Longrightarrow> f ls ! k = None"
  by (simp_all add: only_masks_def)

lemma suppress_masks: "i < length ls \<Longrightarrow> suppress (int i) ls ! i = None"
  by (simp add: suppress_def)

lemma fold_suppress_masks: "int i \<in> set xs \<Longrightarrow> i < length ls \<Longrightarrow> fold suppress xs ls ! i = None"
proof (induction xs arbitrary: ls)
  case (Cons x xs)
  have only: "only_masks (fold suppress xs)" by (intro only_masks_fold) simp
  have len: "length (suppress x ls) = length ls" by (simp add: suppress_def)
  show ?case
  proof (cases "x = int i")
    case True
    then show ?thesis using only_masksD(2) [OF only, of i "suppress x ls"] suppress_masks [of i ls] Cons.prems(2) len by simp
  qed (use Cons len in auto)
qed simp

definition range_ids :: "int \<Rightarrow> int \<Rightarrow> int list" where
  "range_ids a b = map (\<lambda>k. a + int k) [0..<nat (b - a)]"

lemma set_range_ids [simp]: "set (range_ids a b) = {a..<b}"
proof
  show "{a..<b} \<subseteq> set (range_ids a b)"
  proof
    fix i assume "i \<in> {a..<b}"
    then have "i = a + int (nat (i - a))" "nat (i - a) < nat (b - a)" by auto
    then show "i \<in> set (range_ids a b)" unfolding range_ids_def set_map by (intro image_eqI [of _ _ "nat (i - a)"]) auto
  qed
qed (auto simp: range_ids_def)

lemma suppress_range_ids: "suppress_range a b = fold suppress (range_ids a b)"
  by (simp add: suppress_range_def range_ids_def fun_eq_iff)

lemma length_suppress [simp]: "length (suppress i ls) = length ls"
  by (simp add: suppress_def)

lemma length_fold_suppress [simp]: "length (fold suppress xs ls) = length ls"
  by (induction xs arbitrary: ls) simp_all

lemma fold_suppress_keeps: "k < length ls \<Longrightarrow> ls ! k = None \<Longrightarrow> fold suppress xs ls ! k = None"
proof -
  have "only_masks (fold suppress xs)" by (intro only_masks_fold) simp
  then show "k < length ls \<Longrightarrow> ls ! k = None \<Longrightarrow> fold suppress xs ls ! k = None" by (rule only_masksD(2))
qed

lemma not_suppressed: "fold suppress xs ls ! i \<noteq> None \<Longrightarrow> i < length ls \<Longrightarrow> int i \<notin> set xs \<and> ls ! i \<noteq> None"
  by (intro conjI notI) (simp_all add: fold_suppress_masks fold_suppress_keeps)

text \<open>Every filter suppresses a list of tokens.\<close>

definition special_ids :: "whisper_vocab \<Rightarrow> whisper_full_params \<Rightarrow> whisper_token_data list \<Rightarrow> nat \<Rightarrow> int list" where
  "special_ids vocab params tokens_cur n =
     [vb_token_not vocab] @ (if fp_no_timestamps params then range_ids (vb_token_beg vocab) (int n) else [])
     @ (if \<not> fp_no_timestamps params \<and> \<not> fp_single_segment params \<and> fp_max_tokens params > 0
           \<and> int (length tokens_cur) \<ge> fp_max_tokens params then range_ids 0 (vb_token_eot vocab) else [])
     @ [vb_token_sot vocab, vb_token_nosp vocab] @ (if \<not> fp_tdrz_enable params then [vb_token_solm vocab] else [])
     @ [vb_token_translate vocab, vb_token_transcribe vocab, vb_token_prev vocab]
     @ map (\<lambda>i. whisper_token_lang vocab (int i)) [0..<g_lang_size] @ [vb_token_prev vocab]"

lemma suppress_special_ids: "suppress_special vocab params tokens_cur ls = fold suppress (special_ids vocab params tokens_cur (length ls)) ls"
  by (simp add: suppress_special_def special_ids_def suppress_range_ids Let_def)

definition late_ids :: "whisper_vocab \<Rightarrow> int \<Rightarrow> whisper_full_params \<Rightarrow> whisper_token_data list \<Rightarrow> bool \<Rightarrow> int \<Rightarrow> nat \<Rightarrow> int list" where
  "late_ids vocab n_audio_ctx params tokens_cur has_ts seek_delta n =
     (let last_was_timestamp = tokens_cur \<noteq> [] \<and> td_id (last tokens_cur) \<ge> vb_token_beg vocab;
          penultimate_was_timestamp =
            length tokens_cur < 2 \<or> td_id (tokens_cur ! (length tokens_cur - 2)) \<ge> vb_token_beg vocab
      in (if last_was_timestamp then if penultimate_was_timestamp then range_ids (vb_token_beg vocab) (int n)
            else range_ids 0 (vb_token_eot vocab) else [])
       @ (if tokens_cur = [] \<and> fp_max_initial_ts params > 0
          then range_ids (vb_token_beg vocab + initial_tid n_audio_ctx params + 1) (int n) else [])
       @ (if has_ts then range_ids (vb_token_beg vocab) (vb_token_beg vocab + tdiv seek_delta 2) else []))"

lemma late_filters_ids:
  "suppress_past vocab has_ts seek_delta (suppress_late_start vocab n_audio_ctx params tokens_cur (suppress_unpaired vocab tokens_cur ls))
     = fold suppress (late_ids vocab n_audio_ctx params tokens_cur has_ts seek_delta (length ls)) ls"
  by (simp add: suppress_past_def suppress_late_start_def suppress_unpaired_def late_ids_def suppress_range_ids Let_def)

lemma only_masks_regex: "only_masks (suppress_regex regex_match vocab params)"
proof -
  have "only_masks (fold suppress xs)" for xs by (intro only_masks_fold) simp
  then show ?thesis by (cases "fp_suppress_regex params") (simp_all add: suppress_regex_def [abs_def])
qed

lemma only_masks_token: "only_masks (suppress_token vocab token)"
  by (cases "map_of (vb_token_to_id vocab) token") (simp_all add: suppress_token_def [abs_def])

lemma only_masks_non_speech: "only_masks (suppress_non_speech vocab params)"
proof (cases "fp_suppress_nst params")
  case True
  have "only_masks (fold (\<lambda>token logits. suppress_token vocab (ascii '' '' @ token) (suppress_token vocab token logits)) non_speech_tokens)"
    by (intro only_masks_fold only_masks_comp [OF only_masks_token only_masks_token])
  from only_masks_comp [OF only_masks_token only_masks_comp [OF only_masks_token this]]
  show ?thesis by (simp add: suppress_non_speech_def [abs_def] True Let_def)
qed (simp add: suppress_non_speech_def [abs_def])

lemma only_masks_grammar:
  "penalise_grammar depth fuel vocab params grammar ls = Some ls' \<Longrightarrow>
     length ls' = length ls \<and> (\<forall>k < length ls. ls ! k = None \<longrightarrow> ls' ! k = None)"
proof -
  have one: "only_masks (\<lambda>l. l[j := map_option f (l ! j)])" for j :: nat and f
  proof -
    have "k < length ls \<Longrightarrow> ls ! k = None \<Longrightarrow> ls[j := map_option f (ls ! j)] ! k = None" for k and ls :: "logit list"
      by (cases "k = j") simp_all
    then show ?thesis by (simp add: only_masks_def)
  qed
  have "only_masks (fold (\<lambda>r l. l[nat (gc_id r) := map_option f (l ! nat (gc_id r))]) rs)" for f rs
    by (intro only_masks_fold one)
  note keeps = this [unfolded only_masks_def, rule_format]
  assume "penalise_grammar depth fuel vocab params grammar ls = Some ls'"
  then have "ls' = ls \<or> (\<exists>rs :: whisper_grammar_candidate list. ls' = fold (\<lambda>r l. l[nat (gc_id r) := map_option (\<lambda>x. x - fp_grammar_penalty params) (l ! nat (gc_id r))]) rs ls)"
    by (auto simp: penalise_grammar_def whisper_suppress_invalid_grammar_def bind_eq_Some_conv split: if_splits)
  then show "length ls' = length ls \<and> (\<forall>k < length ls. ls ! k = None \<longrightarrow> ls' ! k = None)"
    using keeps by auto
qed

text \<open>The forbidden tokens.\<close>

definition forbidden :: "whisper_vocab \<Rightarrow> int \<Rightarrow> whisper_full_params \<Rightarrow> whisper_token_data list \<Rightarrow> bool \<Rightarrow> int \<Rightarrow> int \<Rightarrow> bool" where
  "forbidden vocab n_audio_ctx params tokens_cur has_ts seek_delta i \<longleftrightarrow>
     (let beg = vb_token_beg vocab; eot = vb_token_eot vocab;
          last_ts = (tokens_cur \<noteq> [] \<and> td_id (last tokens_cur) \<ge> beg);
          penultimate_ts = (length tokens_cur < 2 \<or> td_id (tokens_cur ! (length tokens_cur - 2)) \<ge> beg)
      in i \<in> {vb_token_sot vocab, vb_token_not vocab, vb_token_nosp vocab, vb_token_translate vocab, vb_token_transcribe vocab, vb_token_prev vocab}
       \<or> (vb_token_sot vocab < i \<and> i \<le> vb_token_sot vocab + 100)
       \<or> (\<not> fp_tdrz_enable params \<and> i = vb_token_solm vocab)
       \<or> (fp_no_timestamps params \<and> beg \<le> i)
       \<or> (\<not> fp_no_timestamps params \<and> \<not> fp_single_segment params \<and> 0 < fp_max_tokens params
            \<and> fp_max_tokens params \<le> int (length tokens_cur) \<and> 0 \<le> i \<and> i < eot)
       \<or> (fp_suppress_blank params \<and> tokens_cur = [] \<and> (i = eot \<or> map_of (vb_token_to_id vocab) (ascii '' '') = Some i))
       \<or> (last_ts \<and> penultimate_ts \<and> beg \<le> i) \<or> (last_ts \<and> \<not> penultimate_ts \<and> 0 \<le> i \<and> i < eot)
       \<or> (tokens_cur = [] \<and> 0 < fp_max_initial_ts params \<and> beg + initial_tid n_audio_ctx params < i)
       \<or> (has_ts \<and> beg \<le> i \<and> i < beg + tdiv seek_delta 2))"

lemma in_set_if: "i \<in> set (if b then xs else ys) \<longleftrightarrow> (b \<and> i \<in> set xs) \<or> (\<not> b \<and> i \<in> set ys)"
  by simp

lemma language_ids: "i \<in> set (map (\<lambda>l. whisper_token_lang vocab (int l)) [0..<g_lang_size]) \<longleftrightarrow> vb_token_sot vocab < i \<and> i \<le> vb_token_sot vocab + 100"
proof
  assume r: "vb_token_sot vocab < i \<and> i \<le> vb_token_sot vocab + 100"
  then have "i = whisper_token_lang vocab (int (nat (i - vb_token_sot vocab - 1)))" "nat (i - vb_token_sot vocab - 1) < g_lang_size"
    by (auto simp: whisper_token_lang_def g_lang_size_def)
  then show "i \<in> set (map (\<lambda>l. whisper_token_lang vocab (int l)) [0..<g_lang_size])"
    unfolding set_map by (intro image_eqI [of _ _ "nat (i - vb_token_sot vocab - 1)"]) auto
qed (auto simp: whisper_token_lang_def g_lang_size_def)

lemma forbidden_ids:
  assumes "i < n"
  shows "forbidden vocab n_audio_ctx params toks has_ts seek_delta (int i) \<longleftrightarrow>
    int i \<in> set (special_ids vocab params toks n) \<or> int i \<in> set (late_ids vocab n_audio_ctx params toks has_ts seek_delta n)
    \<or> fp_suppress_blank params \<and> toks = [] \<and> (int i = vb_token_eot vocab \<or> map_of (vb_token_to_id vocab) (ascii '' '') = Some (int i))"
proof -
  have int: "0 \<le> int i" "int i < int n" using assms by simp_all
  have late: "vb_token_beg vocab + initial_tid n_audio_ctx params + 1 \<le> int i \<longleftrightarrow> vb_token_beg vocab + initial_tid n_audio_ctx params < int i"
    by linarith
  show ?thesis
    unfolding forbidden_def special_ids_def late_ids_def Let_def set_append Un_iff in_set_if set_range_ids atLeastLessThan_iff language_ids late
    using int by (simp only: list.set insert_iff empty_iff) argo
qed

text \<open>The probabilities of a decoder are computed from its logits.\<close>

lemma logprobs_masked: "length (whisper_compute_logprobs ls) = length ls"
  "k < length ls \<Longrightarrow> ls ! k = None \<Longrightarrow> whisper_compute_logprobs ls ! k = None"
  by (simp_all add: whisper_compute_logprobs_def split: option.splits)

lemma probs_masked:
  "length logprobs = length logits \<Longrightarrow> length (whisper_compute_probs logits logprobs) = length logits"
  "length logprobs = length logits \<Longrightarrow> k < length logits \<Longrightarrow> logits ! k = None \<Longrightarrow> whisper_compute_probs logits logprobs ! k = 0"
  by (simp_all add: whisper_compute_probs_def)

lemma timestamp_rule_keeps:
  assumes "timestamp_rule depth fuel vocab params grammar (ls, lps) = Some (ls', lps')" and "length lps = length ls"
  shows "length ls' = length ls" "length lps' = length ls" "k < length ls \<Longrightarrow> ls ! k = None \<Longrightarrow> ls' ! k = None"
proof -
  consider (forced) "ls' = suppress_range 0 (vb_token_beg vocab) ls" "lps' = suppress_range 0 (vb_token_beg vocab) lps"
    | (grammar) "penalise_grammar depth fuel vocab params grammar ls = Some ls'" "lps' = whisper_compute_logprobs ls'"
    | (same) "ls' = ls" "lps' = lps"
    using assms(1) by (auto simp: timestamp_rule_def Let_def bind_eq_Some_conv split: if_splits)
  then have "length ls' = length ls \<and> length lps' = length ls \<and> (k < length ls \<longrightarrow> ls ! k = None \<longrightarrow> ls' ! k = None)"
  proof cases
    case forced
    then show ?thesis using assms(2) by (simp add: suppress_range_ids fold_suppress_keeps)
  next
    case grammar
    then show ?thesis using only_masks_grammar [OF grammar(1)] by (simp add: logprobs_masked)
  qed (use assms(2) in simp)
  then show "length ls' = length ls" "length lps' = length ls" "k < length ls \<Longrightarrow> ls ! k = None \<Longrightarrow> ls' ! k = None"
    by simp_all
qed

text \<open>A callback may change logits, but must leave suppressed tokens suppressed.\<close>

definition callback_masks :: "(whisper_token_data list \<Rightarrow> logit list \<Rightarrow> logit list) option \<Rightarrow> bool" where
  "callback_masks callback \<longleftrightarrow> (\<forall>f. callback = Some f \<longrightarrow> (\<forall>toks. only_masks (f toks)))"

lemma process_logits_stages:
  assumes "whisper_process_logits depth fuel regex_match callback vocab n_audio_ctx params temperature row decoder = Some decoder'"
    and "callback_masks callback"
  obtains blank mid logits logprobs where
    "suppress_blank vocab params (sq_tokens (dc_sequence decoder)) (scale_logits temperature row) = Some blank"
    "length mid = length blank"
    "\<And>k. k < length blank \<Longrightarrow> fold suppress (special_ids vocab params (sq_tokens (dc_sequence decoder)) (length blank)) blank ! k = None \<Longrightarrow> mid ! k = None"
    "timestamp_rule depth fuel vocab params (dc_grammar decoder)
       (fold suppress (late_ids vocab n_audio_ctx params (sq_tokens (dc_sequence decoder)) (dc_has_ts decoder) (dc_seek_delta decoder) (length mid)) mid,
        whisper_compute_logprobs (fold suppress (late_ids vocab n_audio_ctx params (sq_tokens (dc_sequence decoder)) (dc_has_ts decoder) (dc_seek_delta decoder) (length mid)) mid))
       = Some (logits, logprobs)"
    "decoder' = decoder\<lparr>dc_logits := logits, dc_logprobs := logprobs, dc_probs := whisper_compute_probs logits logprobs\<rparr>"
proof -
  let ?toks = "sq_tokens (dc_sequence decoder)"
  let ?cb = "\<lambda>ls. case callback of None \<Rightarrow> ls | Some f \<Rightarrow> f ?toks ls"
  let ?mid = "\<lambda>ls. suppress_non_speech vocab params (suppress_regex regex_match vocab params (?cb ls))"
  have cb: "only_masks ?cb" using assms(2) by (cases callback) (simp_all add: callback_masks_def)
  note mid = only_masks_comp [OF only_masks_non_speech only_masks_comp [OF only_masks_regex cb]]
  from assms(1) obtain blank logits logprobs where
    blank: "suppress_blank vocab params ?toks (scale_logits temperature row) = Some blank"
    and rule: "timestamp_rule depth fuel vocab params (dc_grammar decoder)
       (suppress_past vocab (dc_has_ts decoder) (dc_seek_delta decoder) (suppress_late_start vocab n_audio_ctx params ?toks
          (suppress_unpaired vocab ?toks (?mid (suppress_special vocab params ?toks blank)))),
        whisper_compute_logprobs (suppress_past vocab (dc_has_ts decoder) (dc_seek_delta decoder) (suppress_late_start vocab n_audio_ctx params ?toks
          (suppress_unpaired vocab ?toks (?mid (suppress_special vocab params ?toks blank)))))) = Some (logits, logprobs)"
    and dec: "decoder' = decoder\<lparr>dc_logits := logits, dc_logprobs := logprobs, dc_probs := whisper_compute_probs logits logprobs\<rparr>"
    unfolding whisper_process_logits_def Let_def bind_eq_Some_conv case_prod_unfold by auto
  show thesis
    using that [OF blank, of "?mid (suppress_special vocab params ?toks blank)" logits logprobs] rule dec only_masksD [OF mid]
    unfolding late_filters_ids suppress_special_ids by simp
qed

lemma scale_logits_length: "length (scale_logits temperature row) = length row"
  by (simp add: scale_logits_def)

lemma process_logits_allowed:
  assumes run: "whisper_process_logits depth fuel regex_match callback vocab n_audio_ctx params temperature row decoder = Some decoder'"
    and cb: "callback_masks callback" and i: "i < length row" and pos: "dc_probs decoder' ! i > 0"
  shows "\<not> forbidden vocab n_audio_ctx params (sq_tokens (dc_sequence decoder)) (dc_has_ts decoder) (dc_seek_delta decoder) (int i)"
proof -
  let ?toks = "sq_tokens (dc_sequence decoder)"
  obtain blank mid logits logprobs where st:
    "suppress_blank vocab params ?toks (scale_logits temperature row) = Some blank"
    "length mid = length blank"
    "\<And>k. k < length blank \<Longrightarrow> fold suppress (special_ids vocab params ?toks (length blank)) blank ! k = None \<Longrightarrow> mid ! k = None"
    "timestamp_rule depth fuel vocab params (dc_grammar decoder)
       (fold suppress (late_ids vocab n_audio_ctx params ?toks (dc_has_ts decoder) (dc_seek_delta decoder) (length mid)) mid,
        whisper_compute_logprobs (fold suppress (late_ids vocab n_audio_ctx params ?toks (dc_has_ts decoder) (dc_seek_delta decoder) (length mid)) mid))
       = Some (logits, logprobs)"
    "decoder' = decoder\<lparr>dc_logits := logits, dc_logprobs := logprobs, dc_probs := whisper_compute_probs logits logprobs\<rparr>"
    by (rule process_logits_stages [OF run cb], rule that, assumption+)
  let ?late = "fold suppress (late_ids vocab n_audio_ctx params ?toks (dc_has_ts decoder) (dc_seek_delta decoder) (length mid)) mid"
  have n: "length blank = length row"
    using st(1) by (auto simp: suppress_blank_def scale_logits_length bind_eq_Some_conv split: if_splits)
  note keep = timestamp_rule_keeps [OF st(4)]
  have len: "length ?late = length row" by (simp add: st(2) n)
  have "logits ! i \<noteq> None"
    using pos probs_masked(2) [of logprobs logits i] keep(1,2) i len by (auto simp: st(5) logprobs_masked)
  have "?late ! i \<noteq> None"
  proof
    assume "?late ! i = None"
    then have "logits ! i = None" using keep(3) [of i] i len by (simp add: logprobs_masked)
    with \<open>logits ! i \<noteq> None\<close> show False ..
  qed
  then have late: "int i \<notin> set (late_ids vocab n_audio_ctx params ?toks (dc_has_ts decoder) (dc_seek_delta decoder) (length row))"
    and "mid ! i \<noteq> None"
    using not_suppressed [of _ mid i] i n st(2) by simp_all
  have "fold suppress (special_ids vocab params ?toks (length blank)) blank ! i \<noteq> None"
  proof
    assume "fold suppress (special_ids vocab params ?toks (length blank)) blank ! i = None"
    then have "mid ! i = None" using st(3) i n by simp
    with \<open>mid ! i \<noteq> None\<close> show False ..
  qed
  then have special: "int i \<notin> set (special_ids vocab params ?toks (length row))" and "blank ! i \<noteq> None"
    using not_suppressed [of _ blank i] i n by simp_all
  then have "\<not> (fp_suppress_blank params \<and> ?toks = [] \<and> (int i = vb_token_eot vocab \<or> map_of (vb_token_to_id vocab) (ascii '' '') = Some (int i)))"
  proof (intro notI, elim conjE)
    assume b: "blank ! i \<noteq> None" "fp_suppress_blank params" "?toks = []"
      "int i = vb_token_eot vocab \<or> map_of (vb_token_to_id vocab) (ascii '' '') = Some (int i)"
    then obtain bl where bl: "map_of (vb_token_to_id vocab) (ascii '' '') = Some bl"
      "blank = fold suppress [vb_token_eot vocab, bl] (scale_logits temperature row)"
      using st(1) by (auto simp: suppress_blank_def bind_eq_Some_conv)
    then have "int i \<notin> set [vb_token_eot vocab, bl]"
      using not_suppressed [of "[vb_token_eot vocab, bl]" "scale_logits temperature row" i] b(1) i by (simp add: scale_logits_length)
    then show False using b(4) bl(1) by auto
  qed
  with late special show ?thesis unfolding forbidden_ids [OF i] by blast
qed

section \<open>Sampled tokens\<close>

lemma best_token_correct:
  assumes "td_p r = 0" and "\<exists>i < length probs. 0 < probs ! i"
  shows "\<exists>i < length probs. td_id (best_token r probs logprobs) = int i \<and> 0 < probs ! i \<and> (\<forall>k < length probs. probs ! k \<le> probs ! i)"
proof -
  let ?step = "\<lambda>i result. if td_p result < probs ! i
                    then result\<lparr>td_id := int i, td_p := probs ! i, td_plog := logit_value (logprobs ! i)\<rparr> else result"
  have "(td_p (for_range 0 j ?step r) = 0 \<and> (\<forall>k < j. probs ! k \<le> 0))
    \<or> (\<exists>i < j. td_id (for_range 0 j ?step r) = int i \<and> td_p (for_range 0 j ?step r) = probs ! i \<and> 0 < probs ! i \<and> (\<forall>k < j. probs ! k \<le> probs ! i))" for j
  proof (induction j)
    case 0
    then show ?case using assms(1) by simp
  next
    case (Suc j)
    show ?case
    proof (cases "td_p (for_range 0 j ?step r) < probs ! j")
      case True
      then have "\<forall>k < Suc j. probs ! k \<le> probs ! j" "0 < probs ! j"
        using Suc by (auto simp: less_Suc_eq dest: order_le_less_trans)
      then show ?thesis using True by (intro disjI2 exI [of _ j]) simp
    next
      case False
      then show ?thesis using Suc by (auto simp: less_Suc_eq)
    qed
  qed
  from this [of "length probs"] assms(2) show ?thesis
    unfolding best_token_def by (elim disjE exE conjE) (meson not_le, blast)
qed

lemma force_tid_id [simp]: "td_id (force_tid vocab r) = td_id r"
  by (simp add: force_tid_def)

text \<open>What \<open>std::discrete_distribution\<close> guarantees.\<close>

definition draws_positive :: "(real list \<Rightarrow> 'r \<Rightarrow> nat \<times> 'r) \<Rightarrow> bool" where
  "draws_positive draw \<longleftrightarrow> (\<forall>ps r. (\<forall>p \<in> set ps. 0 \<le> p) \<longrightarrow> (\<exists>p \<in> set ps. 0 < p)
     \<longrightarrow> fst (draw ps r) < length ps \<and> 0 < ps ! fst (draw ps r))"

lemma sample_token_positive:
  assumes "draws_positive draw" and "\<forall>p \<in> set (dc_probs d). 0 \<le> p" and "\<exists>p \<in> set (dc_probs d). 0 < p"
  shows "\<exists>i < length (dc_probs d). td_id (fst (whisper_sample_token draw vocab best d)) = int i \<and> 0 < dc_probs d ! i
    \<and> (best \<longrightarrow> (\<forall>k < length (dc_probs d). dc_probs d ! k \<le> dc_probs d ! i))"
proof (cases best)
  case True
  have "\<exists>i < length (dc_probs d). 0 < dc_probs d ! i" using assms(3) by (auto simp: in_set_conv_nth)
  from best_token_correct [OF _ this] show ?thesis using True
    by (simp add: whisper_sample_token_def case_prod_unfold Let_def)
next
  case False
  have "fst (draw (dc_probs d) (dc_rng d)) < length (dc_probs d)" "0 < dc_probs d ! fst (draw (dc_probs d) (dc_rng d))"
    using assms unfolding draws_positive_def by blast+
  then show ?thesis using False by (auto simp: whisper_sample_token_def case_prod_unfold Let_def)
qed

lemma draw_tokens_positive:
  assumes "draws_positive draw"
  shows "\<forall>p \<in> set (dc_probs d). 0 \<le> p \<Longrightarrow> \<exists>p \<in> set (dc_probs d). 0 < p \<Longrightarrow>
    length (fst (draw_tokens draw vocab ts k d)) = k \<and>
    (\<forall>t \<in> set (fst (draw_tokens draw vocab ts k d)). \<exists>i < length (dc_probs d). td_id t = int i \<and> 0 < dc_probs d ! i)"
proof (induction k arbitrary: d)
  case 0
  then show ?case by (cases ts) simp
next
  case (Suc k)
  obtain pt ptsum tid where ts: "ts = (pt, ptsum, tid)" by (cases ts)
  obtain i rng where i: "draw (dc_probs d) (dc_rng d) = (i, rng)" by fastforce
  have "i < length (dc_probs d) \<and> 0 < dc_probs d ! i"
    using assms [unfolded draws_positive_def, rule_format, of "dc_probs d" "dc_rng d"] Suc.prems i by simp
  moreover have "length (fst (draw_tokens draw vocab ts k (d\<lparr>dc_rng := rng\<rparr>))) = k"
    "\<forall>t \<in> set (fst (draw_tokens draw vocab ts k (d\<lparr>dc_rng := rng\<rparr>))). \<exists>i < length (dc_probs d). td_id t = int i \<and> 0 < dc_probs d ! i"
    using Suc.IH [of "d\<lparr>dc_rng := rng\<rparr>"] Suc.prems by simp_all
  ultimately show ?case using ts i by (auto simp: case_prod_unfold Let_def)
qed

section \<open>Softmax\<close>

definition weight :: "logit \<Rightarrow> real" where
  "weight l = (case l of None \<Rightarrow> 0 | Some x \<Rightarrow> exp x)"

lemma weight_simps [simp]: "weight None = 0" "weight (Some x) = exp x"
  by (simp_all add: weight_def)

lemma weight_nonneg: "0 \<le> weight l"
  by (cases l) simp_all

lemma sum_weights: "sum_list (map weight ls) = sum_list (map exp (finite_logits ls))"
  by (induction ls) (auto simp: finite_logits_def weight_def split: option.splits)

lemma log_sum_exp_eq:
  "log_sum_exp ls = (if finite_logits ls = [] then None else Some (ln (sum_list (map weight ls))))"
proof (cases "finite_logits ls")
  case (Cons x xs)
  let ?m = "foldl max x xs"
  have "sum_list (map (\<lambda>l. exp (l - ?m)) (x # xs)) = sum_list (map exp (x # xs)) / exp ?m"
    using sum_list_const_mult [of "1 / exp ?m" "exp" "x # xs"] by (simp add: exp_diff)
  moreover have "0 < sum_list (map exp (x # xs))"
    by (auto intro!: add_pos_nonneg sum_list_nonneg)
  ultimately have "ln (sum_list (map (\<lambda>l. exp (l - ?m)) (x # xs))) + ?m = ln (sum_list (map exp (x # xs)))"
    by (simp add: ln_div del: sum_list.Cons list.map)
  then show ?thesis using Cons by (simp add: log_sum_exp_def sum_weights Let_def)
qed (simp add: log_sum_exp_def)

lemma sum_weights_nonneg: "0 \<le> sum_list (map weight ls)"
  by (induction ls) (simp_all add: weight_nonneg)

lemma weight_le_sum: "l \<in> set ls \<Longrightarrow> weight l \<le> sum_list (map weight ls)"
  using member_le_sum_list [of "weight l" "map weight ls"] weight_nonneg by auto

lemma sum_weights_pos: "sum_list (map weight ls) > 0 \<longleftrightarrow> (\<exists>l \<in> set ls. l \<noteq> None)"
proof
  show "\<exists>l \<in> set ls. l \<noteq> None" if "sum_list (map weight ls) > 0"
    using that by (induction ls) (auto simp: weight_def split: option.splits)
  show "sum_list (map weight ls) > 0" if "\<exists>l \<in> set ls. l \<noteq> None"
    using that weight_le_sum by (metis exp_gt_zero not_None_eq order_less_le_trans weight_simps(2))
qed

lemma finite_logits_empty: "finite_logits ls = [] \<longleftrightarrow> \<not> (\<exists>l \<in> set ls. l \<noteq> None)"
  by (auto simp: finite_logits_def filter_empty_conv)

lemma weights_of_logprobs:
  assumes "l \<in> set ls" and "l \<noteq> None"
  shows "map weight (whisper_compute_logprobs ls) = map (\<lambda>l. weight l / sum_list (map weight ls)) ls"
proof -
  have pos: "0 < sum_list (map weight ls)" using assms sum_weights_pos by blast
  have "\<not> finite_logits ls = []" using assms finite_logits_empty by blast
  then have "log_sum_exp ls = Some (ln (sum_list (map weight ls)))" by (simp add: log_sum_exp_eq)
  then show ?thesis using pos by (auto simp: whisper_compute_logprobs_def weight_def exp_diff split: option.splits)
qed

lemma sum_list_divided: "sum_list (map (\<lambda>x. f x / c) xs) = sum_list (map f xs) / (c :: real)"
  by (induction xs) (simp_all add: add_divide_distrib)

lemma sum_of_logprobs: "(\<exists>l \<in> set ls. l \<noteq> None) \<Longrightarrow> sum_list (map weight (whisper_compute_logprobs ls)) = 1"
  using weights_of_logprobs [of _ ls] sum_weights_pos [of ls] by (auto simp: sum_list_divided)

lemma logprobs_finite: "k < length ls \<Longrightarrow> whisper_compute_logprobs ls ! k \<noteq> None \<longleftrightarrow> ls ! k \<noteq> None"
  using finite_logits_empty [of ls] nth_mem [of k ls] by (auto simp: whisper_compute_logprobs_def log_sum_exp_eq split: option.splits)

lemma probs_weights:
  "length logprobs = length logits \<Longrightarrow> (\<And>k. k < length logits \<Longrightarrow> logits ! k = None \<Longrightarrow> logprobs ! k = None)
     \<Longrightarrow> whisper_compute_probs logits logprobs = map weight logprobs"
  by (rule nth_equalityI) (auto simp: whisper_compute_probs_def weight_def split: option.splits)

lemma max_logit_max: "(\<forall>l \<in> set ls. l \<le> max_logit ls) \<and> (max_logit ls = None \<or> max_logit ls \<in> set ls)"
proof -
  have "(\<forall>l \<in> insert m (set ls). l \<le> foldl max m ls) \<and> foldl max m ls \<in> insert m (set ls)" for m :: logit
  proof (induction ls arbitrary: m)
    case (Cons l ls)
    from Cons [of "max m l"] show ?case by (auto simp: max_def split: if_splits)
  qed simp
  from this [of None] show ?thesis by (auto simp: max_logit_def)
qed

text \<open>The rule compares the timestamps' total with every text token.\<close>

lemma timestamp_rule_cases:
  assumes "timestamp_rule depth fuel vocab params grammar (ls, lps) = Some (ls', lps')" and "0 < nat (vb_token_beg vocab)"
    and "nat (vb_token_beg vocab) \<le> length lps"
  obtains (forced) "ls' = suppress_range 0 (vb_token_beg vocab) ls" "lps' = suppress_range 0 (vb_token_beg vocab) lps"
  | (grammar) "fp_n_grammar_rules params > 0" "penalise_grammar depth fuel vocab params grammar ls = Some ls'" "lps' = whisper_compute_logprobs ls'"
  | (same) j where "ls' = ls" "lps' = lps" "j < nat (vb_token_beg vocab)"
      "sum_list (map weight (drop (nat (vb_token_beg vocab)) lps)) \<le> weight (lps ! j)"
proof -
  let ?beg = "nat (vb_token_beg vocab)"
  let ?ts = "drop ?beg lps" and ?text = "take ?beg lps"
  show thesis
  proof (cases "log_sum_exp ?ts > max_logit ?text")
    case True
    then show thesis using assms(1) forced by (simp add: timestamp_rule_def Let_def)
  next
    case False
    note le = this
    show thesis
    proof (cases "fp_n_grammar_rules params > 0")
      case True
      then show thesis using assms(1) grammar le by (auto simp: timestamp_rule_def Let_def bind_eq_Some_conv)
    next
      case no: False
      then have same': "ls' = ls" "lps' = lps" using assms(1) le by (simp_all add: timestamp_rule_def Let_def)
      show thesis
      proof (cases "finite_logits ?ts = []")
        case True
        then have "sum_list (map weight ?ts) = 0"
          using finite_logits_empty [of ?ts] sum_weights_pos [of ?ts] sum_weights_nonneg [of ?ts] by auto
        then show thesis using same [OF same', of 0] assms(2) weight_nonneg by simp
      next
        case False
        then have pos: "0 < sum_list (map weight ?ts)" using finite_logits_empty [of ?ts] sum_weights_pos [of ?ts] by blast
        have "Some (ln (sum_list (map weight ?ts))) \<le> max_logit ?text" using le False by (simp add: log_sum_exp_eq)
        then obtain m where m: "max_logit ?text = Some m" "ln (sum_list (map weight ?ts)) \<le> m" by (cases "max_logit ?text") auto
        then have "Some m \<in> set ?text" using max_logit_max [of ?text] by auto
        then obtain j where j: "j < ?beg" "lps ! j = Some m" using assms(3) by (auto simp: in_set_conv_nth)
        have "sum_list (map weight ?ts) \<le> exp m" using m(2) pos by (metis exp_le_cancel_iff exp_ln)
        then show thesis using same [OF same' j(1)] j(2) by simp
      qed
    qed
  qed
qed

lemma fold_suppress_nth:
  "\<forall>x \<in> set xs. 0 \<le> x \<Longrightarrow> k < length ls \<Longrightarrow> fold suppress xs ls ! k = (if int k \<in> set xs then None else ls ! k)"
proof (induction xs arbitrary: ls)
  case (Cons x xs)
  have "suppress x ls ! k = (if int k = x then None else ls ! k)"
    using Cons.prems by (auto simp: suppress_def nth_list_update)
  then show ?case using Cons.IH [of "suppress x ls"] Cons.prems by auto
qed simp

lemma suppress_front:
  assumes "nat b \<le> length ls"
  shows "suppress_range 0 b ls = replicate (nat b) None @ drop (nat b) ls"
proof (rule nth_equalityI)
  show "length (suppress_range 0 b ls) = length (replicate (nat b) None @ drop (nat b) ls)"
    using assms by (simp add: suppress_range_ids)
next
  fix k assume "k < length (suppress_range 0 b ls)"
  then have k: "k < length ls" by (simp add: suppress_range_ids)
  have nonneg: "\<forall>x \<in> set (range_ids 0 b). 0 \<le> x" by simp
  show "suppress_range 0 b ls ! k = (replicate (nat b) None @ drop (nat b) ls) ! k"
    unfolding suppress_range_ids fold_suppress_nth [OF nonneg k]
    using k assms by (cases "k < nat b") (auto simp: nth_append)
qed

lemma process_logits_length:
  assumes "whisper_process_logits depth fuel regex_match callback vocab n_audio_ctx params temperature row decoder = Some decoder'"
    and "callback_masks callback"
  shows "length (dc_probs decoder') = length row" "length (dc_logits decoder') = length row" "\<forall>p \<in> set (dc_probs decoder'). 0 \<le> p"
proof -
  let ?toks = "sq_tokens (dc_sequence decoder)"
  obtain blank mid logits logprobs where st:
    "suppress_blank vocab params ?toks (scale_logits temperature row) = Some blank" "length mid = length blank"
    "timestamp_rule depth fuel vocab params (dc_grammar decoder)
       (fold suppress (late_ids vocab n_audio_ctx params ?toks (dc_has_ts decoder) (dc_seek_delta decoder) (length mid)) mid,
        whisper_compute_logprobs (fold suppress (late_ids vocab n_audio_ctx params ?toks (dc_has_ts decoder) (dc_seek_delta decoder) (length mid)) mid))
       = Some (logits, logprobs)"
    "decoder' = decoder\<lparr>dc_logits := logits, dc_logprobs := logprobs, dc_probs := whisper_compute_probs logits logprobs\<rparr>"
    by (rule process_logits_stages [OF assms], rule that, assumption+)
  have "length blank = length row"
    using st(1) by (auto simp: suppress_blank_def scale_logits_length bind_eq_Some_conv split: if_splits)
  then have "length logits = length row" "length logprobs = length row"
    using timestamp_rule_keeps(1,2) [OF st(3)] st(2) by (simp_all add: logprobs_masked)
  then show "length (dc_probs decoder') = length row" "length (dc_logits decoder') = length row" by (simp_all add: st(4) probs_masked)
  show "\<forall>p \<in> set (dc_probs decoder'). 0 \<le> p"
    by (auto simp: st(4) whisper_compute_probs_def split: option.splits)
qed

lemma softmax_total:
  assumes run: "whisper_process_logits depth fuel regex_match callback vocab n_audio_ctx params temperature row decoder = Some decoder'"
    and cb: "callback_masks callback" and beg: "0 < nat (vb_token_beg vocab)" "nat (vb_token_beg vocab) \<le> length row"
    and fin: "\<exists>l \<in> set (dc_logits decoder'). l \<noteq> None"
  shows "sum_list (dc_probs decoder') \<le> 1"
    and "\<exists>i < nat (vb_token_beg vocab). 0 < dc_probs decoder' ! i \<Longrightarrow> sum_list (dc_probs decoder') = 1"
    and "fp_n_grammar_rules params = 0 \<Longrightarrow> (\<forall>i < nat (vb_token_beg vocab). dc_probs decoder' ! i = 0)
        \<or> (\<exists>j < nat (vb_token_beg vocab). sum_list (drop (nat (vb_token_beg vocab)) (dc_probs decoder')) \<le> dc_probs decoder' ! j)"
proof -
  let ?toks = "sq_tokens (dc_sequence decoder)" and ?beg = "nat (vb_token_beg vocab)"
  obtain blank mid logits logprobs where st:
    "suppress_blank vocab params ?toks (scale_logits temperature row) = Some blank" "length mid = length blank"
    "timestamp_rule depth fuel vocab params (dc_grammar decoder)
       (fold suppress (late_ids vocab n_audio_ctx params ?toks (dc_has_ts decoder) (dc_seek_delta decoder) (length mid)) mid,
        whisper_compute_logprobs (fold suppress (late_ids vocab n_audio_ctx params ?toks (dc_has_ts decoder) (dc_seek_delta decoder) (length mid)) mid))
       = Some (logits, logprobs)"
    "decoder' = decoder\<lparr>dc_logits := logits, dc_logprobs := logprobs, dc_probs := whisper_compute_probs logits logprobs\<rparr>"
    by (rule process_logits_stages [OF run cb], rule that, assumption+)
  define ls where "ls = fold suppress (late_ids vocab n_audio_ctx params ?toks (dc_has_ts decoder) (dc_seek_delta decoder) (length mid)) mid"
  have n: "length ls = length row"
    using st(1,2) by (auto simp: ls_def suppress_blank_def scale_logits_length bind_eq_Some_conv split: if_splits)
  have rule: "timestamp_rule depth fuel vocab params (dc_grammar decoder) (ls, whisper_compute_logprobs ls) = Some (logits, logprobs)"
    using st(3) by (simp add: ls_def)
  have finite: "\<exists>l \<in> set logits. l \<noteq> None" using fin by (simp add: st(4))
  have probs: "dc_probs decoder' = whisper_compute_probs logits logprobs" by (simp add: st(4))
  have len: "?beg \<le> length (whisper_compute_logprobs ls)" using beg(2) by (simp add: logprobs_masked n)
  have all: "sum_list (dc_probs decoder') \<le> 1 \<and> ((\<exists>i < ?beg. 0 < dc_probs decoder' ! i) \<longrightarrow> sum_list (dc_probs decoder') = 1)
    \<and> (fp_n_grammar_rules params = 0 \<longrightarrow> (\<forall>i < ?beg. dc_probs decoder' ! i = 0)
        \<or> (\<exists>j < ?beg. sum_list (drop ?beg (dc_probs decoder')) \<le> dc_probs decoder' ! j))"
    using rule beg(1) len
  proof (cases rule: timestamp_rule_cases)
    case forced
    have l: "?beg \<le> length ls" using beg(2) n by simp
    have front: "logits = replicate ?beg None @ drop ?beg ls" "logprobs = replicate ?beg None @ drop ?beg (whisper_compute_logprobs ls)"
      unfolding forced suppress_front [OF l] suppress_front [OF len] by simp_all
    have "dc_probs decoder' = map weight logprobs"
      unfolding probs
    proof (rule probs_weights)
      show "length logprobs = length logits" using l len by (simp add: front logprobs_masked)
      show "logprobs ! k = None" if "k < length logits" "logits ! k = None" for k
        using that l logprobs_finite [of k ls] by (cases "k < ?beg") (auto simp: front nth_append logprobs_masked)
    qed
    then have p: "dc_probs decoder' = replicate ?beg 0 @ map weight (drop ?beg (whisper_compute_logprobs ls))" by (simp add: front)
    obtain l where "l \<in> set (drop ?beg ls)" "l \<noteq> None" using finite by (auto simp: front)
    then have "\<exists>l \<in> set ls. l \<noteq> None" by (meson in_set_dropD)
    then have one: "sum_list (map weight (whisper_compute_logprobs ls)) = 1" by (rule sum_of_logprobs)
    have "map weight (whisper_compute_logprobs ls) = map weight (take ?beg (whisper_compute_logprobs ls)) @ map weight (drop ?beg (whisper_compute_logprobs ls))"
      by (simp flip: map_append)
    then have "sum_list (map weight (drop ?beg (whisper_compute_logprobs ls))) \<le> 1"
      using one sum_weights_nonneg [of "take ?beg (whisper_compute_logprobs ls)"] by simp
    then show ?thesis unfolding p by (auto simp: nth_append sum_list_replicate)
  next
    case grammar
    have "dc_probs decoder' = map weight logprobs"
      unfolding probs by (rule probs_weights) (auto simp: grammar(3) logprobs_masked)
    then have "sum_list (dc_probs decoder') = 1" using sum_of_logprobs [OF finite] by (simp add: grammar(3))
    then show ?thesis using grammar(1) by simp
  next
    case (same j)
    have p: "dc_probs decoder' = map weight logprobs"
      unfolding probs by (rule probs_weights) (auto simp: same(1,2) logprobs_masked)
    then have one: "sum_list (dc_probs decoder') = 1" using sum_of_logprobs [OF finite] by (simp add: same(1,2))
    have "sum_list (drop ?beg (dc_probs decoder')) \<le> dc_probs decoder' ! j"
      unfolding p drop_map using same len by simp
    then show ?thesis using one same(3) by auto
  qed
  from all show "sum_list (dc_probs decoder') \<le> 1" ..
  from all show "\<exists>i < ?beg. 0 < dc_probs decoder' ! i \<Longrightarrow> sum_list (dc_probs decoder') = 1" by simp
  from all show "fp_n_grammar_rules params = 0 \<Longrightarrow> (\<forall>i < ?beg. dc_probs decoder' ! i = 0)
        \<or> (\<exists>j < ?beg. sum_list (drop ?beg (dc_probs decoder')) \<le> dc_probs decoder' ! j)" by simp
qed

section \<open>Properties\<close>



text \<open>An instance: a small multilingual vocabulary and a decoder at the start of a segment.\<close>

definition example_vocab :: whisper_vocab where
  "example_vocab = \<lparr>vb_n_vocab = 113, vb_token_to_id = [(ascii '' '', 1)], vb_id_to_token = [(1, ascii '' '')], vb_token_eot = 2, vb_token_sot = 3,
     vb_token_translate = 104, vb_token_transcribe = 105, vb_token_solm = 106, vb_token_prev = 107, vb_token_nosp = 108,
     vb_token_not = 109, vb_token_beg = 110\<rparr>"

definition example_decoder :: "unit whisper_decoder" where
  "example_decoder = \<lparr>dc_sequence = \<lparr>sq_tokens = [], sq_result_len = 0, sq_sum_logprobs_all = 0, sq_sum_logprobs = None,
       sq_avg_logprobs = None, sq_entropy = 0, sq_score = None\<rparr>,
     dc_grammar = \<lparr>gr_rules = [], gr_stacks = [], gr_partial_utf8 = \<lparr>pu_value = 0, pu_n_remain = 0\<rparr>\<rparr>, dc_i_batch = 0, dc_seek_delta = 3000,
     dc_failed = False, dc_completed = False, dc_has_ts = False, dc_probs = [], dc_logits = [], dc_logprobs = [], dc_rng = ()\<rparr>"

abbreviation example_params_full :: whisper_full_params where
  "example_params_full \<equiv> whisper_full_default_params 4 0"

text \<open>The first timestamp is not suppressed, so it stays possible.\<close>

lemma example_run:
  obtains decoder' where
    "whisper_process_logits 0 0 (\<lambda>_ _. False) None example_vocab 1500 example_params_full 0 (replicate 113 (Some 0)) example_decoder
       = Some decoder'"
    "\<exists>l \<in> set (dc_logits decoder'). l \<noteq> None" "\<exists>p \<in> set (dc_probs decoder'). 0 < p"
proof -
  let ?row = "replicate 113 (Some 0) :: logit list"
  let ?blank = "suppress 1 (suppress 2 ?row)"
  let ?ls = "fold suppress (late_ids example_vocab 1500 example_params_full [] False 3000 113) (fold suppress (special_ids example_vocab example_params_full [] 113) ?blank)"
  have len: "length ?ls = 113" by simp
  have special: "\<forall>x \<in> set (special_ids example_vocab example_params_full [] 113). 0 \<le> x \<and> x < 110"
    by (auto simp: special_ids_def example_vocab_def whisper_full_default_params_def whisper_token_lang_def g_lang_size_def)
  have late: "late_ids example_vocab 1500 example_params_full [] False 3000 113 = []"
    by (simp add: late_ids_def range_ids_def example_vocab_def whisper_full_default_params_def initial_tid_def llround_def)
  have "?ls ! 110 = ?blank ! 110"
    unfolding late using special by (subst fold.simps(1), simp only: id_apply, subst fold_suppress_nth) auto
  also have "\<dots> = Some 0" by (simp add: suppress_def)
  finally have at: "?ls ! 110 = Some 0" .
  have run: "whisper_process_logits 0 0 (\<lambda>_ _. False) None example_vocab 1500 example_params_full 0 ?row example_decoder =
      map_option (\<lambda>(logits, logprobs). example_decoder\<lparr>dc_logits := logits, dc_logprobs := logprobs, dc_probs := whisper_compute_probs logits logprobs\<rparr>)
        (timestamp_rule 0 0 example_vocab example_params_full (dc_grammar example_decoder) (?ls, whisper_compute_logprobs ?ls))"
  proof -
    have "suppress_blank example_vocab example_params_full [] (scale_logits 0 ?row) = Some ?blank"
      by (simp add: suppress_blank_def scale_logits_def whisper_full_default_params_def example_vocab_def)
    moreover have "suppress_regex (\<lambda>_ _. False) example_vocab example_params_full ls = ls"
      "suppress_non_speech example_vocab example_params_full ls = ls" for ls
      by (simp_all add: suppress_regex_def suppress_non_speech_def whisper_full_default_params_def)
    moreover have "dc_sequence example_decoder = \<lparr>sq_tokens = [], sq_result_len = 0, sq_sum_logprobs_all = 0, sq_sum_logprobs = None,
       sq_avg_logprobs = None, sq_entropy = 0, sq_score = None\<rparr>" "dc_has_ts example_decoder = False" "dc_seek_delta example_decoder = 3000"
      by (simp_all add: example_decoder_def)
    ultimately show ?thesis
      by (simp add: whisper_process_logits_def late_filters_ids suppress_special_ids map_conv_bind_option comp_def case_prod_unfold Let_def)
  qed
  have rule: "\<exists>logits logprobs. timestamp_rule 0 0 example_vocab example_params_full (dc_grammar example_decoder) (?ls, whisper_compute_logprobs ?ls)
      = Some (logits, logprobs)"
    by (simp add: timestamp_rule_def whisper_full_default_params_def Let_def)
  then obtain logits logprobs where r: "timestamp_rule 0 0 example_vocab example_params_full (dc_grammar example_decoder) (?ls, whisper_compute_logprobs ?ls)
      = Some (logits, logprobs)" by blast
  have lp: "whisper_compute_logprobs ?ls ! 110 \<noteq> None" using logprobs_finite [of 110 ?ls] at len by simp
  have beg: "nat (vb_token_beg example_vocab) = 110" by (simp add: example_vocab_def)
  have bounds: "0 < nat (vb_token_beg example_vocab)" "nat (vb_token_beg example_vocab) \<le> length (whisper_compute_logprobs ?ls)"
    unfolding beg logprobs_masked len by simp_all
  have "logits ! 110 \<noteq> None \<and> logprobs ! 110 \<noteq> None"
    using r bounds
  proof (cases rule: timestamp_rule_cases)
    case forced
    have l: "nat (vb_token_beg example_vocab) \<le> length ?ls" "nat (vb_token_beg example_vocab) \<le> length (whisper_compute_logprobs ?ls)"
      unfolding beg logprobs_masked len by simp_all
    show ?thesis unfolding forced suppress_front [OF l(1)] suppress_front [OF l(2)] beg
      using at lp len by (simp add: nth_append logprobs_masked)
  next
    case (same j)
    show ?thesis unfolding same(1,2) using at lp by simp
  qed (simp add: whisper_full_default_params_def)
  moreover have l: "length logits = 113" "length logprobs = 113" using timestamp_rule_keeps(1,2) [OF r] by (simp_all add: logprobs_masked)
  ultimately have pos: "0 < whisper_compute_probs logits logprobs ! 110" "110 < length (whisper_compute_probs logits logprobs)"
    and fin: "logits ! 110 \<noteq> None"
    by (auto simp: whisper_compute_probs_def)
  have "\<exists>p \<in> set (whisper_compute_probs logits logprobs). 0 < p" using pos nth_mem by blast
  moreover have "\<exists>l \<in> set logits. l \<noteq> None" using fin nth_mem [of 110 logits] l(1) by (intro bexI [of _ "logits ! 110"]) simp_all
  ultimately show thesis
    using that [of "example_decoder\<lparr>dc_logits := logits, dc_logprobs := logprobs, dc_probs := whisper_compute_probs logits logprobs\<rparr>"] run r
    by simp
qed

definition example_draw :: "real list \<Rightarrow> unit \<Rightarrow> nat \<times> unit" where
  "example_draw ps r = (length (takeWhile (\<lambda>p. p \<le> 0) ps), r)"

lemma example_draws: "draws_positive example_draw"
  unfolding draws_positive_def example_draw_def
proof (intro allI impI)
  fix ps :: "real list" and r :: unit
  assume pos: "\<exists>p \<in> set ps. 0 < p"
  have l: "length (takeWhile (\<lambda>p. p \<le> 0) ps) < length ps"
  proof (rule ccontr)
    assume "\<not> length (takeWhile (\<lambda>p. p \<le> 0) ps) < length ps"
    then have "takeWhile (\<lambda>p. p \<le> 0) ps = ps" using takeWhile_eq_take [of "\<lambda>p. p \<le> 0" ps] by simp
    then show False using pos by (auto simp: takeWhile_eq_all_conv)
  qed
  then show "fst (length (takeWhile (\<lambda>p. p \<le> 0) ps), r) < length ps \<and> 0 < ps ! fst (length (takeWhile (\<lambda>p. p \<le> 0) ps), r)"
    using nth_length_takeWhile [OF l] by simp
qed



end
