(* ===== verification/SequenceScore.thy ===== *)
theory SequenceScore
  imports Complex_Main Prelude TokenChoice "HOL-Library.Option_ord" "HOL-Library.Monad_Syntax"
begin

text \<open>
  The judgement of decoded sequences in Whisper/src/whisper.cpp: \<open>whisper_sequence_score\<close> and the
  ranking of the decoders in \<open>whisper_full_with_state\<close>. Scores are reals with \<open>None\<close> for \<open>-INFINITY\<close>;
  rounding is not modelled. The theorem bounds the entropy by which repetitions are recognised.
\<close>

section \<open>The score of a sequence\<close>

text \<open>\<open>token_counts[id]++\<close> on the ordered \<open>std::map\<close>.\<close>

fun count_token :: "int \<Rightarrow> (int \<times> nat) list \<Rightarrow> (int \<times> nat) list" where
  "count_token i [] = [(i, 1)]"
| "count_token i ((k, n) # counts) =
     (if i < k then (i, 1) # (k, n) # counts
      else if i = k then (k, n + 1) # counts
      else (k, n) # count_token i counts)"

definition token_counts :: "whisper_token_data list \<Rightarrow> (int \<times> nat) list" where
  "token_counts tokens = fold (\<lambda>token. count_token (td_id token)) tokens []"

definition counts_entropy :: "(int \<times> nat) list \<Rightarrow> nat \<Rightarrow> real" where
  "counts_entropy counts cnt = fold (\<lambda>(_, n) entropy. let p = real n / real cnt in entropy - p * ln p) counts 0"

definition whisper_sequence_score :: "whisper_full_params \<Rightarrow> whisper_sequence \<Rightarrow> whisper_sequence" where
  "whisper_sequence_score params sequence =
     (if sq_result_len sequence = 0 then sequence
      else
        let n = nat (sq_result_len sequence);
            result = for_range 0 n (\<lambda>i result. result + td_plog (sq_tokens sequence ! i)) 0;
            penalty = (if fp_length_penalty params > 0 then ((5 + real n) / 6) powr fp_length_penalty params else real n);
            recent = drop (n - 32) (take n (sq_tokens sequence))
        in sequence\<lparr>sq_sum_logprobs := Some result, sq_avg_logprobs := Some (result / real n),
                    sq_score := Some (result / penalty),
                    sq_entropy := counts_entropy (token_counts recent) (length recent)\<rparr>)"

section \<open>Ranking the decoders\<close>

definition no_token :: whisper_token_data where
  "no_token = \<lparr>td_id = 0, td_tid = 0, td_p = 0, td_plog = 0, td_pt = 0, td_ptsum = 0, td_t0 = 0, td_t1 = 0, td_t_dtw = 0, td_vlen = 0\<rparr>"

record 'r ranking =
  rk_decoders :: "'r whisper_decoder list"
  rk_best_score :: logit
  rk_best_decoder_id :: nat
  rk_n_fail_h :: int

definition rank_step :: "whisper_full_params \<Rightarrow> nat \<Rightarrow> 'r ranking \<Rightarrow> 'r ranking" where
  "rank_step params j st =
     (let decoder = rk_decoders st ! j
      in if dc_failed decoder then st
         else
           let sequence = dc_sequence decoder;
               sequence = sequence\<lparr>sq_tokens := resize (nat (sq_result_len sequence)) no_token (sq_tokens sequence)\<rparr>;
               sequence = whisper_sequence_score params sequence;
               decoder = decoder\<lparr>dc_sequence := sequence\<rparr>
           in if sq_result_len sequence > 32 \<and> sq_entropy sequence < fp_entropy_thold params
              then st\<lparr>rk_decoders := (rk_decoders st)[j := decoder\<lparr>dc_failed := True\<rparr>], rk_n_fail_h := rk_n_fail_h st + 1\<rparr>
              else if rk_best_score st < sq_score sequence
              then st\<lparr>rk_decoders := (rk_decoders st)[j := decoder], rk_best_score := sq_score sequence, rk_best_decoder_id := j\<rparr>
              else st\<lparr>rk_decoders := (rk_decoders st)[j := decoder]\<rparr>)"

definition rank_decoders :: "whisper_full_params \<Rightarrow> nat \<Rightarrow> nat \<Rightarrow> 'r whisper_decoder list \<Rightarrow> int \<Rightarrow> 'r ranking" where
  "rank_decoders params n_decoders_cur best_decoder_id decoders n_fail_h =
     for_range 0 n_decoders_cur (rank_step params)
       \<lparr>rk_decoders = decoders, rk_best_score = None, rk_best_decoder_id = best_decoder_id, rk_n_fail_h = n_fail_h\<rparr>"

section \<open>Entropy\<close>

lemma map_of_count_token:
  "sorted_wrt (<) (map fst counts) \<Longrightarrow>
     map_of (count_token i counts) = (map_of counts)(i \<mapsto> Suc (case map_of counts i of None \<Rightarrow> 0 | Some n \<Rightarrow> n))"
proof (induction counts)
  case (Cons kn counts)
  obtain k n where [simp]: "kn = (k, n)" by force
  have "map_of counts i = None" if "i \<le> k"
    using Cons.prems that by (force simp: map_of_eq_None_iff)
  then show ?case using Cons by (auto simp: fun_eq_iff)
qed simp

lemma keys_count_token: "set (map fst (count_token i counts)) = insert i (fst ` set counts)"
  by (induction i counts rule: count_token.induct) auto

lemma sorted_count_token: "sorted_wrt (<) (map fst counts) \<Longrightarrow> sorted_wrt (<) (map fst (count_token i counts))"
proof (induction counts)
  case (Cons kn counts)
  obtain k n where [simp]: "kn = (k, n)" by force
  show ?case
    using Cons keys_count_token [of i counts] by auto
qed simp

definition occurrences :: "whisper_token_data list \<Rightarrow> int \<Rightarrow> nat" where
  "occurrences tokens i = length (filter (\<lambda>t. td_id t = i) tokens)"

lemma fold_count_token:
  "sorted_wrt (<) (map fst counts) \<Longrightarrow>
     sorted_wrt (<) (map fst (fold (\<lambda>t. count_token (td_id t)) tokens counts))
     \<and> map_of (fold (\<lambda>t. count_token (td_id t)) tokens counts)
       = (\<lambda>i. case map_of counts i of None \<Rightarrow> if occurrences tokens i = 0 then None else Some (occurrences tokens i)
              | Some n \<Rightarrow> Some (n + occurrences tokens i))"
proof (induction tokens arbitrary: counts)
  case Nil
  then show ?case by (auto simp: occurrences_def fun_eq_iff split: option.split)
next
  case (Cons t tokens)
  have s: "sorted_wrt (<) (map fst (count_token (td_id t) counts))" by (rule sorted_count_token [OF Cons.prems])
  show ?case
    using Cons.IH [OF s] map_of_count_token [OF Cons.prems, of "td_id t"]
    by (auto simp: fun_eq_iff occurrences_def split: option.splits)
qed

lemma token_counts_map:
  "sorted_wrt (<) (map fst (token_counts tokens))"
  "map_of (token_counts tokens) i = (if occurrences tokens i = 0 then None else Some (occurrences tokens i))"
  using fold_count_token [of "[]" tokens] by (simp_all add: token_counts_def)

lemma token_counts_pairs: "distinct (map fst (token_counts tokens))"
  "(i, n) \<in> set (token_counts tokens) \<longleftrightarrow> n = occurrences tokens i \<and> i \<in> td_id ` set tokens"
proof -
  show d: "distinct (map fst (token_counts tokens))"
    using token_counts_map(1) strict_sorted_iff by blast
  have "occurrences tokens i = 0 \<longleftrightarrow> i \<notin> td_id ` set tokens"
    by (auto simp: occurrences_def filter_empty_conv)
  then show "(i, n) \<in> set (token_counts tokens) \<longleftrightarrow> n = occurrences tokens i \<and> i \<in> td_id ` set tokens"
    using map_of_eq_Some_iff [OF d, of i n] token_counts_map(2) [of tokens i] by auto
qed

lemma token_counts_set: "set (token_counts tokens) = (\<lambda>i. (i, occurrences tokens i)) ` td_id ` set tokens"
  using token_counts_pairs(2) [of _ _ tokens] by auto

lemma counts_entropy_sum:
  "counts_entropy (token_counts tokens) cnt
     = (\<Sum>i \<in> td_id ` set tokens. - (real (occurrences tokens i) / real cnt) * ln (real (occurrences tokens i) / real cnt))"
proof -
  have f: "fold (\<lambda>(_, n) entropy. let p = real n / real cnt in entropy - p * ln p) counts x
     = x + sum_list (map (\<lambda>(i, n). - (real n / real cnt) * ln (real n / real cnt)) counts)" for counts :: "(int \<times> nat) list" and x
    by (induction counts arbitrary: x) (auto simp: Let_def)
  have "distinct (token_counts tokens)" using token_counts_pairs(1) by (simp add: distinct_map)
  then have "counts_entropy (token_counts tokens) cnt
      = (\<Sum>(i, n) \<in> set (token_counts tokens). - (real n / real cnt) * ln (real n / real cnt))"
    unfolding counts_entropy_def f by (subst sum_list_distinct_conv_sum_set) simp_all
  also have "\<dots> = (\<Sum>i \<in> td_id ` set tokens. - (real (occurrences tokens i) / real cnt) * ln (real (occurrences tokens i) / real cnt))"
    unfolding token_counts_set by (subst sum.reindex) (auto simp: inj_on_def)
  finally show ?thesis .
qed

lemma sum_occurrences: "(\<Sum>i \<in> td_id ` set tokens. occurrences tokens i) = length tokens"
proof -
  have "(\<Sum>i \<in> S. occurrences tokens i) = length tokens" if "finite S" "td_id ` set tokens \<subseteq> S" for S
    using that
  proof (induction tokens)
    case (Cons t tokens)
    have "occurrences (t # tokens) i = (if td_id t = i then 1 else 0) + occurrences tokens i" for i
      by (simp add: occurrences_def)
    then show ?case using Cons by (simp add: sum.distrib)
  qed (simp add: occurrences_def)
  then show ?thesis by simp
qed

text \<open>Gibbs' inequality against the uniform distribution.\<close>

lemma entropy_bound:
  fixes p :: "'a \<Rightarrow> real"
  assumes "finite S" and "S \<noteq> {}" and "\<forall>i \<in> S. 0 < p i" and "sum p S = 1"
  shows "0 \<le> (\<Sum>i\<in>S. - p i * ln (p i))" and "(\<Sum>i\<in>S. - p i * ln (p i)) \<le> ln (real (card S))"
    and "(\<Sum>i\<in>S. - p i * ln (p i)) = 0 \<longleftrightarrow> card S = 1"
proof -
  let ?m = "real (card S)"
  have m: "0 < ?m" using assms(1,2) by (simp add: card_gt_0_iff)
  have le1: "p i \<le> 1" if "i \<in> S" for i
  proof -
    have "p i \<le> sum p S" using assms(1,3) that by (intro member_le_sum) (auto intro: less_imp_le)
    then show ?thesis using assms(4) by simp
  qed
  have nn: "0 \<le> - p i * ln (p i)" if "i \<in> S" for i
  proof -
    have "0 < p i" using assms(3) that by simp
    moreover from this have "ln (p i) \<le> 0" using le1 [OF that] by simp
    ultimately show ?thesis by (simp add: mult_nonneg_nonpos)
  qed
  show nonneg: "0 \<le> (\<Sum>i\<in>S. - p i * ln (p i))" using nn by (rule sum_nonneg)
  have "- p i * ln (p i) - p i * ln ?m \<le> 1 / ?m - p i" if "i \<in> S" for i
  proof -
    have pi: "0 < p i" using assms(3) that by simp
    have "ln (1 / (p i * ?m)) \<le> 1 / (p i * ?m) - 1" using pi m by (intro ln_le_minus_one) simp
    then have "p i * ln (1 / (p i * ?m)) \<le> p i * (1 / (p i * ?m) - 1)" using pi by (intro mult_left_mono) auto
    moreover have "ln (1 / (p i * ?m)) = - ln (p i) - ln ?m" using pi m by (simp add: ln_div ln_mult)
    moreover have "p i * (1 / (p i * ?m) - 1) = 1 / ?m - p i" using pi m by (simp add: field_simps)
    ultimately show ?thesis by (simp add: algebra_simps)
  qed
  then have "(\<Sum>i\<in>S. - p i * ln (p i) - p i * ln ?m) \<le> (\<Sum>i\<in>S. 1 / ?m - p i)" by (rule sum_mono)
  also have "\<dots> = 0" using m assms(4) by (simp add: sum_subtractf)
  finally have "(\<Sum>i\<in>S. - p i * ln (p i)) - (\<Sum>i\<in>S. p i * ln ?m) \<le> 0" by (simp add: sum_subtractf)
  moreover have "(\<Sum>i\<in>S. p i * ln ?m) = ln ?m" using assms(4) by (simp flip: sum_distrib_right)
  ultimately show "(\<Sum>i\<in>S. - p i * ln (p i)) \<le> ln ?m" by simp
  show "(\<Sum>i\<in>S. - p i * ln (p i)) = 0 \<longleftrightarrow> card S = 1"
  proof
    assume "(\<Sum>i\<in>S. - p i * ln (p i)) = 0"
    then have z: "\<forall>i \<in> S. - p i * ln (p i) = 0" using sum_nonneg_eq_0_iff [OF assms(1) nn] by simp
    then have "\<forall>i \<in> S. p i = 1" using assms(3) by force
    then have "sum p S = ?m" by simp
    then show "card S = 1" using assms(4) by simp
  next
    assume "card S = 1"
    then obtain x where "S = {x}" by (auto simp: card_1_singleton_iff)
    then show "(\<Sum>i\<in>S. - p i * ln (p i)) = 0" using assms(4) by simp
  qed
qed

lemma counts_entropy_bounds:
  assumes "tokens \<noteq> []"
  shows "0 \<le> counts_entropy (token_counts tokens) (length tokens)"
    and "counts_entropy (token_counts tokens) (length tokens) \<le> ln (real (card (td_id ` set tokens)))"
    and "counts_entropy (token_counts tokens) (length tokens) = 0 \<longleftrightarrow> card (td_id ` set tokens) = 1"
proof -
  let ?p = "\<lambda>i. real (occurrences tokens i) / real (length tokens)"
  have pos: "\<forall>i \<in> td_id ` set tokens. 0 < ?p i"
    using assms by (auto simp: occurrences_def filter_empty_conv intro!: divide_pos_pos)
  have "sum ?p (td_id ` set tokens) = real (\<Sum>i \<in> td_id ` set tokens. occurrences tokens i) / real (length tokens)"
    by (simp flip: sum_divide_distrib)
  then have one: "sum ?p (td_id ` set tokens) = 1" using assms by (simp add: sum_occurrences)
  have "td_id ` set tokens \<noteq> {}" using assms by simp
  note entropy_bound [OF _ this pos one, folded counts_entropy_sum]
  then show "0 \<le> counts_entropy (token_counts tokens) (length tokens)"
    and "counts_entropy (token_counts tokens) (length tokens) \<le> ln (real (card (td_id ` set tokens)))"
    and "counts_entropy (token_counts tokens) (length tokens) = 0 \<longleftrightarrow> card (td_id ` set tokens) = 1"
    by auto
qed

text \<open>C36: The score of a sequence. The average times the length is the sum of the log-probabilities, without
  a length penalty the average is the score; the entropy of the last 32 tokens is at least 0, at most the
  logarithm of the number of different tokens among them and so of 32, and 0 exactly if they are all the same.\<close>

theorem sequence_score_bounds:
  assumes "0 < sq_result_len sequence" and "sq_result_len sequence \<le> int (length (sq_tokens sequence))"
  shows "let n = nat (sq_result_len sequence); scored = whisper_sequence_score params sequence;
             total = sum_list (map td_plog (take n (sq_tokens sequence)));
             recent = drop (n - 32) (take n (sq_tokens sequence)); kinds = card (td_id ` set recent)
         in sq_tokens scored = sq_tokens sequence \<and> sq_sum_logprobs scored = Some total
          \<and> sq_avg_logprobs scored = Some (total / real n)
          \<and> (fp_length_penalty params \<le> 0 \<longrightarrow> sq_score scored = sq_avg_logprobs scored)
          \<and> 0 \<le> sq_entropy scored \<and> sq_entropy scored \<le> ln (real kinds) \<and> sq_entropy scored \<le> ln 32
          \<and> (sq_entropy scored = 0 \<longleftrightarrow> (\<exists>i. \<forall>t \<in> set recent. td_id t = i))"
proof -
  define n where "n = nat (sq_result_len sequence)"
  define recent where "recent = drop (n - 32) (take n (sq_tokens sequence))"
  have n: "0 < n" "n \<le> length (sq_tokens sequence)" using assms by (auto simp: n_def)
  have "for_range 0 k (\<lambda>i result. result + td_plog (sq_tokens sequence ! i)) 0
      = sum_list (map td_plog (take k (sq_tokens sequence)))" if "k \<le> length (sq_tokens sequence)" for k
    using that by (induction k) (auto simp: take_Suc_conv_app_nth)
  note total = this [OF n(2)]
  have len: "length recent = min 32 n" using n by (simp add: recent_def)
  then have ne: "recent \<noteq> []" using n by auto
  note bounds = counts_entropy_bounds [OF ne]
  have "card (td_id ` set recent) \<le> 32"
    using card_image_le [of "set recent" td_id] card_length [of recent] len by simp
  moreover have "0 < card (td_id ` set recent)" using ne by (simp add: card_gt_0_iff)
  ultimately have "ln (real (card (td_id ` set recent))) \<le> ln 32" by simp
  moreover have "card (td_id ` set recent) = 1 \<longleftrightarrow> (\<exists>i. \<forall>t \<in> set recent. td_id t = i)"
  proof
    assume "\<exists>i. \<forall>t \<in> set recent. td_id t = i"
    then obtain i where "\<forall>t \<in> set recent. td_id t = i" ..
    then have "td_id ` set recent = {i}" using ne by (auto simp: image_iff) (metis list.set_intros(1) neq_Nil_conv)
    then show "card (td_id ` set recent) = 1" by simp
  qed (auto simp: card_1_singleton_iff)
  moreover have "whisper_sequence_score params sequence = sequence\<lparr>sq_sum_logprobs := Some (sum_list (map td_plog (take n (sq_tokens sequence)))),
      sq_avg_logprobs := Some (sum_list (map td_plog (take n (sq_tokens sequence))) / real n),
      sq_score := Some (sum_list (map td_plog (take n (sq_tokens sequence)))
        / (if fp_length_penalty params > 0 then ((5 + real n) / 6) powr fp_length_penalty params else real n)),
      sq_entropy := counts_entropy (token_counts recent) (length recent)\<rparr>"
    unfolding whisper_sequence_score_def Let_def n_def [symmetric] recent_def [symmetric] total using assms(1) by simp
  ultimately show ?thesis
    using bounds unfolding Let_def n_def [symmetric] recent_def [symmetric] by auto
qed

definition example_token :: "int \<Rightarrow> real \<Rightarrow> whisper_token_data" where
  "example_token i plog = no_token\<lparr>td_id := i, td_tid := i, td_plog := plog\<rparr>"

theorem sequence_score_bounds_witness:
  "sq_entropy (whisper_sequence_score example_params_full
      ((dc_sequence example_decoder)\<lparr>sq_tokens := [example_token 5 (- 1), example_token 5 (- 3)], sq_result_len := 2\<rparr>)) = 0"
  using sequence_score_bounds [of "(dc_sequence example_decoder)\<lparr>sq_tokens := [example_token 5 (- 1), example_token 5 (- 3)], sq_result_len := 2\<rparr>" example_params_full]
  by (simp add: Let_def example_token_def)

end
