(* ===== verification/TokenTimes.thy ===== *)
theory TokenTimes
  imports Complex_Main Prelude VadSegments TokenChoice "HOL-Library.Monad_Syntax"
begin

text \<open>
  Token-level timestamps in Whisper/src/whisper.cpp: \<open>whisper_exp_compute_token_level_timestamps\<close> and its
  helpers. \<open>None\<close> is undefined behaviour or an exception: an access outside the signal energy or the
  vocabulary, and the conversion of a \<open>NaN\<close> time. The theorem shows that the function returns whatever the
  signal, and changes nothing but the times of the tokens.
\<close>

section \<open>Segments\<close>

record whisper_segment =
  sg_t0 :: int
  sg_t1 :: int
  sg_text :: "u8 list"
  sg_no_speech_prob :: real
  sg_tokens :: "whisper_token_data list"
  sg_speaker_turn_next :: bool

text \<open>\<open>id_to_token.at(id).c_str()\<close>.\<close>

definition whisper_token_to_str :: "whisper_vocab \<Rightarrow> int \<Rightarrow> u8 list option" where
  "whisper_token_to_str vocab i = map_option (takeWhile (\<lambda>b. b \<noteq> 0)) (map_of (vb_id_to_token vocab) i)"

section \<open>Voice length and signal energy\<close>

definition char_voice_length :: "u8 \<Rightarrow> real" where
  "char_voice_length c =
     (if c = 0x20 then 1 / 100 else if c = 0x2C then 2 else if c = 0x2E then 3 else if c = 0x21 then 3
      else if c = 0x3F then 3 else if 0x30 \<le> c \<and> c \<le> 0x39 then 3 else 1)"

definition voice_length :: "u8 list \<Rightarrow> real" where
  "voice_length txt = fold (\<lambda>c res. res + char_voice_length c) txt 0"

definition window_sum :: "real list \<Rightarrow> int \<Rightarrow> int \<Rightarrow> real" where
  "window_sum signal hw i =
     fold (\<lambda>j sum. if i + j \<ge> 0 \<and> i + j < int (length signal) then sum + \<bar>signal ! nat (i + j)\<bar> else sum)
       (map (\<lambda>k. int k - hw) [0..<nat (2 * hw + 1)]) 0"

definition get_signal_energy :: "real list \<Rightarrow> int \<Rightarrow> real list" where
  "get_signal_energy signal n_samples_per_half_window =
     (let hw = n_samples_per_half_window
      in map (\<lambda>i. window_sum signal hw (int i) / real_of_int (2 * hw + 1)) [0..<length signal])"

section \<open>Times and samples\<close>

definition timestamp_to_sample :: "int \<Rightarrow> int \<Rightarrow> nat \<Rightarrow> nat" where
  "timestamp_to_sample t segment_t0 n_samples =
     (let relative_t = t - segment_t0;
          sample = tdiv (relative_t * WHISPER_SAMPLE_RATE) 100
      in nat (max 0 (min (int n_samples - 1) sample)))"

definition sample_to_timestamp :: "nat \<Rightarrow> int \<Rightarrow> int" where
  "sample_to_timestamp i_sample segment_t0 = tdiv (100 * int i_sample) WHISPER_SAMPLE_RATE + segment_t0"

section \<open>First pass: tokens with a confident timestamp\<close>

record token_clock =
  tc_t_beg :: int
  tc_t_last :: int
  tc_tid_last :: int

definition set_token_t0 :: "nat \<Rightarrow> int \<Rightarrow> whisper_token_data list \<Rightarrow> whisper_token_data list" where
  "set_token_t0 j t tokens = tokens[j := (tokens ! j)\<lparr>td_t0 := t\<rparr>]"

definition set_token_t1 :: "nat \<Rightarrow> int \<Rightarrow> whisper_token_data list \<Rightarrow> whisper_token_data list" where
  "set_token_t1 j t tokens = tokens[j := (tokens ! j)\<lparr>td_t1 := t\<rparr>]"

definition first_token :: "whisper_vocab \<Rightarrow> int \<Rightarrow> whisper_token_data list \<times> token_clock \<Rightarrow> whisper_token_data list \<times> token_clock" where
  "first_token vocab t0 = (\<lambda>(tokens, clock).
     if td_id (tokens ! 0) = vb_token_beg vocab
     then (set_token_t0 1 t0 (set_token_t1 0 t0 (set_token_t0 0 t0 tokens)),
           \<lparr>tc_t_beg = t0, tc_t_last = t0, tc_tid_last = vb_token_beg vocab\<rparr>)
     else (set_token_t0 0 (tc_t_last clock) tokens, clock))"

definition known_step :: "whisper_vocab \<Rightarrow> whisper_segment \<Rightarrow> real \<Rightarrow> real \<Rightarrow> nat \<Rightarrow> whisper_token_data list \<times> token_clock
    \<Rightarrow> (whisper_token_data list \<times> token_clock) option" where
  "known_step vocab segment thold_pt thold_ptsum j st =
     (let (tokens, clock) = (if j = 0 then first_token vocab (sg_t0 segment) st else st);
          token = tokens ! j;
          tt = tc_t_beg clock + 2 * (td_tid token - vb_token_beg vocab)
      in do {
        str \<leftarrow> whisper_token_to_str vocab (td_id token);
        let tokens = tokens[j := token\<lparr>td_vlen := voice_length str\<rparr>];
        Some (if td_pt token > thold_pt \<and> td_ptsum token > thold_ptsum \<and> td_tid token > tc_tid_last clock \<and> tt \<le> sg_t1 segment
              then (set_token_t0 j tt (if j > 0 then set_token_t1 (j - 1) tt tokens else tokens), clock\<lparr>tc_tid_last := td_tid token\<rparr>)
              else (tokens, clock))
      })"

definition for_range_opt :: "nat \<Rightarrow> nat \<Rightarrow> (nat \<Rightarrow> 's \<Rightarrow> 's option) \<Rightarrow> 's \<Rightarrow> 's option" where
  "for_range_opt a b f s = for_range a b (\<lambda>i st. Option.bind st (f i)) (Some s)"

section \<open>Second pass: the intervals in between\<close>

function next_known :: "whisper_token_data list \<Rightarrow> nat \<Rightarrow> nat" where
  "next_known tokens p1 =
     (if p1 < length tokens \<and> td_t1 (tokens ! p1) < 0 then next_known tokens (p1 + 1) else p1)"
  by pat_completeness auto
termination by (relation "measure (\<lambda>(tokens, p1). length tokens - p1)") auto

declare next_known.simps [simp del]

definition split_interval :: "nat \<Rightarrow> nat \<Rightarrow> whisper_token_data list \<Rightarrow> whisper_token_data list option" where
  "split_interval p0 p1 tokens =
     (let psum = for_range p0 (p1 + 1) (\<lambda>j psum. psum + td_vlen (tokens ! j)) 0;
          dt = real_of_int (td_t1 (tokens ! p1) - td_t0 (tokens ! p0))
      in if psum = 0 then None
         else Some (for_range (p0 + 1) (p1 + 1)
           (\<lambda>j tokens. let ct = trunc_real (real_of_int (td_t0 (tokens ! (j - 1))) + dt * td_vlen (tokens ! (j - 1)) / psum)
                       in set_token_t0 j ct (set_token_t1 (j - 1) ct tokens)) tokens))"

lemma next_known_ge: "p1 \<le> next_known tokens p1"
proof (induction tokens p1 rule: next_known.induct)
  case (1 tokens p1)
  then show ?case by (subst next_known.simps) (auto dest: Suc_leD)
qed

lemma next_known_le: "p1 \<le> length tokens \<Longrightarrow> next_known tokens p1 \<le> length tokens"
proof (induction tokens p1 rule: next_known.induct)
  case (1 tokens p1)
  then show ?case by (subst next_known.simps) auto
qed

function fill_intervals :: "nat \<Rightarrow> nat \<Rightarrow> whisper_token_data list \<Rightarrow> whisper_token_data list option" where
  "fill_intervals n p0 tokens =
     (if p0 < n
      then
        let p1 = next_known tokens p0;
            p1 = (if p1 \<ge> n then p1 - 1 else p1)
        in do {
             tokens \<leftarrow> (if p1 > p0 then split_interval p0 p1 tokens else Some tokens);
             fill_intervals n (p1 + 1) tokens
           }
      else Some tokens)"
  by pat_completeness auto
termination
proof (relation "measure (\<lambda>(n, p0, tokens). n - p0)", goal_cases)
  case (2 n p0 tokens x xa y)
  then show ?case using next_known_ge [of p0 tokens] by auto
qed simp

declare fill_intervals.simps [simp del]

definition fixup_step :: "nat \<Rightarrow> whisper_token_data list \<Rightarrow> whisper_token_data list" where
  "fixup_step j tokens =
     (let tokens = (if td_t1 (tokens ! j) < 0 then set_token_t0 (j + 1) (td_t1 (tokens ! j)) tokens else tokens)
      in if j > 0 \<and> td_t1 (tokens ! (j - 1)) > td_t0 (tokens ! j)
         then let tokens = set_token_t0 j (td_t1 (tokens ! (j - 1))) tokens
              in set_token_t1 j (max (td_t0 (tokens ! j)) (td_t1 (tokens ! j))) tokens
         else tokens)"

section \<open>Third pass: voice activity\<close>

text \<open>\<open>energy[k]\<close>; the threshold is \<open>None\<close> when it is not a number, and then every comparison fails.\<close>

definition energy_at :: "real list \<Rightarrow> nat \<Rightarrow> real option" where
  "energy_at energy k = (if k < length energy then Some (energy ! k) else None)"

definition louder :: "real \<Rightarrow> real option \<Rightarrow> bool" where
  "louder e thold = (case thold of None \<Rightarrow> False | Some t \<Rightarrow> e > t)"

definition quieter :: "real \<Rightarrow> real option \<Rightarrow> bool" where
  "quieter e thold = (case thold of None \<Rightarrow> False | Some t \<Rightarrow> e < t)"

fun back_while_loud :: "real list \<Rightarrow> real option \<Rightarrow> nat \<Rightarrow> nat option" where
  "back_while_loud energy thold 0 = Some 0"
| "back_while_loud energy thold (Suc k) = do {
     e \<leftarrow> energy_at energy (Suc k);
     if louder e thold then back_while_loud energy thold k else Some (Suc k)
   }"

function on_while_quiet :: "real list \<Rightarrow> real option \<Rightarrow> nat \<Rightarrow> nat \<Rightarrow> nat option" where
  "on_while_quiet energy thold s1 k = do {
     e \<leftarrow> energy_at energy k;
     if quieter e thold \<and> k < s1 then on_while_quiet energy thold s1 (k + 1) else Some k
   }"
  by pat_completeness auto
termination by (relation "measure (\<lambda>(energy, thold, s1, k). s1 - k)") auto

declare on_while_quiet.simps [simp del]

function on_while_loud :: "real list \<Rightarrow> real option \<Rightarrow> nat \<Rightarrow> nat option" where
  "on_while_loud energy thold k =
     (if k < length energy - 1
      then do {
        e \<leftarrow> energy_at energy k;
        if louder e thold then on_while_loud energy thold (k + 1) else Some k
      }
      else Some k)"
  by pat_completeness auto
termination by (relation "measure (\<lambda>(energy, thold, k). length energy - k)") auto

declare on_while_loud.simps [simp del]

function back_while_quiet :: "real list \<Rightarrow> real option \<Rightarrow> nat \<Rightarrow> nat \<Rightarrow> nat option" where
  "back_while_quiet energy thold s0 k = do {
     e \<leftarrow> energy_at energy k;
     if quieter e thold \<and> k > s0 then back_while_quiet energy thold s0 (k - 1) else Some k
   }"
  by pat_completeness auto
termination by (relation "measure (\<lambda>(energy, thold, s0, k). k)") auto

declare back_while_quiet.simps [simp del]

definition energy_threshold :: "real list \<Rightarrow> nat \<Rightarrow> nat \<Rightarrow> real option option" where
  "energy_threshold energy s0 s1 =
     (let hw = nat WHISPER_SAMPLE_RATE div 8;
          ss0 = s0 - hw;
          ss1 = min (s1 + hw) (length energy);
          ns = int ss1 - int ss0
      in do {
        sum \<leftarrow> for_range_opt ss0 ss1 (\<lambda>k sum. map_option (\<lambda>e. sum + e) (energy_at energy k)) 0;
        Some (if ns = 0 then None else Some (1 / 2 * sum / real_of_int ns))
      })"

definition adjust_start :: "real list \<Rightarrow> int \<Rightarrow> real option \<Rightarrow> nat \<Rightarrow> nat \<Rightarrow> nat \<Rightarrow> whisper_token_data list
    \<Rightarrow> (nat \<times> whisper_token_data list) option" where
  "adjust_start energy segment_t0 thold j s0 s1 tokens = do {
     e \<leftarrow> energy_at energy s0;
     if louder e thold \<and> j > 0
     then do {
       k \<leftarrow> back_while_loud energy thold s0;
       let tokens = set_token_t0 j (sample_to_timestamp k segment_t0) tokens;
       Some (if td_t0 (tokens ! j) < td_t1 (tokens ! (j - 1))
             then (s0, set_token_t0 j (td_t1 (tokens ! (j - 1))) tokens) else (k, tokens))
     }
     else do {
       k \<leftarrow> on_while_quiet energy thold s1 s0;
       Some (k, set_token_t0 j (sample_to_timestamp k segment_t0) tokens)
     }
   }"

definition adjust_end :: "real list \<Rightarrow> int \<Rightarrow> real option \<Rightarrow> nat \<Rightarrow> nat \<Rightarrow> nat \<Rightarrow> whisper_token_data list
    \<Rightarrow> whisper_token_data list option" where
  "adjust_end energy segment_t0 thold j s0 s1 tokens = do {
     e \<leftarrow> energy_at energy s1;
     if louder e thold
     then do {
       k \<leftarrow> on_while_loud energy thold s1;
       let tokens = set_token_t1 j (sample_to_timestamp k segment_t0) tokens;
       Some (if j < length tokens - 1 \<and> td_t1 (tokens ! j) > td_t0 (tokens ! (j + 1))
             then set_token_t1 j (td_t0 (tokens ! (j + 1))) tokens else tokens)
     }
     else do {
       k \<leftarrow> back_while_quiet energy thold s0 s1;
       Some (set_token_t1 j (sample_to_timestamp k segment_t0) tokens)
     }
   }"

definition voice_step :: "whisper_vocab \<Rightarrow> real list \<Rightarrow> int \<Rightarrow> nat \<Rightarrow> whisper_token_data list \<Rightarrow> whisper_token_data list option" where
  "voice_step vocab energy segment_t0 j tokens =
     (if td_id (tokens ! j) \<ge> vb_token_eot vocab then Some tokens
      else
        let n_samples = length energy;
            s0 = timestamp_to_sample (td_t0 (tokens ! j)) segment_t0 n_samples;
            s1 = timestamp_to_sample (td_t1 (tokens ! j)) segment_t0 n_samples
        in do {
             thold \<leftarrow> energy_threshold energy s0 s1;
             (s0, tokens) \<leftarrow> adjust_start energy segment_t0 thold j s0 s1 tokens;
             adjust_end energy segment_t0 thold j s0 s1 tokens
           })"

section \<open>The whole function\<close>

definition whisper_exp_compute_token_level_timestamps ::
  "whisper_vocab \<Rightarrow> real list \<Rightarrow> real \<Rightarrow> real \<Rightarrow> whisper_segment \<times> token_clock \<Rightarrow> (whisper_segment \<times> token_clock) option" where
  "whisper_exp_compute_token_level_timestamps vocab energy thold_pt thold_ptsum = (\<lambda>(segment, clock).
     let tokens = sg_tokens segment; n = length tokens; t0 = sg_t0 segment; t1 = sg_t1 segment
     in if energy = [] then Some (segment, clock)
        else if n = 0 then Some (segment, clock)
        else if n = 1 then Some (segment\<lparr>sg_tokens := set_token_t1 0 t1 (set_token_t0 0 t0 tokens)\<rparr>, clock)
        else do {
          (tokens, clock) \<leftarrow> for_range_opt 0 n (known_step vocab segment thold_pt thold_ptsum) (tokens, clock);
          let tokens = set_token_t1 (n - 1) t1 (set_token_t0 (n - 1) t1 (set_token_t1 (n - 2) t1 tokens));
          let clock = clock\<lparr>tc_t_last := t1\<rparr>;
          tokens \<leftarrow> fill_intervals n 0 tokens;
          let tokens = for_range 0 (n - 1) fixup_step tokens;
          tokens \<leftarrow> for_range_opt 0 n (voice_step vocab energy t0) tokens;
          Some (segment\<lparr>sg_tokens := tokens\<rparr>, clock)
        })"

section \<open>Only the times change\<close>

definition untimed :: "whisper_token_data \<Rightarrow> whisper_token_data" where
  "untimed token = token\<lparr>td_t0 := 0, td_t1 := 0, td_vlen := 0\<rparr>"

lemma map_untimed_update:
  "untimed x = untimed (tokens ! j) \<Longrightarrow> map untimed (tokens[j := x]) = map untimed tokens"
  by (cases "j < length tokens") (simp_all add: map_update list_update_same_conv list_update_beyond)

lemma untimed_fields [simp]:
  "untimed (t\<lparr>td_t0 := a\<rparr>) = untimed t" "untimed (t\<lparr>td_t1 := a\<rparr>) = untimed t" "untimed (t\<lparr>td_vlen := v\<rparr>) = untimed t"
  by (simp_all add: untimed_def)

text \<open>The tokens of a segment while their times are computed: the same tokens, with positive lengths up to \<open>i\<close>.\<close>

definition voiced :: "whisper_token_data list \<Rightarrow> nat \<Rightarrow> whisper_token_data list \<Rightarrow> bool" where
  "voiced us i tokens \<longleftrightarrow> map untimed tokens = us \<and> (\<forall>j < i. j < length tokens \<longrightarrow> 0 < td_vlen (tokens ! j))"

lemma voiced_length: "voiced us i tokens \<Longrightarrow> length tokens = length us"
  by (auto simp: voiced_def)

lemma set_token_keeps [simp]:
  "map untimed (set_token_t0 j t tokens) = map untimed tokens" "map untimed (set_token_t1 j t tokens) = map untimed tokens"
  "length (set_token_t0 j t tokens) = length tokens" "length (set_token_t1 j t tokens) = length tokens"
  by (simp_all add: set_token_t0_def set_token_t1_def map_untimed_update)

lemma set_token_vlen [simp]:
  "td_vlen (set_token_t0 j t tokens ! i) = td_vlen (tokens ! i)" "td_vlen (set_token_t1 j t tokens ! i) = td_vlen (tokens ! i)"
  by (cases "j < length tokens"; cases "i = j"; simp add: set_token_t0_def set_token_t1_def list_update_beyond)+

lemma voiced_set_t0 [intro]: "voiced us i tokens \<Longrightarrow> voiced us i (set_token_t0 j t tokens)"
  and voiced_set_t1 [intro]: "voiced us i tokens \<Longrightarrow> voiced us i (set_token_t1 j t tokens)"
  by (simp_all add: voiced_def)

lemma for_range_opt_total:
  assumes "P a s" and "\<And>i s. a \<le> i \<Longrightarrow> i < b \<Longrightarrow> P i s \<Longrightarrow> \<exists>s'. f i s = Some s' \<and> P (Suc i) s'" and "a \<le> b"
  shows "\<exists>s'. for_range_opt a b f s = Some s' \<and> P b s'"
  unfolding for_range_opt_def
  by (rule for_range_invariant [where P = "\<lambda>i st. \<exists>s'. st = Some s' \<and> P i s'"]) (use assms in auto)

lemma voice_length_pos:
  assumes "str \<noteq> []" shows "0 < voice_length str"
proof -
  have c: "0 < char_voice_length c" for c by (simp add: char_voice_length_def)
  have "x \<le> fold (\<lambda>c res. res + char_voice_length c) cs x" for cs x
    by (induction cs arbitrary: x) (auto intro: order_trans [OF less_imp_le [OF less_add_same_cancel1 [THEN iffD2, OF c]]])
  from this [of "0 + char_voice_length (hd str)" "tl str"] c [of "hd str"] show ?thesis
    using assms by (cases str) (auto simp: voice_length_def)
qed

definition spelled :: "whisper_vocab \<Rightarrow> whisper_token_data \<Rightarrow> bool" where
  "spelled vocab token \<longleftrightarrow> (\<exists>str. whisper_token_to_str vocab (td_id token) = Some str \<and> str \<noteq> [])"

lemma spelled_untimed: "spelled vocab (untimed t) = spelled vocab t" "td_id (untimed t) = td_id t"
  by (simp_all add: spelled_def untimed_def)

lemma voiced_nth:
  assumes "voiced us i tokens" and "j < length tokens"
  shows "td_id (tokens ! j) = td_id (us ! j)" and "spelled vocab (tokens ! j) = spelled vocab (us ! j)"
  using assms spelled_untimed(1) [of vocab "tokens ! j"] spelled_untimed(2) [of "tokens ! j"] by (auto simp: voiced_def)

lemma first_token_voiced:
  assumes "voiced us 0 tokens" shows "voiced us 0 (fst (first_token vocab t0 (tokens, clock)))"
  using assms by (auto simp: first_token_def intro!: voiced_set_t0 voiced_set_t1)

lemma known_step_voiced:
  assumes "voiced us j tokens" and "j < length us" and "\<forall>u \<in> set us. spelled vocab u"
  shows "\<exists>tokens' clock'. known_step vocab segment pt ptsum j (tokens, clock) = Some (tokens', clock') \<and> voiced us (Suc j) tokens'"
proof -
  obtain tokens1 clock1 where st: "(if j = 0 then first_token vocab (sg_t0 segment) (tokens, clock) else (tokens, clock)) = (tokens1, clock1)"
    by force
  have v: "voiced us j tokens1"
    using assms(1) st first_token_voiced [of us tokens vocab "sg_t0 segment" clock] by (auto split: if_splits)
  note len = voiced_length [OF v]
  have "spelled vocab (tokens1 ! j)" using assms(2,3) voiced_nth(2) [OF v, of j] len by simp
  then obtain str where str: "whisper_token_to_str vocab (td_id (tokens1 ! j)) = Some str" "0 < voice_length str"
    by (auto simp: spelled_def voice_length_pos)
  let ?ts = "tokens1[j := (tokens1 ! j)\<lparr>td_vlen := voice_length str\<rparr>]"
  have "voiced us (Suc j) ?ts"
    using v str(2) by (auto simp: voiced_def map_untimed_update nth_list_update less_Suc_eq)
  then have "voiced us (Suc j) (set_token_t0 j tt (set_token_t1 (j - Suc 0) tt ?ts))" "voiced us (Suc j) (set_token_t0 j tt ?ts)" for tt
    by (auto intro: voiced_set_t0 voiced_set_t1)
  with \<open>voiced us (Suc j) ?ts\<close> show ?thesis
    using str(1) unfolding known_step_def st Let_def by (cases "j = 0") simp_all
qed

lemma split_interval_voiced:
  assumes "voiced us n tokens" and "p0 < p1" and "p1 < n" and "n = length us"
  shows "\<exists>tokens'. split_interval p0 p1 tokens = Some tokens' \<and> voiced us n tokens'"
proof -
  have pos: "0 < td_vlen (tokens ! j)" if "j < n" for j
    using assms(1,4) that voiced_length [OF assms(1)] by (auto simp: voiced_def)
  have "for_range p0 (p0 + 1) (\<lambda>j psum. psum + td_vlen (tokens ! j)) 0 = td_vlen (tokens ! p0)" by simp
  moreover have "td_vlen (tokens ! p0) \<le> for_range (p0 + 1) (p1 + 1) (\<lambda>j psum. psum + td_vlen (tokens ! j)) (td_vlen (tokens ! p0))"
  proof (rule for_range_invariant [where P = "\<lambda>_ psum. td_vlen (tokens ! p0) \<le> psum"])
    show "td_vlen (tokens ! p0) \<le> psum + td_vlen (tokens ! i)" if "i < p1 + 1" "td_vlen (tokens ! p0) \<le> psum" for i psum
      using pos [of i] that assms(3) by linarith
  qed (use assms in auto)
  ultimately have "for_range p0 (p1 + 1) (\<lambda>j psum. psum + td_vlen (tokens ! j)) 0 \<noteq> 0"
    using for_range_split [of p0 "p0 + 1" "p1 + 1" "\<lambda>j psum. psum + td_vlen (tokens ! j)" 0] pos [of p0] assms by simp
  moreover have "voiced us n (for_range (p0 + 1) (p1 + 1)
           (\<lambda>j tokens. let ct = trunc_real (real_of_int (td_t0 (tokens ! (j - 1))) + dt * td_vlen (tokens ! (j - 1)) / psum)
                       in set_token_t0 j ct (set_token_t1 (j - 1) ct tokens)) tokens)" for dt psum
    by (rule for_range_invariant [where P = "\<lambda>_. voiced us n"]) (use assms in \<open>auto simp: Let_def intro!: voiced_set_t0 voiced_set_t1\<close>)
  ultimately show ?thesis unfolding split_interval_def Let_def by simp
qed

lemma fill_intervals_voiced:
  assumes "voiced us n tokens" and "n = length us"
  shows "\<exists>tokens'. fill_intervals n p0 tokens = Some tokens' \<and> voiced us n tokens'"
  using assms
proof (induction n p0 tokens rule: fill_intervals.induct)
  case (1 n p0 tokens)
  show ?case
  proof (cases "p0 < n")
    case True
    define p1 where "p1 = (if next_known tokens p0 \<ge> n then next_known tokens p0 - 1 else next_known tokens p0)"
    have "p1 < n"
      using True next_known_le [of p0 tokens] voiced_length [OF 1(2)] 1(3) by (auto simp: p1_def)
    then obtain tokens1 where t: "(if p1 > p0 then split_interval p0 p1 tokens else Some tokens) = Some tokens1" "voiced us n tokens1"
      using split_interval_voiced [OF 1(2) _ _ 1(3), of p0 p1] 1(2) by (cases "p0 < p1") auto
    have "\<exists>tokens'. fill_intervals n (p1 + 1) tokens1 = Some tokens' \<and> voiced us n tokens'"
      by (rule 1(1) [OF True refl p1_def t(1) t(2) 1(3)])
    moreover have "fill_intervals n p0 tokens
        = Option.bind (if p1 > p0 then split_interval p0 p1 tokens else Some tokens) (fill_intervals n (p1 + 1))"
      by (subst fill_intervals.simps) (simp add: True Let_def p1_def)
    ultimately show ?thesis using t(1) by simp
  next
    case False
    then show ?thesis using 1(2) by (subst fill_intervals.simps) simp
  qed
qed

lemma fixup_step_voiced: "voiced us n tokens \<Longrightarrow> voiced us n (fixup_step j tokens)"
  by (auto simp: fixup_step_def Let_def intro!: voiced_set_t0 voiced_set_t1)

section \<open>The energy is read within bounds\<close>

lemma set_token_t0_nth [simp]:
  "j < length tokens \<Longrightarrow> td_t0 (set_token_t0 j t tokens ! i) = (if i = j then t else td_t0 (tokens ! i))"
  by (simp add: set_token_t0_def nth_list_update)

lemma set_token_t1_nth [simp]: "td_t0 (set_token_t1 j t tokens ! i) = td_t0 (tokens ! i)"
  by (cases "j < length tokens"; cases "i = j"; simp add: set_token_t1_def list_update_beyond)

lemma timestamp_to_sample_less: "energy \<noteq> [] \<Longrightarrow> timestamp_to_sample t t0 (length energy) < length energy"
  by (cases energy) (auto simp: timestamp_to_sample_def Let_def nat_less_iff)

lemma sample_to_timestamp_ge: "t0 \<le> sample_to_timestamp k t0"
  by (simp add: sample_to_timestamp_def tdiv_def WHISPER_SAMPLE_RATE_def)

lemma back_while_loud_total: "k < length energy \<Longrightarrow> \<exists>k'. back_while_loud energy thold k = Some k' \<and> k' \<le> k"
  by (induction k) (auto simp: energy_at_def le_SucI)

lemma on_while_quiet_total:
  "k < length energy \<Longrightarrow> s1 < length energy \<Longrightarrow> \<exists>k'. on_while_quiet energy thold s1 k = Some k' \<and> k' < length energy"
proof (induction energy thold s1 k rule: on_while_quiet.induct)
  case (1 energy thold s1 k)
  then show ?case by (subst on_while_quiet.simps) (auto simp: energy_at_def)
qed

lemma on_while_loud_total:
  "k < length energy \<Longrightarrow> \<exists>k'. on_while_loud energy thold k = Some k' \<and> k' < length energy"
proof (induction energy thold k rule: on_while_loud.induct)
  case (1 energy thold k)
  then show ?case by (subst on_while_loud.simps) (auto simp: energy_at_def)
qed

lemma back_while_quiet_total:
  "k < length energy \<Longrightarrow> \<exists>k'. back_while_quiet energy thold s0 k = Some k'"
proof (induction energy thold s0 k rule: back_while_quiet.induct)
  case (1 energy thold s0 k)
  then show ?case by (subst back_while_quiet.simps) (auto simp: energy_at_def)
qed

lemma energy_threshold_total: "\<exists>thold. energy_threshold energy s0 s1 = Some thold"
proof -
  let ?a = "s0 - nat WHISPER_SAMPLE_RATE div 8" and ?b = "min (s1 + nat WHISPER_SAMPLE_RATE div 8) (length energy)"
  have "\<exists>sum. for_range_opt ?a ?b (\<lambda>k sum. map_option (\<lambda>e. sum + e) (energy_at energy k)) 0 = Some sum"
  proof (cases "?a \<le> ?b")
    case True
    have "\<exists>sum. for_range_opt ?a ?b (\<lambda>k sum. map_option (\<lambda>e. sum + e) (energy_at energy k)) 0 = Some sum \<and> True"
      by (rule for_range_opt_total [where P = "\<lambda>_ _. True", OF _ _ True]) (auto simp: energy_at_def)
    then show ?thesis by blast
  next
    case False
    then have "?b \<le> ?a" by linarith
    then show ?thesis unfolding for_range_opt_def by (subst for_range_empty) auto
  qed
  then show ?thesis by (auto simp: energy_threshold_def Let_def)
qed

lemma adjust_start_total:
  assumes "voiced us n tokens" and "j < length tokens" and "s0 < length energy" and "s1 < length energy"
  shows "\<exists>k tokens'. adjust_start energy t0 thold j s0 s1 tokens = Some (k, tokens') \<and> voiced us n tokens' \<and> k < length energy
    \<and> t0 \<le> td_t0 (tokens' ! j) \<and> (\<forall>i. i \<noteq> j \<longrightarrow> td_t0 (tokens' ! i) = td_t0 (tokens ! i))"
proof -
  obtain b where b: "back_while_loud energy thold s0 = Some b" "b \<le> s0" using back_while_loud_total [OF assms(3)] by blast
  obtain f where f: "on_while_quiet energy thold s1 s0 = Some f" "f < length energy" using on_while_quiet_total [OF assms(3,4)] by blast
  have "t0 \<le> td_t1 (tokens ! (j - 1))" if "sample_to_timestamp b t0 < td_t1 (tokens ! (j - 1))"
    using that sample_to_timestamp_ge [of t0 b] by linarith
  moreover have "td_t1 (set_token_t0 j x tokens ! (j - 1)) = td_t1 (tokens ! (j - 1))" if "0 < j" for x
    using that by (simp add: set_token_t0_def nth_list_update)
  ultimately show ?thesis
    using assms b f by (auto simp: adjust_start_def energy_at_def Let_def sample_to_timestamp_ge intro!: voiced_set_t0)
qed

lemma adjust_end_total:
  assumes "voiced us n tokens" and "s1 < length energy"
  shows "\<exists>tokens'. adjust_end energy t0 thold j s0 s1 tokens = Some tokens' \<and> voiced us n tokens'
    \<and> (\<forall>i. td_t0 (tokens' ! i) = td_t0 (tokens ! i))"
proof -
  obtain f where f: "on_while_loud energy thold s1 = Some f" using on_while_loud_total [OF assms(2)] by blast
  obtain b where b: "back_while_quiet energy thold s0 s1 = Some b" using back_while_quiet_total [OF assms(2)] by blast
  show ?thesis
    using assms f b by (auto simp: adjust_end_def energy_at_def Let_def intro!: voiced_set_t1)
qed

definition starts_within :: "whisper_vocab \<Rightarrow> int \<Rightarrow> nat \<Rightarrow> whisper_token_data list \<Rightarrow> bool" where
  "starts_within vocab t0 i tokens \<longleftrightarrow> (\<forall>j < i. td_id (tokens ! j) < vb_token_eot vocab \<longrightarrow> t0 \<le> td_t0 (tokens ! j))"

lemma voice_step_total:
  assumes "voiced us (length us) tokens" and "j < length us" and "energy \<noteq> []" and "starts_within vocab t0 j tokens"
  shows "\<exists>tokens'. voice_step vocab energy t0 j tokens = Some tokens' \<and> voiced us (length us) tokens' \<and> starts_within vocab t0 (Suc j) tokens'"
proof (cases "td_id (tokens ! j) \<ge> vb_token_eot vocab")
  case True
  then show ?thesis using assms by (auto simp: voice_step_def starts_within_def less_Suc_eq)
next
  case False
  note len = voiced_length [OF assms(1)]
  let ?s0 = "timestamp_to_sample (td_t0 (tokens ! j)) t0 (length energy)" and ?s1 = "timestamp_to_sample (td_t1 (tokens ! j)) t0 (length energy)"
  have less: "?s0 < length energy" "?s1 < length energy" using timestamp_to_sample_less [OF assms(3)] by blast+
  obtain thold where thold: "energy_threshold energy ?s0 ?s1 = Some thold" using energy_threshold_total by blast
  obtain k tokens1 where start: "adjust_start energy t0 thold j ?s0 ?s1 tokens = Some (k, tokens1)" "voiced us (length us) tokens1"
    "t0 \<le> td_t0 (tokens1 ! j)" "\<forall>i. i \<noteq> j \<longrightarrow> td_t0 (tokens1 ! i) = td_t0 (tokens ! i)"
    using adjust_start_total [OF assms(1) _ less] assms(2) len by metis
  obtain tokens2 where fin: "adjust_end energy t0 thold j k ?s1 tokens1 = Some tokens2" "voiced us (length us) tokens2"
    "\<forall>i. td_t0 (tokens2 ! i) = td_t0 (tokens1 ! i)"
    using adjust_end_total [OF start(2) less(2)] by metis
  have "td_id (tokens2 ! i) = td_id (tokens ! i)" if "i < length us" for i
    using voiced_nth(1) [OF fin(2), of i] voiced_nth(1) [OF assms(1), of i] voiced_length [OF fin(2)] len that by simp
  then have "starts_within vocab t0 (Suc j) tokens2"
    using assms(2,4) start(3,4) fin(3) by (auto simp: starts_within_def less_Suc_eq)
  then show ?thesis
    using False thold start(1) fin(1,2) by (auto simp: voice_step_def Let_def)
qed

lemma token_times_total:
  assumes "\<forall>t \<in> set (sg_tokens segment). spelled vocab t" and "energy \<noteq> []" and "2 \<le> length (sg_tokens segment)"
  shows "\<exists>tokens clock'. whisper_exp_compute_token_level_timestamps vocab energy thold_pt thold_ptsum (segment, clock)
      = Some (segment\<lparr>sg_tokens := tokens\<rparr>, clock')
    \<and> map untimed tokens = map untimed (sg_tokens segment) \<and> tc_t_last clock' = sg_t1 segment
    \<and> starts_within vocab (sg_t0 segment) (length tokens) tokens"
proof -
  define us where "us = map untimed (sg_tokens segment)"
  define n where "n = length (sg_tokens segment)"
  have len: "length us = n" by (simp add: us_def n_def)
  have sp: "\<forall>u \<in> set us. spelled vocab u" using assms(1) by (auto simp: us_def spelled_untimed)
  have "\<exists>st. for_range_opt 0 n (known_step vocab segment thold_pt thold_ptsum) (sg_tokens segment, clock) = Some st \<and> voiced us n (fst st)"
  proof (rule for_range_opt_total [where P = "\<lambda>i st. voiced us i (fst st)"])
    show "voiced us 0 (fst (sg_tokens segment, clock))" by (simp add: voiced_def us_def)
    show "\<exists>s'. known_step vocab segment thold_pt thold_ptsum i s = Some s' \<and> voiced us (Suc i) (fst s')"
      if "0 \<le> i" "i < n" "voiced us i (fst s)" for i s
      using known_step_voiced [of us i "fst s" vocab segment thold_pt thold_ptsum "snd s"] that sp len by auto
  qed simp
  then obtain st where first: "for_range_opt 0 n (known_step vocab segment thold_pt thold_ptsum) (sg_tokens segment, clock) = Some st" "voiced us n (fst st)"
    by blast
  obtain tokens1 clock1 where st: "st = (tokens1, clock1)" by force
  let ?tokens2 = "set_token_t1 (n - 1) (sg_t1 segment) (set_token_t0 (n - 1) (sg_t1 segment) (set_token_t1 (n - 2) (sg_t1 segment) tokens1))"
  have "voiced us n ?tokens2" using first(2) st by (auto intro!: voiced_set_t0 voiced_set_t1)
  from fill_intervals_voiced [OF this len [symmetric], of 0]
  obtain tokens3 where fill: "fill_intervals n 0 ?tokens2 = Some tokens3" "voiced us n tokens3" by blast
  have fixed: "voiced us n (for_range 0 (n - 1) fixup_step tokens3)"
    by (rule for_range_invariant [where P = "\<lambda>_. voiced us n"]) (simp_all add: fill(2) fixup_step_voiced)
  have "\<exists>s'. for_range_opt 0 n (voice_step vocab energy (sg_t0 segment)) (for_range 0 (n - 1) fixup_step tokens3) = Some s'
      \<and> voiced us n s' \<and> starts_within vocab (sg_t0 segment) n s'"
  proof (rule for_range_opt_total [where P = "\<lambda>i tokens. voiced us n tokens \<and> starts_within vocab (sg_t0 segment) i tokens"])
    show "\<exists>s'. voice_step vocab energy (sg_t0 segment) i s = Some s' \<and> voiced us n s' \<and> starts_within vocab (sg_t0 segment) (Suc i) s'"
      if "0 \<le> i" "i < n" "voiced us n s \<and> starts_within vocab (sg_t0 segment) i s" for i s
      using voice_step_total [of us s i energy vocab "sg_t0 segment"] that assms(2) len by auto
  qed (use fixed in \<open>simp_all add: starts_within_def\<close>)
  then obtain tokens4 where voice: "for_range_opt 0 n (voice_step vocab energy (sg_t0 segment)) (for_range 0 (n - 1) fixup_step tokens3) = Some tokens4"
    "voiced us n tokens4" "starts_within vocab (sg_t0 segment) n tokens4" by blast
  have "length tokens4 = n" using voiced_length [OF voice(2)] len by simp
  moreover have "map untimed tokens4 = map untimed (sg_tokens segment)" using voice(2) by (simp add: voiced_def us_def)
  moreover have "whisper_exp_compute_token_level_timestamps vocab energy thold_pt thold_ptsum (segment, clock)
      = Some (segment\<lparr>sg_tokens := tokens4\<rparr>, clock1\<lparr>tc_t_last := sg_t1 segment\<rparr>)"
    unfolding whisper_exp_compute_token_level_timestamps_def Let_def prod.case n_def [symmetric] first(1) [unfolded st]
    using assms(2,3) fill(1) voice(1) by (simp flip: n_def)
  ultimately show ?thesis using voice(3) by auto
qed

lemma token_times_return:
  assumes "\<forall>t \<in> set (sg_tokens segment). \<exists>str. whisper_token_to_str vocab (td_id t) = Some str \<and> str \<noteq> []"
  shows "\<exists>tokens clock'. whisper_exp_compute_token_level_timestamps vocab energy thold_pt thold_ptsum (segment, clock)
      = Some (segment\<lparr>sg_tokens := tokens\<rparr>, clock')
    \<and> map untimed tokens = map untimed (sg_tokens segment)
    \<and> (energy \<noteq> [] \<and> 1 \<le> length tokens \<longrightarrow>
          (\<forall>t \<in> set tokens. td_id t < vb_token_eot vocab \<longrightarrow> sg_t0 segment \<le> td_t0 t)
        \<and> (2 \<le> length tokens \<longrightarrow> tc_t_last clock' = sg_t1 segment))"
proof -
  consider "energy = [] \<or> sg_tokens segment = []" | "energy \<noteq> []" "length (sg_tokens segment) = 1" | "energy \<noteq> []" "2 \<le> length (sg_tokens segment)"
  proof -
    have "length (sg_tokens segment) = 0 \<or> length (sg_tokens segment) = 1 \<or> 2 \<le> length (sg_tokens segment)" by arith
    then show thesis using that by fastforce
  qed
  then show ?thesis
  proof cases
    case 1
    then show ?thesis by (auto simp: whisper_exp_compute_token_level_timestamps_def Let_def intro!: exI [of _ "sg_tokens segment"])
  next
    case 2
    then obtain t where "sg_tokens segment = [t]" by (auto simp: length_Suc_conv)
    with 2 show ?thesis
      by (auto simp: whisper_exp_compute_token_level_timestamps_def Let_def set_token_t0_def set_token_t1_def)
  next
    case 3
    then show ?thesis
      using token_times_total [of segment vocab energy thold_pt thold_ptsum clock] assms
      by (force simp: spelled_def starts_within_def in_set_conv_nth)
  qed
qed

text \<open>C37: Token-level timestamps are computed safely. If every token of the segment has a text, the function
  returns: every access to the signal energy is within it and no time is computed from a \<open>NaN\<close>. It changes nothing
  but the times and voice lengths of the tokens, and no text token starts before its segment.\<close>

theorem token_times_safe:
  assumes "\<forall>t \<in> set (sg_tokens segment). \<exists>str. whisper_token_to_str vocab (td_id t) = Some str \<and> str \<noteq> []"
  shows "\<exists>tokens clock'. whisper_exp_compute_token_level_timestamps vocab energy thold_pt thold_ptsum (segment, clock)
      = Some (segment\<lparr>sg_tokens := tokens\<rparr>, clock')
    \<and> map untimed tokens = map untimed (sg_tokens segment)
    \<and> (energy \<noteq> [] \<and> 1 \<le> length tokens \<longrightarrow>
          (\<forall>t \<in> set tokens. td_id t < vb_token_eot vocab \<longrightarrow> sg_t0 segment \<le> td_t0 t)
        \<and> (2 \<le> length tokens \<longrightarrow> tc_t_last clock' = sg_t1 segment))"
  by (rule token_times_return [OF assms])

definition example_words :: whisper_vocab where
  "example_words = example_vocab\<lparr>vb_id_to_token := [(0, ascii ''a''), (1, ascii ''b'')]\<rparr>"

definition example_segment :: "int \<Rightarrow> int \<Rightarrow> whisper_segment" where
  "example_segment t0 t1 = \<lparr>sg_t0 = t0, sg_t1 = t1, sg_text = ascii ''ab'', sg_no_speech_prob = 0,
     sg_tokens = map (\<lambda>i. \<lparr>td_id = i, td_tid = 110, td_p = 1, td_plog = 0, td_pt = 0, td_ptsum = 0, td_t0 = - 1, td_t1 = - 1, td_t_dtw = - 1, td_vlen = 0\<rparr>) [0, 1],
     sg_speaker_turn_next = False\<rparr>"

theorem token_times_safe_witness:
  "\<exists>tokens clock'. whisper_exp_compute_token_level_timestamps example_words (replicate 1000 1) 0 0
      (example_segment 0 5, \<lparr>tc_t_beg = 0, tc_t_last = 0, tc_tid_last = 0\<rparr>) = Some ((example_segment 0 5)\<lparr>sg_tokens := tokens\<rparr>, clock')"
proof -
  have "\<forall>t \<in> set (sg_tokens (example_segment 0 5)). \<exists>str. whisper_token_to_str example_words (td_id t) = Some str \<and> str \<noteq> []"
    by (simp add: example_segment_def example_words_def whisper_token_to_str_def ascii_def)
  from token_times_safe [OF this, of "replicate 1000 1" 0 0 "\<lparr>tc_t_beg = 0, tc_t_last = 0, tc_tid_last = 0\<rparr>"] show ?thesis by blast
qed

text \<open>The energy is that of the whole recording, but the samples of a segment are looked up relative to its
  start: wherever the segment begins, its start is looked up at the start of the recording.\<close>

lemma segment_start_is_sample_zero: "timestamp_to_sample t0 t0 n_samples = 0"
  by (simp add: timestamp_to_sample_def tdiv_def)

end
