(* ===== verification/Segments.thy ===== *)
theory Segments
  imports Complex_Main Prelude TokenTimes "HOL-Library.Monad_Syntax"
begin

text \<open>
  From a decoded sequence to segments of text in Whisper/src/whisper.cpp: the end of a window of
  \<open>whisper_full_with_state\<close>, with \<open>whisper_wrap_segment\<close>. \<open>None\<close> is an exception (a token without a
  text) or undefined behaviour in the computation of the token times. Printing is not modelled; the calls of the
  callback for new segments are logged with their argument. The theorems: wrapping only cuts a segment, and
  no text of a decoded sequence is lost or reordered.
\<close>

section \<open>Wrapping a segment\<close>

definition should_split_on_word :: "u8 list \<Rightarrow> bool \<Rightarrow> bool" where
  "should_split_on_word txt split_on_word \<longleftrightarrow> \<not> split_on_word \<or> (txt \<noteq> [] \<and> hd txt = 0x20)"

definition utf8_len :: "u8 list \<Rightarrow> int" where
  "utf8_len str = fold (\<lambda>b count. if b AND 0xC0 \<noteq> 0x80 then count + 1 else count) str 0"

function wrap_loop :: "whisper_vocab \<Rightarrow> int \<Rightarrow> bool \<Rightarrow> nat \<Rightarrow> int \<Rightarrow> u8 list \<Rightarrow> whisper_segment list \<Rightarrow> whisper_segment \<Rightarrow> int
    \<Rightarrow> (whisper_segment list \<times> int) option" where
  "wrap_loop vocab max_len split_on_word i acc txts finished segment res =
     (if i < length (sg_tokens segment)
      then
        let token = sg_tokens segment ! i
        in if td_id token \<ge> vb_token_eot vocab
           then wrap_loop vocab max_len split_on_word (i + 1) acc txts finished segment res
           else do {
             txt \<leftarrow> whisper_token_to_str vocab (td_id token);
             let cur = utf8_len txt;
             if acc + cur > max_len \<and> i > 0 \<and> should_split_on_word txt split_on_word
             then wrap_loop vocab max_len split_on_word 0 0 []
               (finished @ [segment\<lparr>sg_text := txts, sg_t1 := td_t0 token, sg_tokens := take i (sg_tokens segment), sg_speaker_turn_next := False\<rparr>])
               \<lparr>sg_t0 = td_t0 token, sg_t1 = sg_t1 segment, sg_text = [], sg_no_speech_prob = 0, sg_tokens = drop i (sg_tokens segment),
                 sg_speaker_turn_next = sg_speaker_turn_next segment\<rparr> (res + 1)
             else wrap_loop vocab max_len split_on_word (i + 1) (acc + cur) (txts @ txt) finished segment res
           }
      else Some (finished @ [segment\<lparr>sg_text := txts\<rparr>], res))"
  by pat_completeness auto
termination
  by (relation "measures [\<lambda>(vocab, max_len, split_on_word, i, acc, txts, finished, segment, res). length (sg_tokens segment),
        \<lambda>(vocab, max_len, split_on_word, i, acc, txts, finished, segment, res). length (sg_tokens segment) - i]") auto

declare wrap_loop.simps [simp del]

text \<open>The last segment of \<open>result_all\<close> is replaced; the other ones stay.\<close>

definition whisper_wrap_segment :: "whisper_vocab \<Rightarrow> int \<Rightarrow> bool \<Rightarrow> whisper_segment list \<Rightarrow> (whisper_segment list \<times> int) option" where
  "whisper_wrap_segment vocab max_len split_on_word result_all =
     wrap_loop vocab max_len split_on_word 0 0 [] (butlast result_all) (last result_all) 1"

section \<open>The segments of a window\<close>

record segment_log =
  sl_results :: "whisper_segment list"
  sl_clock :: token_clock
  sl_calls :: "int list"

definition emit_segment :: "whisper_full_params \<Rightarrow> whisper_vocab \<Rightarrow> bool \<Rightarrow> real list \<Rightarrow> whisper_segment \<Rightarrow> segment_log \<Rightarrow> segment_log option" where
  "emit_segment params vocab dtw energy segment st = do {
     (results, n_new, clock) \<leftarrow>
       (if fp_token_timestamps params
        then do {
          (segment, clock) \<leftarrow> whisper_exp_compute_token_level_timestamps vocab energy (fp_thold_pt params) (fp_thold_ptsum params) (segment, sl_clock st);
          (results, n_new) \<leftarrow>
            (if fp_max_len params > 0
             then whisper_wrap_segment vocab (fp_max_len params) (fp_split_on_word params) (sl_results st @ [segment])
             else Some (sl_results st @ [segment], 1));
          Some (results, n_new, clock)
        }
        else Some (sl_results st @ [segment], 1, sl_clock st));
     Some \<lparr>sl_results = results, sl_clock = clock,
       sl_calls = (if fp_new_segment_callback params \<noteq> None \<and> \<not> dtw then sl_calls st @ [n_new] else sl_calls st)\<rparr>
   }"

definition timestamp_of :: "whisper_vocab \<Rightarrow> int \<Rightarrow> whisper_token_data \<Rightarrow> int" where
  "timestamp_of vocab seek token = seek + 2 * (td_tid token - vb_token_beg vocab)"

fun skip_timestamps :: "whisper_vocab \<Rightarrow> bool \<Rightarrow> int \<Rightarrow> whisper_token_data list \<Rightarrow> u8 list \<Rightarrow> int
    \<Rightarrow> (whisper_token_data list \<times> u8 list \<times> int) option" where
  "skip_timestamps vocab print_special seek [] txts t0 = Some ([], txts, t0)"
| "skip_timestamps vocab print_special seek (token # tokens) txts t0 =
     (if td_id token > vb_token_beg vocab
      then do {
        txts \<leftarrow> (if print_special then map_option ((@) txts) (whisper_token_to_str vocab (td_id token)) else Some txts);
        skip_timestamps vocab print_special seek tokens txts (timestamp_of vocab seek token)
      }
      else Some (token # tokens, txts, t0))"

lemma skip_timestamps_length:
  "skip_timestamps vocab print_special seek tokens txts t0 = Some (rest, txts', t0') \<Longrightarrow> length rest \<le> length tokens"
  by (induction vocab print_special seek tokens txts t0 rule: skip_timestamps.induct)
    (auto split: if_splits simp: bind_eq_Some_conv)

text \<open>The loop over the tokens of the best sequence: \<open>pending\<close> are the tokens from \<open>i0\<close> on.\<close>

function segment_loop :: "whisper_full_params \<Rightarrow> whisper_vocab \<Rightarrow> bool \<Rightarrow> real list \<Rightarrow> real \<Rightarrow> int \<Rightarrow> whisper_token_data list
    \<Rightarrow> whisper_token_data list \<Rightarrow> u8 list \<Rightarrow> int \<Rightarrow> bool \<Rightarrow> segment_log
    \<Rightarrow> (whisper_token_data list \<times> u8 list \<times> int \<times> bool \<times> segment_log) option" where
  "segment_loop params vocab dtw energy no_speech_prob seek [] pending txts t0 turn st = Some (pending, txts, t0, turn, st)"
| "segment_loop params vocab dtw energy no_speech_prob seek (token # tokens) pending txts t0 turn st = do {
     txts \<leftarrow> (if fp_print_special params \<or> td_id token < vb_token_eot vocab
             then map_option ((@) txts) (whisper_token_to_str vocab (td_id token)) else Some txts);
     let turn = (turn \<or> (fp_tdrz_enable params \<and> td_id token = vb_token_solm vocab));
     if td_id token > vb_token_beg vocab \<and> \<not> fp_single_segment params
     then do {
       let t1 = timestamp_of vocab seek token;
       st \<leftarrow> (if txts \<noteq> []
              then emit_segment params vocab dtw energy \<lparr>sg_t0 = t0, sg_t1 = t1, sg_text = txts, sg_no_speech_prob = no_speech_prob,
                     sg_tokens = pending @ [token], sg_speaker_turn_next = turn\<rparr> st
              else Some st);
       (tokens, txts, t0) \<leftarrow> skip_timestamps vocab (fp_print_special params) seek tokens [] t1;
       segment_loop params vocab dtw energy no_speech_prob seek tokens [] txts t0 False st
     }
     else segment_loop params vocab dtw energy no_speech_prob seek tokens (pending @ [token]) txts t0 turn st
   }"
  by pat_completeness auto
termination
  by (relation "measure (\<lambda>(params, vocab, dtw, energy, no_speech_prob, seek, tokens, _). length tokens)")
    (auto dest!: skip_timestamps_length)

definition window_segments :: "whisper_full_params \<Rightarrow> whisper_vocab \<Rightarrow> bool \<Rightarrow> real list \<Rightarrow> real \<Rightarrow> int \<Rightarrow> int
    \<Rightarrow> whisper_token_data list \<Rightarrow> segment_log \<Rightarrow> segment_log option" where
  "window_segments params vocab dtw energy no_speech_prob seek seek_delta tokens_cur st =
     (if tokens_cur = [] then Some st
      else do {
        (pending, txts, t0, turn, st) \<leftarrow> segment_loop params vocab dtw energy no_speech_prob seek tokens_cur [] []
            (timestamp_of vocab seek (hd tokens_cur)) False st;
        if txts \<noteq> []
        then emit_segment params vocab dtw energy \<lparr>sg_t0 = t0, sg_t1 = seek + seek_delta, sg_text = txts, sg_no_speech_prob = no_speech_prob,
               sg_tokens = pending, sg_speaker_turn_next = turn\<rparr> st
        else Some st
      })"

section \<open>Spelling\<close>

definition text_token :: "whisper_vocab \<Rightarrow> whisper_token_data \<Rightarrow> bool" where
  "text_token vocab token \<longleftrightarrow> td_id token < vb_token_eot vocab"

definition token_text :: "whisper_vocab \<Rightarrow> whisper_token_data \<Rightarrow> u8 list" where
  "token_text vocab token = (case whisper_token_to_str vocab (td_id token) of None \<Rightarrow> [] | Some str \<Rightarrow> str)"

definition spelling :: "whisper_vocab \<Rightarrow> whisper_token_data list \<Rightarrow> u8 list" where
  "spelling vocab tokens = concat (map (token_text vocab) (filter (text_token vocab) tokens))"

lemma spelling_simps [simp]:
  "spelling vocab [] = []" "spelling vocab (as @ bs) = spelling vocab as @ spelling vocab bs"
  "spelling vocab [t] = (if text_token vocab t then token_text vocab t else [])"
  by (simp_all add: spelling_def)

lemma spelled_text: "spelled vocab t \<Longrightarrow> whisper_token_to_str vocab (td_id t) = Some (token_text vocab t)"
  by (auto simp: spelled_def token_text_def)

lemma spelling_take_Suc:
  "i < length tokens \<Longrightarrow> spelling vocab (take (Suc i) tokens)
     = spelling vocab (take i tokens) @ (if text_token vocab (tokens ! i) then token_text vocab (tokens ! i) else [])"
  by (simp add: take_Suc_conv_app_nth)

lemma utf8_len_append [simp]: "utf8_len (a @ b) = utf8_len a + utf8_len b"
proof -
  have "fold (\<lambda>b count. if b AND 0xC0 \<noteq> 0x80 then count + 1 else count) bs x = x + int (length (filter (\<lambda>b. b AND 0xC0 \<noteq> 0x80) bs))"
    for x and bs :: "u8 list"
    by (induction bs arbitrary: x) auto
  then show ?thesis by (simp add: utf8_len_def)
qed

section \<open>Wrapping only cuts\<close>

text \<open>The pieces a segment is cut into.\<close>

definition cut_pieces :: "whisper_vocab \<Rightarrow> int \<Rightarrow> bool \<Rightarrow> whisper_segment \<Rightarrow> whisper_segment list \<Rightarrow> bool" where
  "cut_pieces vocab max_len split_on_word segment pieces \<longleftrightarrow>
     pieces \<noteq> [] \<and> concat (map sg_tokens pieces) = sg_tokens segment
   \<and> (\<forall>p \<in> set pieces. sg_text p = spelling vocab (sg_tokens p))
   \<and> sg_t0 (hd pieces) = sg_t0 segment \<and> sg_t1 (last pieces) = sg_t1 segment
   \<and> (\<forall>k. Suc k < length pieces \<longrightarrow> sg_t1 (pieces ! k) = sg_t0 (pieces ! Suc k) \<and> \<not> sg_speaker_turn_next (pieces ! k))
   \<and> sg_speaker_turn_next (last pieces) = sg_speaker_turn_next segment
   \<and> sg_no_speech_prob (hd pieces) = sg_no_speech_prob segment \<and> (\<forall>p \<in> set (tl pieces). sg_no_speech_prob p = 0)
   \<and> (\<not> split_on_word \<longrightarrow> (\<forall>p \<in> set pieces. utf8_len (sg_text p) \<le> max_len \<or> sg_text p = token_text vocab (hd (sg_tokens p))))"

lemma cut_pieces_Cons:
  assumes "cut_pieces vocab max_len split_on_word rest pieces"
    and "sg_tokens segment = sg_tokens piece @ sg_tokens rest" and "sg_text piece = spelling vocab (sg_tokens piece)"
    and "sg_t0 piece = sg_t0 segment" and "sg_t1 piece = sg_t0 rest" and "sg_t1 rest = sg_t1 segment"
    and "sg_no_speech_prob piece = sg_no_speech_prob segment" and "sg_no_speech_prob rest = 0" and "\<not> sg_speaker_turn_next piece" and "sg_speaker_turn_next rest = sg_speaker_turn_next segment"
    and "\<not> split_on_word \<longrightarrow> utf8_len (sg_text piece) \<le> max_len \<or> sg_text piece = token_text vocab (hd (sg_tokens piece))"
  shows "cut_pieces vocab max_len split_on_word segment (piece # pieces)"
proof -
  have "sg_t1 ((piece # pieces) ! k) = sg_t0 ((piece # pieces) ! Suc k) \<and> \<not> sg_speaker_turn_next ((piece # pieces) ! k)"
    if "Suc k < length (piece # pieces)" for k
    using assms that by (cases k) (auto simp: cut_pieces_def hd_conv_nth)
  moreover have "\<forall>p \<in> set pieces. sg_no_speech_prob p = 0"
    using assms by (cases pieces) (auto simp: cut_pieces_def)
  ultimately show ?thesis using assms by (auto simp: cut_pieces_def)
qed

text \<open>\<open>acc\<close> and \<open>txts\<close> stand for the text tokens before \<open>i\<close>, which fit unless there is only the first.\<close>

lemma wrap_loop_cuts:
  assumes "\<forall>t \<in> set (sg_tokens segment). text_token vocab t \<longrightarrow> spelled vocab t"
    and "i \<le> length (sg_tokens segment)" and "txts = spelling vocab (take i (sg_tokens segment))" and "acc = utf8_len txts"
    and "\<not> split_on_word \<longrightarrow> utf8_len txts \<le> max_len \<or> txts = token_text vocab (hd (sg_tokens segment))"
    and "0 \<le> max_len"
  shows "\<exists>pieces. wrap_loop vocab max_len split_on_word i acc txts finished segment res
       = Some (finished @ pieces, res + int (length pieces) - 1)
     \<and> cut_pieces vocab max_len split_on_word segment pieces"
  using assms
proof (induction vocab max_len split_on_word i acc txts finished segment res rule: wrap_loop.induct)
  case (1 vocab max_len split_on_word i acc txts finished segment res)
  note IH_skip = 1(1) and IH_split = 1(2) and IH_next = 1(3) and prems = 1(4-9)
  let ?tokens = "sg_tokens segment"
  show ?case
  proof (cases "i < length ?tokens")
    case False
    then have "take i ?tokens = ?tokens" by simp
    then show ?thesis
      using prems False by (subst wrap_loop.simps) (auto simp: cut_pieces_def intro!: exI [of _ "[segment\<lparr>sg_text := txts\<rparr>]"])
  next
    case True
    let ?token = "?tokens ! i"
    show ?thesis
    proof (cases "text_token vocab ?token")
      case False
      then have eot: "vb_token_eot vocab \<le> td_id ?token" by (simp add: text_token_def)
      have "\<exists>pieces. wrap_loop vocab max_len split_on_word (i + 1) acc txts finished segment res
          = Some (finished @ pieces, res + int (length pieces) - 1) \<and> cut_pieces vocab max_len split_on_word segment pieces"
        by (rule IH_skip [OF True refl eot]) (use prems True False in \<open>auto simp: spelling_take_Suc\<close>)
      then show ?thesis using True eot by (subst wrap_loop.simps) simp
    next
      case readable: True
      then have eot: "\<not> vb_token_eot vocab \<le> td_id ?token" by (simp add: text_token_def)
      have str: "whisper_token_to_str vocab (td_id ?token) = Some (token_text vocab ?token)"
        using prems(1) True readable by (auto intro: spelled_text)
      let ?txt = "token_text vocab ?token"
      show ?thesis
      proof (cases "acc + utf8_len ?txt > max_len \<and> i > 0 \<and> should_split_on_word ?txt split_on_word")
        case split: True
        let ?piece = "segment\<lparr>sg_text := txts, sg_t1 := td_t0 ?token, sg_tokens := take i ?tokens, sg_speaker_turn_next := False\<rparr>"
        let ?rest = "\<lparr>sg_t0 = td_t0 ?token, sg_t1 = sg_t1 segment, sg_text = [], sg_no_speech_prob = 0, sg_tokens = drop i ?tokens,
          sg_speaker_turn_next = sg_speaker_turn_next segment\<rparr>"
        have "\<exists>pieces. wrap_loop vocab max_len split_on_word 0 0 [] (finished @ [?piece]) ?rest (res + 1)
            = Some ((finished @ [?piece]) @ pieces, res + 1 + int (length pieces) - 1) \<and> cut_pieces vocab max_len split_on_word ?rest pieces"
          by (rule IH_split [OF True refl eot str refl split]) (use prems in \<open>auto simp: utf8_len_def dest: in_set_dropD\<close>)
        then obtain pieces where p: "wrap_loop vocab max_len split_on_word 0 0 [] (finished @ [?piece]) ?rest (res + 1)
            = Some ((finished @ [?piece]) @ pieces, res + 1 + int (length pieces) - 1)" "cut_pieces vocab max_len split_on_word ?rest pieces"
          by blast
        have "cut_pieces vocab max_len split_on_word segment (?piece # pieces)"
          by (rule cut_pieces_Cons [OF p(2)]) (use prems split in \<open>auto simp: hd_take\<close>)
        then show ?thesis
          using True eot str split p(1) by (subst wrap_loop.simps) (auto simp: Let_def)
      next
        case whole: False
        have "\<exists>pieces. wrap_loop vocab max_len split_on_word (i + 1) (acc + utf8_len ?txt) (txts @ ?txt) finished segment res
            = Some (finished @ pieces, res + int (length pieces) - 1) \<and> cut_pieces vocab max_len split_on_word segment pieces"
          by (rule IH_next [OF True refl eot str refl whole])
            (use prems True readable whole in \<open>auto simp: spelling_take_Suc should_split_on_word_def hd_conv_nth\<close>)
        then show ?thesis
          using True eot str whole by (subst wrap_loop.simps) (auto simp: Let_def)
      qed
    qed
  qed
qed

section \<open>No text is lost\<close>

lemma spelling_untimed: "map untimed as = map untimed bs \<Longrightarrow> spelling vocab as = spelling vocab bs"
proof (induction as arbitrary: bs)
  case (Cons a as)
  then obtain b bs' where [simp]: "bs = b # bs'" "untimed a = untimed b" "map untimed as = map untimed bs'" by auto
  then have "td_id a = td_id b" using spelled_untimed(2) by metis
  then show ?case using Cons.IH [of bs'] by (simp add: spelling_def text_token_def token_text_def)
qed simp

lemma spelled_map_untimed: "map untimed as = map untimed bs \<Longrightarrow> \<forall>t \<in> set bs. spelled vocab t \<Longrightarrow> \<forall>t \<in> set as. spelled vocab t"
  by (metis (no_types, opaque_lifting) imageE image_eqI image_set spelled_untimed(1))

lemma filter_text_untimed: "map untimed (filter (text_token vocab) ts) = filter (text_token vocab) (map untimed ts)"
  by (induction ts) (simp_all add: text_token_def spelled_untimed(2))

lemma spelling_concat: "spelling vocab (concat tss) = concat (map (spelling vocab) tss)"
  by (induction tss) simp_all

lemma spelling_empty: "\<forall>t \<in> set ts. spelled vocab t \<Longrightarrow> spelling vocab ts = [] \<longleftrightarrow> filter (text_token vocab) ts = []"
  by (induction ts) (auto simp: spelling_def spelled_def token_text_def)

text \<open>The new segments, what they say and the calls of the callback.\<close>

definition emitted :: "whisper_full_params \<Rightarrow> whisper_vocab \<Rightarrow> bool \<Rightarrow> segment_log \<Rightarrow> segment_log \<Rightarrow> whisper_segment list \<Rightarrow> bool" where
  "emitted params vocab dtw st st' new \<longleftrightarrow>
     sl_results st' = sl_results st @ new \<and> (\<forall>s \<in> set new. sg_text s = spelling vocab (sg_tokens s))
   \<and> (fp_new_segment_callback params \<noteq> None \<and> \<not> dtw \<longrightarrow> sum_list (sl_calls st') = sum_list (sl_calls st) + int (length new))"

lemma emitted_trans: "emitted params vocab dtw a b new \<Longrightarrow> emitted params vocab dtw b c new' \<Longrightarrow> emitted params vocab dtw a c (new @ new')"
  by (auto simp: emitted_def)

lemma emitted_none [simp]: "emitted params vocab dtw a a []"
  by (simp add: emitted_def)

lemma emitted_one:
  assumes "sg_text s = spelling vocab (sg_tokens s)" and "sl_results st' = sl_results st @ [s]"
    and "sl_calls st' = (if fp_new_segment_callback params \<noteq> None \<and> \<not> dtw then sl_calls st @ [1] else sl_calls st)"
  shows "emitted params vocab dtw st st' [s]"
  using assms by (simp add: emitted_def)

lemma emit_segment_total:
  assumes "\<forall>t \<in> set (sg_tokens segment). spelled vocab t" and "sg_text segment = spelling vocab (sg_tokens segment)"
  shows "\<exists>st' new. emit_segment params vocab dtw energy segment st = Some st' \<and> emitted params vocab dtw st st' new
    \<and> map untimed (concat (map sg_tokens new)) = map untimed (sg_tokens segment)"
proof (cases "fp_token_timestamps params")
  case False
  then show ?thesis
    using assms(2) by (auto simp: emit_segment_def intro!: emitted_one exI [of _ "[segment]"])
next
  case True
  obtain tokens clock where times: "whisper_exp_compute_token_level_timestamps vocab energy (fp_thold_pt params) (fp_thold_ptsum params) (segment, sl_clock st)
      = Some (segment\<lparr>sg_tokens := tokens\<rparr>, clock)" "map untimed tokens = map untimed (sg_tokens segment)"
    using token_times_return [of segment vocab energy "fp_thold_pt params" "fp_thold_ptsum params" "sl_clock st"] assms(1)
    unfolding spelled_def by blast
  let ?segment = "segment\<lparr>sg_tokens := tokens\<rparr>"
  have sp: "spelling vocab (sg_tokens segment) = spelling vocab tokens" using spelling_untimed [OF times(2)] by simp
  show ?thesis
  proof (cases "fp_max_len params > 0")
    case False
    then show ?thesis
      using True times assms(2) sp by (auto simp: emit_segment_def intro!: emitted_one exI [of _ "[?segment]"])
  next
    case wrap: True
    have "\<exists>pieces. wrap_loop vocab (fp_max_len params) (fp_split_on_word params) 0 0 [] (sl_results st) ?segment 1
        = Some (sl_results st @ pieces, 1 + int (length pieces) - 1) \<and> cut_pieces vocab (fp_max_len params) (fp_split_on_word params) ?segment pieces"
      by (rule wrap_loop_cuts)
        (use spelled_map_untimed [OF times(2) assms(1)] wrap in \<open>auto simp: utf8_len_def\<close>)
    then obtain pieces where pieces: "whisper_wrap_segment vocab (fp_max_len params) (fp_split_on_word params) (sl_results st @ [?segment])
        = Some (sl_results st @ pieces, int (length pieces))" "cut_pieces vocab (fp_max_len params) (fp_split_on_word params) ?segment pieces"
      by (auto simp: whisper_wrap_segment_def)
    then show ?thesis
      using True wrap times by (auto simp: emit_segment_def emitted_def cut_pieces_def intro!: exI [of _ pieces])
  qed
qed

lemma skip_timestamps_plain:
  "\<exists>rest skipped t0'. skip_timestamps vocab False seek tokens txts t0 = Some (rest, txts, t0')
     \<and> tokens = skipped @ rest \<and> (\<forall>t \<in> set skipped. td_id t > vb_token_beg vocab)"
proof (induction tokens arbitrary: t0)
  case (Cons token tokens)
  show ?case
  proof (cases "td_id token > vb_token_beg vocab")
    case True
    obtain rest skipped t0' where "skip_timestamps vocab False seek tokens txts (timestamp_of vocab seek token) = Some (rest, txts, t0')"
      "tokens = skipped @ rest" "\<forall>t \<in> set skipped. td_id t > vb_token_beg vocab"
      using Cons.IH by blast
    with True show ?thesis by (auto intro!: exI [of _ "token # skipped"])
  qed auto
qed simp

lemma segment_loop_total:
  assumes "\<not> fp_print_special params" and "vb_token_eot vocab \<le> vb_token_beg vocab"
    and "\<forall>t \<in> set (pending @ tokens). spelled vocab t" and "txts = spelling vocab pending"
  shows "\<exists>new pending' t0' turn' st'. segment_loop params vocab dtw energy nsp seek tokens pending txts t0 turn st
      = Some (pending', spelling vocab pending', t0', turn', st')
    \<and> emitted params vocab dtw st st' new \<and> (\<forall>t \<in> set pending'. spelled vocab t)
    \<and> map untimed (filter (text_token vocab) (concat (map sg_tokens new) @ pending')) = map untimed (filter (text_token vocab) (pending @ tokens))"
  using assms
proof (induction params vocab dtw energy nsp seek tokens pending txts t0 turn st rule: segment_loop.induct)
  case (1 params vocab dtw energy nsp seek pending txts t0 turn st)
  then show ?case by (auto intro!: exI [of _ "[]"])
next
  case (2 params vocab dtw energy nsp seek token tokens pending txts t0 turn st)
  note IH_stamp = 2(1) and IH_next = 2(2) and prems = 2(3-6)
  let ?txts = "spelling vocab (pending @ [token])"
  have sp: "spelled vocab token" "\<forall>t \<in> set (pending @ [token]). spelled vocab t" using prems(3) by auto
  have txts: "(if fp_print_special params \<or> td_id token < vb_token_eot vocab
      then map_option ((@) txts) (whisper_token_to_str vocab (td_id token)) else Some txts) = Some ?txts"
    using prems(1,4) spelled_text [OF sp(1)] by (simp add: text_token_def)
  let ?turn = "turn \<or> (fp_tdrz_enable params \<and> td_id token = vb_token_solm vocab)"
  show ?case
  proof (cases "td_id token > vb_token_beg vocab \<and> \<not> fp_single_segment params")
    case True
    let ?t1 = "timestamp_of vocab seek token"
    let ?segment = "\<lparr>sg_t0 = t0, sg_t1 = ?t1, sg_text = ?txts, sg_no_speech_prob = nsp, sg_tokens = pending @ [token], sg_speaker_turn_next = ?turn\<rparr>"
    have "\<exists>st1 new. (if ?txts \<noteq> [] then emit_segment params vocab dtw energy ?segment st else Some st) = Some st1
        \<and> emitted params vocab dtw st st1 new
        \<and> map untimed (filter (text_token vocab) (concat (map sg_tokens new))) = map untimed (filter (text_token vocab) (pending @ [token]))"
    proof (cases "?txts = []")
      case True
      then have "filter (text_token vocab) (pending @ [token]) = []" using spelling_empty [OF sp(2)] by simp
      then show ?thesis using True by (auto intro!: exI [of _ "[]"])
    next
      case False
      obtain st1 new where e: "emit_segment params vocab dtw energy ?segment st = Some st1" "emitted params vocab dtw st st1 new"
        "map untimed (concat (map sg_tokens new)) = map untimed (pending @ [token])"
        using emit_segment_total [of ?segment vocab params dtw energy st] sp(2) by auto
      have "map untimed (filter (text_token vocab) (concat (map sg_tokens new))) = map untimed (filter (text_token vocab) (pending @ [token]))"
        by (simp only: filter_text_untimed e(3))
      with e(1,2) False show ?thesis by (intro exI [of _ st1] exI [of _ new]) simp
    qed
    then obtain st1 new where emit: "(if ?txts \<noteq> [] then emit_segment params vocab dtw energy ?segment st else Some st) = Some st1"
      "emitted params vocab dtw st st1 new"
      "map untimed (filter (text_token vocab) (concat (map sg_tokens new))) = map untimed (filter (text_token vocab) (pending @ [token]))"
      by blast
    obtain rest skipped t0' where skip: "skip_timestamps vocab (fp_print_special params) seek tokens [] ?t1 = Some (rest, [], t0')"
      "tokens = skipped @ rest" "\<forall>t \<in> set skipped. td_id t > vb_token_beg vocab"
      using skip_timestamps_plain [of vocab seek tokens "[]" ?t1] prems(1) by auto
    have skipped: "filter (text_token vocab) skipped = []"
      using skip(3) prems(2) by (fastforce simp: filter_empty_conv text_token_def)
    have "\<exists>new pending' t0'' turn' st'. segment_loop params vocab dtw energy nsp seek rest [] [] t0' False st1
        = Some (pending', spelling vocab pending', t0'', turn', st')
      \<and> emitted params vocab dtw st1 st' new \<and> (\<forall>t \<in> set pending'. spelled vocab t)
      \<and> map untimed (filter (text_token vocab) (concat (map sg_tokens new) @ pending')) = map untimed (filter (text_token vocab) ([] @ rest))"
      by (rule IH_stamp [OF txts refl True refl emit(1) skip(1) refl refl]) (use prems skip(2) in auto)
    then obtain new' pending' t0'' turn' st' where rec: "segment_loop params vocab dtw energy nsp seek rest [] [] t0' False st1
        = Some (pending', spelling vocab pending', t0'', turn', st')"
      "emitted params vocab dtw st1 st' new'" "\<forall>t \<in> set pending'. spelled vocab t"
      "map untimed (filter (text_token vocab) (concat (map sg_tokens new') @ pending')) = map untimed (filter (text_token vocab) rest)"
      by auto
    have "segment_loop params vocab dtw energy nsp seek (token # tokens) pending txts t0 turn st
        = Some (pending', spelling vocab pending', t0'', turn', st')"
      unfolding segment_loop.simps(2) txts Let_def Option.bind.simps if_P [OF True] emit(1) skip(1) prod.case rec(1) ..
    moreover have "map untimed (filter (text_token vocab) (concat (map sg_tokens (new @ new')) @ pending'))
        = map untimed (filter (text_token vocab) (pending @ token # tokens))"
      using emit(3) rec(4) skipped skip(2) by simp
    ultimately show ?thesis using emitted_trans [OF emit(2) rec(2)] rec(3) by blast
  next
    case False
    have "\<exists>new pending' t0' turn' st'. segment_loop params vocab dtw energy nsp seek tokens (pending @ [token]) ?txts t0 ?turn st
        = Some (pending', spelling vocab pending', t0', turn', st')
      \<and> emitted params vocab dtw st st' new \<and> (\<forall>t \<in> set pending'. spelled vocab t)
      \<and> map untimed (filter (text_token vocab) (concat (map sg_tokens new) @ pending')) = map untimed (filter (text_token vocab) ((pending @ [token]) @ tokens))"
      by (rule IH_next [OF txts refl False]) (use prems in auto)
    moreover have "segment_loop params vocab dtw energy nsp seek (token # tokens) pending txts t0 turn st
        = segment_loop params vocab dtw energy nsp seek tokens (pending @ [token]) ?txts t0 ?turn st"
      unfolding segment_loop.simps(2) txts Let_def Option.bind.simps if_not_P [OF False] ..
    ultimately show ?thesis by simp
  qed
qed

lemma window_segments_total:
  assumes "\<not> fp_print_special params" and "vb_token_eot vocab \<le> vb_token_beg vocab" and "\<forall>t \<in> set tokens_cur. spelled vocab t"
  shows "\<exists>new st'. window_segments params vocab dtw energy nsp seek seek_delta tokens_cur st = Some st'
    \<and> emitted params vocab dtw st st' new
    \<and> map untimed (filter (text_token vocab) (concat (map sg_tokens new))) = map untimed (filter (text_token vocab) tokens_cur)"
proof (cases "tokens_cur = []")
  case True
  then show ?thesis by (auto simp: window_segments_def intro!: exI [of _ "[]"])
next
  case False
  obtain new pending t0 turn st1 where loop: "segment_loop params vocab dtw energy nsp seek tokens_cur [] [] (timestamp_of vocab seek (hd tokens_cur)) False st
      = Some (pending, spelling vocab pending, t0, turn, st1)" "emitted params vocab dtw st st1 new" "\<forall>t \<in> set pending. spelled vocab t"
      "map untimed (filter (text_token vocab) (concat (map sg_tokens new) @ pending)) = map untimed (filter (text_token vocab) tokens_cur)"
    using segment_loop_total [OF assms(1,2), of "[]" tokens_cur "[]" dtw energy nsp seek "timestamp_of vocab seek (hd tokens_cur)" False st] assms(3) by auto
  show ?thesis
  proof (cases "spelling vocab pending = []")
    case True
    then have "filter (text_token vocab) pending = []" using spelling_empty [OF loop(3)] by simp
    then show ?thesis using False True loop by (auto simp: window_segments_def)
  next
    case nonempty: False
    let ?segment = "\<lparr>sg_t0 = t0, sg_t1 = seek + seek_delta, sg_text = spelling vocab pending, sg_no_speech_prob = nsp, sg_tokens = pending, sg_speaker_turn_next = turn\<rparr>"
    obtain st2 new2 where emit: "emit_segment params vocab dtw energy ?segment st1 = Some st2" "emitted params vocab dtw st1 st2 new2"
      "map untimed (concat (map sg_tokens new2)) = map untimed pending"
      using emit_segment_total [of ?segment vocab params dtw energy st1] loop(3) by auto
    have "map untimed (filter (text_token vocab) (concat (map sg_tokens (new @ new2)))) = map untimed (filter (text_token vocab) tokens_cur)"
      using loop(4) emit(3) by (simp add: filter_text_untimed)
    moreover have "window_segments params vocab dtw energy nsp seek seek_delta tokens_cur st = Some st2"
      using False nonempty loop(1) emit(1) by (simp add: window_segments_def)
    ultimately show ?thesis using emitted_trans [OF loop(2) emit(2)] by blast
  qed
qed

text \<open>C38: Wrapping only cuts the last segment. It terminates; the pieces hold its tokens in order, say what
  their text tokens spell, and follow each other in time from its start to its end; only the last one keeps the
  mark for a change of speaker, and the later ones do not keep the no-speech probability. Unless it may cut only between
  words, a piece is no longer than \<open>max_len\<close> characters or is a single token.\<close>

theorem wrap_segment_cuts:
  assumes "result_all \<noteq> []" and "0 \<le> max_len"
    and "\<forall>t \<in> set (sg_tokens (last result_all)). text_token vocab t \<longrightarrow> spelled vocab t"
  shows "\<exists>pieces. whisper_wrap_segment vocab max_len split_on_word result_all = Some (butlast result_all @ pieces, int (length pieces))
   \<and> pieces \<noteq> [] \<and> concat (map sg_tokens pieces) = sg_tokens (last result_all)
   \<and> (\<forall>p \<in> set pieces. sg_text p = spelling vocab (sg_tokens p))
   \<and> sg_t0 (hd pieces) = sg_t0 (last result_all) \<and> sg_t1 (last pieces) = sg_t1 (last result_all)
   \<and> (\<forall>k. Suc k < length pieces \<longrightarrow> sg_t1 (pieces ! k) = sg_t0 (pieces ! Suc k) \<and> \<not> sg_speaker_turn_next (pieces ! k))
   \<and> sg_speaker_turn_next (last pieces) = sg_speaker_turn_next (last result_all)
   \<and> sg_no_speech_prob (hd pieces) = sg_no_speech_prob (last result_all) \<and> (\<forall>p \<in> set (tl pieces). sg_no_speech_prob p = 0)
   \<and> (\<not> split_on_word \<longrightarrow> (\<forall>p \<in> set pieces. utf8_len (sg_text p) \<le> max_len \<or> sg_text p = token_text vocab (hd (sg_tokens p))))"
proof -
  have "\<exists>pieces. wrap_loop vocab max_len split_on_word 0 0 [] (butlast result_all) (last result_all) 1
        = Some (butlast result_all @ pieces, 1 + int (length pieces) - 1) \<and> cut_pieces vocab max_len split_on_word (last result_all) pieces"
    by (rule wrap_loop_cuts) (use assms in \<open>auto simp: utf8_len_def\<close>)
  then show ?thesis unfolding whisper_wrap_segment_def cut_pieces_def by simp
qed

lemma example_segment_spelled: "t \<in> set (sg_tokens (example_segment t0 t1)) \<Longrightarrow> spelled example_words t"
  by (auto simp: example_segment_def example_words_def spelled_def whisper_token_to_str_def ascii_def)

theorem wrap_segment_cuts_witness:
  "\<exists>pieces. whisper_wrap_segment example_words 1 False [example_segment 0 5] = Some (pieces, int (length pieces))
     \<and> concat (map sg_tokens pieces) = sg_tokens (example_segment 0 5)"
  using wrap_segment_cuts [of "[example_segment 0 5]" 1 example_words False] by (auto simp: example_segment_spelled)

text \<open>C39: No text of a decoded sequence is lost. If the tokens have texts, the segments of a window are computed, each
  of them says what its text tokens spell, and together they hold all text tokens of the sequence in order. So their
  texts together are the text of the sequence, with or without token timestamps and wrapping, and the numbers of new
  segments the callback is told add up.\<close>

theorem segments_keep_text:
  assumes "\<not> fp_print_special params" and "vb_token_eot vocab \<le> vb_token_beg vocab" and "\<forall>t \<in> set tokens_cur. spelled vocab t"
  shows "\<exists>new st'. window_segments params vocab dtw energy nsp seek seek_delta tokens_cur st = Some st'
    \<and> sl_results st' = sl_results st @ new \<and> (\<forall>s \<in> set new. sg_text s = spelling vocab (sg_tokens s))
    \<and> map td_id (filter (text_token vocab) (concat (map sg_tokens new))) = map td_id (filter (text_token vocab) tokens_cur)
    \<and> concat (map sg_text new) = spelling vocab tokens_cur
    \<and> (fp_new_segment_callback params \<noteq> None \<and> \<not> dtw \<longrightarrow> sum_list (sl_calls st') = sum_list (sl_calls st) + int (length new))"
proof -
  obtain new st' where w: "window_segments params vocab dtw energy nsp seek seek_delta tokens_cur st = Some st'" "emitted params vocab dtw st st' new"
    "map untimed (filter (text_token vocab) (concat (map sg_tokens new))) = map untimed (filter (text_token vocab) tokens_cur)"
    using window_segments_total [OF assms] by blast
  have "map (td_id \<circ> untimed) (filter (text_token vocab) (concat (map sg_tokens new))) = map (td_id \<circ> untimed) (filter (text_token vocab) tokens_cur)"
    using arg_cong [OF w(3), of "map td_id"] by simp
  moreover have "td_id \<circ> untimed = td_id" by (simp add: fun_eq_iff untimed_def)
  ultimately have ids: "map td_id (filter (text_token vocab) (concat (map sg_tokens new))) = map td_id (filter (text_token vocab) tokens_cur)" by simp
  have "spelling vocab (filter (text_token vocab) ts) = spelling vocab ts" for ts by (simp add: spelling_def)
  from this [of "concat (map sg_tokens new)"] this [of tokens_cur] spelling_untimed [OF w(3), of vocab]
  have "concat (map (spelling vocab \<circ> sg_tokens) new) = spelling vocab tokens_cur" by (simp add: spelling_concat)
  moreover have "map sg_text new = map (spelling vocab \<circ> sg_tokens) new" using w(2) by (auto simp: emitted_def)
  ultimately have "concat (map sg_text new) = spelling vocab tokens_cur" by (simp only:)
  with w ids show ?thesis unfolding emitted_def by blast
qed

theorem segments_keep_text_witness:
  "\<exists>new st'. window_segments example_params_full example_words False [] 0 0 100 (sg_tokens (example_segment 0 5)) \<lparr>sl_results = [],
        sl_clock = \<lparr>tc_t_beg = 0, tc_t_last = 0, tc_tid_last = 0\<rparr>, sl_calls = []\<rparr> = Some st'
     \<and> sl_results st' = new \<and> concat (map sg_text new) = ascii ''ab''"
proof -
  have "\<not> fp_print_special example_params_full" "vb_token_eot example_words \<le> vb_token_beg example_words"
    by (simp_all add: whisper_full_default_params_def example_words_def example_vocab_def)
  from segments_keep_text [OF this, of "sg_tokens (example_segment 0 5)" False "[]" 0 0 100]
  have "\<exists>new st'. window_segments example_params_full example_words False [] 0 0 100 (sg_tokens (example_segment 0 5)) \<lparr>sl_results = [],
        sl_clock = \<lparr>tc_t_beg = 0, tc_t_last = 0, tc_tid_last = 0\<rparr>, sl_calls = []\<rparr> = Some st'
     \<and> sl_results st' = new \<and> concat (map sg_text new) = spelling example_words (sg_tokens (example_segment 0 5))"
    by (fastforce simp: example_segment_spelled)
  moreover have "spelling example_words (sg_tokens (example_segment 0 5)) = ascii ''ab''"
    by (simp add: spelling_def example_segment_def example_words_def example_vocab_def text_token_def token_text_def whisper_token_to_str_def ascii_def)
  ultimately show ?thesis by simp
qed

end
