(* ===== verification/DecodeLoop.thy ===== *)
theory DecodeLoop
  imports Complex_Main Prelude KvCache TokenChoice SequenceScore "HOL-Library.Monad_Syntax"
begin

text \<open>
  The decoding of one window in \<open>whisper_full_with_state\<close> of Whisper/src/whisper.cpp: the decoders and
  their prompt, sampling, beam search, the update of a decoder by its new token, and the loop that runs until
  every decoder has finished. The encoder and the graph of the decoder, the random draws, the sorting and
  the callbacks are parameters, collected in an environment. The threads that sample work on different
  decoders and are run in order. \<open>None\<close> is undefined behaviour or an exception.
\<close>

section \<open>The environment and the state\<close>

record beam_candidate =
  bc_decoder_idx :: nat
  bc_seek_delta :: int
  bc_has_ts :: bool
  bc_sequence :: whisper_sequence
  bc_grammar :: whisper_grammar

record ('s, 'r) whisper_env =
  en_vocab :: whisper_vocab
  en_context_params :: whisper_context_params
  en_n_text_ctx :: int
  en_n_audio_ctx :: int
  en_n_loaded :: int
  en_depth :: nat
  en_fuel :: nat
  en_grammar_rules :: "whisper_grammar_element list list"
  en_regex_match :: "string \<Rightarrow> u8 list \<Rightarrow> bool"
  en_logits_filter :: "whisper_token_data list \<Rightarrow> logit list \<Rightarrow> logit list"
  en_graph :: "'s \<Rightarrow> whisper_kv_cache \<Rightarrow> whisper_batch \<Rightarrow> bool list list \<Rightarrow> ('s \<times> logit list list) option"
  en_abort :: "'s \<Rightarrow> bool"
  en_draw :: "real list \<Rightarrow> 'r \<Rightarrow> nat \<times> 'r"
  en_sort :: "beam_candidate list \<Rightarrow> beam_candidate list"
  en_alloc :: "nat \<Rightarrow> bool"

record ('s, 'r) decoding =
  de_model :: 's
  de_kv :: whisper_kv_cache
  de_kv_n_dec :: int
  de_logits :: "logit list list"
  de_decoders :: "'r whisper_decoder list"
  de_no_speech_prob :: real
  de_n_sample :: int
  de_n_fail_h :: int
  de_n_fail_p :: int

definition token_bytes :: "whisper_vocab \<Rightarrow> int \<Rightarrow> u8 list" where
  "token_bytes vocab i = (case map_of (vb_id_to_token vocab) i of None \<Rightarrow> [] | Some t \<Rightarrow> t)"

definition finished :: "'r whisper_decoder \<Rightarrow> bool" where
  "finished decoder \<longleftrightarrow> dc_completed decoder \<or> dc_failed decoder"

section \<open>Decoding a batch\<close>

text \<open>\<open>logits_out.resize\<close> keeps the rows of the previous call; only the rows asked for are written.\<close>

definition write_rows :: "nat \<Rightarrow> bool list \<Rightarrow> logit list list \<Rightarrow> logit list list \<Rightarrow> logit list list" where
  "write_rows n_vocab flags rows old =
     map (\<lambda>i. if flags ! i then rows ! i else resize (length flags) (replicate n_vocab (Some 0)) old ! i) [0..<length flags]"

definition whisper_decode_internal :: "('s, 'r) whisper_env \<Rightarrow> whisper_batch \<Rightarrow> ('s, 'r) decoding \<Rightarrow> (bool \<times> ('s, 'r) decoding) option" where
  "whisper_decode_internal env batch st =
     (if int (bt_n_tokens batch) > en_n_text_ctx env then None
      else do {
        (found, kv) \<leftarrow> kv_prepare (en_context_params env) (de_kv st) batch;
        let st = st\<lparr>de_kv := kv\<rparr>;
        if \<not> found then Some (False, st)
        else case en_graph env (de_model st) kv batch (kq_mask kv batch) of
               None \<Rightarrow> Some (False, st)
             | Some (model, rows) \<Rightarrow>
                 Some (\<not> en_abort env model,
                   st\<lparr>de_model := model, de_logits := write_rows (nat (vb_n_vocab (en_vocab env))) (bt_logits batch) rows (de_logits st)\<rparr>)
      })"

section \<open>Starting the decoders\<close>

definition no_grammar :: whisper_grammar where
  "no_grammar = \<lparr>gr_rules = [], gr_stacks = [], gr_partial_utf8 = \<lparr>pu_value = 0, pu_n_remain = 0\<rparr>\<rparr>"

definition start_decoder :: "('s, 'r) whisper_env \<Rightarrow> whisper_full_params \<Rightarrow> 'r whisper_decoder \<Rightarrow> 'r whisper_decoder option" where
  "start_decoder env params decoder = do {
     grammar \<leftarrow> (if fp_grammar_rules params \<noteq> None
                then whisper_grammar_init (en_fuel env) (en_grammar_rules env) (fp_i_start_rule params) else Some no_grammar);
     Some (decoder\<lparr>dc_sequence := \<lparr>sq_tokens = [], sq_result_len = 0, sq_sum_logprobs_all = 0, sq_sum_logprobs = None,
                      sq_avg_logprobs = None, sq_entropy = 0, sq_score = None\<rparr>,
                   dc_seek_delta := 3000, dc_failed := False, dc_completed := False, dc_has_ts := False, dc_grammar := grammar\<rparr>)
   }"

definition for_decoders :: "nat \<Rightarrow> (nat \<Rightarrow> 'r whisper_decoder \<Rightarrow> 'r whisper_decoder option) \<Rightarrow> 'r whisper_decoder list
    \<Rightarrow> 'r whisper_decoder list option" where
  "for_decoders n f decoders =
     for_range 0 n (\<lambda>j st. do { decoders \<leftarrow> st; d \<leftarrow> f j (decoders ! j); Some (decoders[j := d]) }) (Some decoders)"

text \<open>The past tokens and the task tokens. A negative number of dynamic tokens would read behind the vector.\<close>

definition build_prompt :: "whisper_vocab \<Rightarrow> whisper_full_params \<Rightarrow> int \<Rightarrow> real \<Rightarrow> int list \<Rightarrow> int list \<Rightarrow> int list \<Rightarrow> int list option" where
  "build_prompt vocab params max_prompt_ctx t_cur past0 past1 prompt_init = do {
     prompt \<leftarrow>
       (let can_take0 = fp_carry_initial_prompt params \<and> past0 \<noteq> []; can_take1 = past1 \<noteq> []
        in if fp_n_max_text_ctx params > 0 \<and> t_cur < 1 / 2 \<and> max_prompt_ctx > 0 \<and> (can_take0 \<or> can_take1)
           then let n_take0 = (if can_take0 then length past0 else 0);
                    n_take1 = min (max_prompt_ctx - int n_take0 - 1) (int (length past1))
                in if n_take1 < 0 then None
                   else Some (vb_token_prev vocab # drop (length past0 - n_take0) past0 @ drop (length past1 - nat n_take1) past1)
           else Some []);
     Some (prompt @ prompt_init)
   }"

section \<open>Sampling\<close>

definition push_token :: "whisper_token_data \<Rightarrow> whisper_sequence \<Rightarrow> whisper_sequence" where
  "push_token token sequence =
     sequence\<lparr>sq_tokens := sq_tokens sequence @ [token], sq_sum_logprobs_all := sq_sum_logprobs_all sequence + td_plog token\<rparr>"

definition sample_greedy :: "('s, 'r) whisper_env \<Rightarrow> real \<Rightarrow> 'r whisper_decoder \<Rightarrow> 'r whisper_decoder" where
  "sample_greedy env t_cur decoder =
     (let (token, decoder) = whisper_sample_token (en_draw env) (en_vocab env) (t_cur < 1 / 10 ^ 6) decoder
      in decoder\<lparr>dc_sequence := push_token token (dc_sequence decoder)\<rparr>)"

definition sample_beam :: "('s, 'r) whisper_env \<Rightarrow> nat \<Rightarrow> nat \<Rightarrow> 'r whisper_decoder \<Rightarrow> beam_candidate list \<times> 'r whisper_decoder" where
  "sample_beam env beam_size j decoder =
     (let (tokens_new, decoder) = whisper_sample_token_topk (en_draw env) (en_vocab env) beam_size decoder
      in (map (\<lambda>token. \<lparr>bc_decoder_idx = j, bc_seek_delta = dc_seek_delta decoder, bc_has_ts = dc_has_ts decoder,
                        bc_sequence = push_token token (dc_sequence decoder), bc_grammar = dc_grammar decoder\<rparr>) tokens_new, decoder))"

definition beam_step :: "('s, 'r) whisper_env \<Rightarrow> nat \<Rightarrow> nat \<Rightarrow> 'r whisper_decoder list \<times> beam_candidate list \<times> int
    \<Rightarrow> 'r whisper_decoder list \<times> beam_candidate list \<times> int" where
  "beam_step env beam_size j = (\<lambda>(decoders, candidates, n_sample).
     if finished (decoders ! j) then (decoders, candidates, n_sample)
     else let (new, decoder) = sample_beam env beam_size j (decoders ! j)
          in (decoders[j := decoder], candidates @ new, if new \<noteq> [] then n_sample + 1 else n_sample))"

text \<open>\<open>while (beam_candidates.size() > cur_c && equal && i > 0) ++cur_c\<close>.\<close>

function skip_equal :: "beam_candidate list \<Rightarrow> beam_candidate \<Rightarrow> nat \<Rightarrow> nat \<Rightarrow> nat" where
  "skip_equal candidates cur i cur_c =
     (if length candidates > cur_c \<and> whisper_sequence_tokens_equal (bc_sequence (candidates ! cur_c)) (bc_sequence cur) \<and> i > 0
      then skip_equal candidates cur i (cur_c + 1) else cur_c)"
  by pat_completeness auto
termination by (relation "measure (\<lambda>(candidates, cur, i, cur_c). length candidates - cur_c)") auto

declare skip_equal.simps [simp del]

definition assign_step :: "beam_candidate list \<Rightarrow> nat \<Rightarrow> nat \<Rightarrow> 'r whisper_decoder list \<times> nat \<times> (nat \<times> nat) list
    \<Rightarrow> ('r whisper_decoder list \<times> nat \<times> (nat \<times> nat) list) option" where
  "assign_step candidates i j = (\<lambda>(decoders, cur_c, moves).
     if finished (decoders ! j) then Some (decoders, cur_c, moves)
     else if candidates = [] then None
     else
       let cur_c = (if cur_c \<ge> length candidates then 0 else cur_c);
           cur = candidates ! cur_c;
           cur_c = skip_equal candidates cur i (cur_c + 1);
           decoder = (decoders ! j)\<lparr>dc_seek_delta := bc_seek_delta cur, dc_has_ts := bc_has_ts cur,
                       dc_sequence := bc_sequence cur, dc_grammar := bc_grammar cur\<rparr>
       in Some (decoders[j := decoder], cur_c, moves @ [(j, bc_decoder_idx cur)]))"

definition sample_decoders :: "('s, 'r) whisper_env \<Rightarrow> whisper_full_params \<Rightarrow> real \<Rightarrow> nat \<Rightarrow> nat \<Rightarrow> ('s, 'r) decoding \<Rightarrow> ('s, 'r) decoding option" where
  "sample_decoders env params t_cur n_cur i st =
     (if fp_strategy params = WHISPER_SAMPLING_GREEDY
      then do {
        decoders \<leftarrow> for_decoders n_cur (\<lambda>j d. Some (if finished d then d else sample_greedy env t_cur d)) (de_decoders st);
        Some (st\<lparr>de_decoders := decoders\<rparr>)
      }
      else if fp_strategy params = WHISPER_SAMPLING_BEAM_SEARCH
      then if fp_beam_search_beam_size params < 0 then None
           else do {
             let (decoders, candidates, n_sample) =
               for_range 0 n_cur (beam_step env (nat (fp_beam_search_beam_size params))) (de_decoders st, [], de_n_sample st);
             (decoders, cur_c, moves) \<leftarrow>
               for_range 0 n_cur (\<lambda>j acc. Option.bind acc (assign_step (en_sort env candidates) i j)) (Some (decoders, 0, []));
             Some (st\<lparr>de_decoders := decoders, de_n_sample := n_sample, de_kv := kv_reorder moves (de_kv st)\<rparr>)
           }
      else Some st)"

section \<open>Updating a decoder by its new token\<close>

definition move_window :: "whisper_vocab \<Rightarrow> nat \<Rightarrow> whisper_token_data \<Rightarrow> 'r whisper_decoder \<Rightarrow> 'r whisper_decoder" where
  "move_window vocab i token decoder =
     (if td_id token > vb_token_beg vocab
      then let seek_delta_new = 2 * (td_id token - vb_token_beg vocab)
           in if dc_has_ts decoder \<and> dc_seek_delta decoder > seek_delta_new \<and> sq_result_len (dc_sequence decoder) < int i
              then decoder\<lparr>dc_failed := True\<rparr>
              else decoder\<lparr>dc_seek_delta := seek_delta_new, dc_sequence := (dc_sequence decoder)\<lparr>sq_result_len := int i + 1\<rparr>, dc_has_ts := True\<rparr>
      else decoder)"

definition complete_decoder :: "whisper_full_params \<Rightarrow> int \<Rightarrow> int \<Rightarrow> nat \<Rightarrow> 'r whisper_decoder \<Rightarrow> 'r whisper_decoder" where
  "complete_decoder params seek seek_end i decoder =
     (let unfinished = sq_result_len (dc_sequence decoder) = 0 \<and> \<not> fp_no_timestamps params
      in if unfinished \<and> \<not> seek + dc_seek_delta decoder + 10 \<ge> seek_end
         then decoder\<lparr>dc_failed := True\<rparr>
         else
           let decoder = (if unfinished then decoder\<lparr>dc_sequence := (dc_sequence decoder)\<lparr>sq_result_len := int i + 1\<rparr>\<rparr> else decoder);
               decoder = (if fp_single_segment params \<or> fp_no_timestamps params
                          then decoder\<lparr>dc_sequence := (dc_sequence decoder)\<lparr>sq_result_len := int i + 1\<rparr>, dc_seek_delta := 3000\<rparr> else decoder)
           in decoder\<lparr>dc_completed := True\<rparr>)"

definition update_decoder :: "('s, 'r) whisper_env \<Rightarrow> whisper_full_params \<Rightarrow> int \<Rightarrow> int \<Rightarrow> nat \<Rightarrow> nat \<Rightarrow> 'r whisper_decoder \<Rightarrow> 'r whisper_decoder option" where
  "update_decoder env params seek seek_end n_max i decoder =
     (if finished decoder then Some decoder
      else if sq_tokens (dc_sequence decoder) = [] then None
      else
        let token = last (sq_tokens (dc_sequence decoder));
            decoder = move_window (en_vocab env) i token decoder
        in if dc_failed decoder then Some decoder
           else do {
             grammar \<leftarrow> whisper_grammar_accept_token (en_fuel env) (token_bytes (en_vocab env)) (dc_grammar decoder) (td_id token);
             let decoder = decoder\<lparr>dc_grammar := grammar\<rparr>;
             Some (if td_id token = vb_token_eot (en_vocab env)
                      \<or> (fp_max_tokens params > 0 \<and> int i \<ge> fp_max_tokens params)
                      \<or> (dc_has_ts decoder \<and> seek + dc_seek_delta decoder + 10 \<ge> seek_end)
                   then complete_decoder params seek seek_end i decoder
                   else if en_n_loaded env = 0 then decoder\<lparr>dc_seek_delta := 3000, dc_completed := True\<rparr>
                   else if i = n_max - 1 \<and> (sq_result_len (dc_sequence decoder) = 0 \<or> dc_seek_delta decoder < 1500)
                   then decoder\<lparr>dc_failed := True\<rparr>
                   else decoder)
           })"

section \<open>The next logits\<close>

definition batch_push :: "int \<Rightarrow> int \<Rightarrow> int \<Rightarrow> whisper_batch \<Rightarrow> whisper_batch" where
  "batch_push token p seq_id batch =
     \<lparr>bt_token = bt_token batch @ [token], bt_pos = bt_pos batch @ [p], bt_seq_id = bt_seq_id batch @ [[seq_id]], bt_logits = bt_logits batch @ [True]\<rparr>"

definition batch_step :: "int \<Rightarrow> nat \<Rightarrow> 'r whisper_decoder list \<times> whisper_batch \<Rightarrow> 'r whisper_decoder list \<times> whisper_batch" where
  "batch_step n_past j = (\<lambda>(decoders, batch).
     if finished (decoders ! j) then (decoders, batch)
     else (decoders[j := (decoders ! j)\<lparr>dc_i_batch := bt_n_tokens batch\<rparr>],
           batch_push (td_id (last (sq_tokens (dc_sequence (decoders ! j))))) n_past (int j) batch))"

definition process_decoder :: "('s, 'r) whisper_env \<Rightarrow> whisper_full_params \<Rightarrow> real \<Rightarrow> logit list list \<Rightarrow> 'r whisper_decoder \<Rightarrow> 'r whisper_decoder option" where
  "process_decoder env params t_cur logits decoder =
     (if dc_i_batch decoder < length logits
      then whisper_process_logits (en_depth env) (en_fuel env) (en_regex_match env)
             (if fp_logits_filter_callback params \<noteq> None then Some (en_logits_filter env) else None)
             (en_vocab env) (en_n_audio_ctx env) params t_cur (logits ! dc_i_batch decoder) decoder
      else None)"

text \<open>One round for token \<open>i\<close>; the flag says that the loop goes on, a code other than 0 is returned to the caller.\<close>

definition decode_round :: "('s, 'r) whisper_env \<Rightarrow> whisper_full_params \<Rightarrow> real \<Rightarrow> nat \<Rightarrow> int \<Rightarrow> int \<Rightarrow> nat \<Rightarrow> nat \<Rightarrow> nat \<Rightarrow> ('s, 'r) decoding
    \<Rightarrow> (int \<times> bool \<times> ('s, 'r) decoding) option" where
  "decode_round env params t_cur n_cur seek seek_end n_prompt n_max i st = do {
     st \<leftarrow> sample_decoders env params t_cur n_cur i st;
     decoders \<leftarrow> for_decoders n_cur (\<lambda>j d. update_decoder env params seek seek_end n_max i d) (de_decoders st);
     let st = st\<lparr>de_decoders := decoders\<rparr>;
     if \<forall>j < n_cur. finished (decoders ! j) then Some (0, False, st)
     else do {
       let (decoders, batch) = for_range 0 n_cur (batch_step (int n_prompt + int i))
             (decoders, \<lparr>bt_token = [], bt_pos = [], bt_seq_id = [], bt_logits = []\<rparr>);
       (ok, st) \<leftarrow> whisper_decode_internal env batch (st\<lparr>de_decoders := decoders\<rparr>);
       if \<not> ok then Some (- 9, False, st)
       else do {
         decoders \<leftarrow> for_decoders n_cur (\<lambda>j d. if finished d then Some d else process_decoder env params t_cur (de_logits st) d) (de_decoders st);
         Some (0, True, st\<lparr>de_decoders := decoders\<rparr>)
       }
     }
   }"

primrec decode_rounds :: "nat \<Rightarrow> ('s, 'r) whisper_env \<Rightarrow> whisper_full_params \<Rightarrow> real \<Rightarrow> nat \<Rightarrow> int \<Rightarrow> int \<Rightarrow> nat \<Rightarrow> nat \<Rightarrow> nat \<Rightarrow> ('s, 'r) decoding
    \<Rightarrow> (int \<times> ('s, 'r) decoding) option" where
  "decode_rounds 0 env params t_cur n_cur seek seek_end n_prompt n_max i st = Some (0, st)"
| "decode_rounds (Suc rounds) env params t_cur n_cur seek seek_end n_prompt n_max i st = do {
     (code, continue, st) \<leftarrow> decode_round env params t_cur n_cur seek seek_end n_prompt n_max i st;
     if continue then decode_rounds rounds env params t_cur n_cur seek seek_end n_prompt n_max (i + 1) st else Some (code, st)
   }"

section \<open>One temperature\<close>

text \<open>The cache for more decoders than so far; a failed allocation frees the state.\<close>

definition grow_cache :: "('s, 'r) whisper_env \<Rightarrow> nat \<Rightarrow> ('s, 'r) decoding \<Rightarrow> (bool \<times> ('s, 'r) decoding)" where
  "grow_cache env n_cur st =
     (if de_kv_n_dec st < int n_cur
      then let factor = (if n_cur > 1 then n_cur + 2 else 1); n_ctx = GGML_PAD (nat (en_n_text_ctx env)) 256 * factor
           in if en_alloc env n_ctx then (True, st\<lparr>de_kv := whisper_kv_cache_init n_ctx, de_kv_n_dec := int n_cur\<rparr>) else (False, st)
      else (True, st))"

text \<open>\<open>whisper_compute_logprobs(state->logits, n_logits, ...)\<close> reads the first \<open>n_logits\<close> logits, that is row 0.\<close>

definition no_speech_of :: "whisper_vocab \<Rightarrow> logit list list \<Rightarrow> real" where
  "no_speech_of vocab logits =
     (let row = hd logits; logprobs = whisper_compute_logprobs row
      in whisper_compute_probs row logprobs ! nat (vb_token_nosp vocab))"

definition share_logits :: "'r whisper_decoder \<Rightarrow> 'r whisper_decoder \<Rightarrow> 'r whisper_decoder" where
  "share_logits first decoder = decoder\<lparr>dc_probs := dc_probs first, dc_logits := dc_logits first, dc_logprobs := dc_logprobs first\<rparr>"

definition first_logits :: "('s, 'r) whisper_env \<Rightarrow> whisper_full_params \<Rightarrow> real \<Rightarrow> nat \<Rightarrow> nat \<Rightarrow> ('s, 'r) decoding \<Rightarrow> ('s, 'r) decoding option" where
  "first_logits env params t_cur n_cur n_prompt st = do {
     let st = st\<lparr>de_no_speech_prob := no_speech_of (en_vocab env) (de_logits st)\<rparr>;
     first \<leftarrow> process_decoder env params t_cur (de_logits st) ((de_decoders st ! 0)\<lparr>dc_i_batch := n_prompt - 1\<rparr>);
     Some (for_range 1 n_cur (\<lambda>j st. st\<lparr>de_kv := whisper_kv_cache_seq_cp (de_kv st) 0 (int j) (- 1) (- 1),
         de_decoders := (de_decoders st)[j := share_logits first (de_decoders st ! j)]\<rparr>)
       (st\<lparr>de_decoders := (de_decoders st)[0 := first]\<rparr>))
   }"

definition decode_window :: "('s, 'r) whisper_env \<Rightarrow> whisper_full_params \<Rightarrow> real \<Rightarrow> nat \<Rightarrow> int \<Rightarrow> int \<Rightarrow> int list \<Rightarrow> nat \<Rightarrow> ('s, 'r) decoding
    \<Rightarrow> (int \<times> ('s, 'r) decoding) option" where
  "decode_window env params t_cur n_cur seek seek_end prompt n_max st = do {
     let (ok, st) = grow_cache env n_cur st;
     if \<not> ok then Some (- 7, st)
     else do {
       let st = st\<lparr>de_kv := whisper_kv_cache_clear (de_kv st)\<rparr>;
       (ok, st) \<leftarrow> whisper_decode_internal env (whisper_batch_prep_legacy prompt 0 0) st;
       if \<not> ok then Some (- 8, st)
       else do {
         st \<leftarrow> first_logits env params t_cur n_cur (length prompt) st;
         decode_rounds n_max env params t_cur n_cur seek seek_end (length prompt) n_max 0 st
       }
     }
   }"

text \<open>The attempt to decode a window at one temperature, with the prompt it used.\<close>

definition decode_temperature :: "('s, 'r) whisper_env \<Rightarrow> whisper_full_params \<Rightarrow> real \<Rightarrow> nat \<Rightarrow> int \<Rightarrow> int \<Rightarrow> int \<Rightarrow> int list \<Rightarrow> int list \<Rightarrow> int list
    \<Rightarrow> ('s, 'r) decoding \<Rightarrow> (int \<times> int list \<times> ('s, 'r) decoding) option" where
  "decode_temperature env params t_cur n_cur seek seek_end max_prompt_ctx past0 past1 prompt_init st = do {
     decoders \<leftarrow> for_decoders n_cur (\<lambda>_. start_decoder env params) (de_decoders st);
     prompt \<leftarrow> build_prompt (en_vocab env) params max_prompt_ctx t_cur past0 past1 prompt_init;
     (code, st) \<leftarrow> decode_window env params t_cur n_cur seek seek_end prompt (nat (tdiv (en_n_text_ctx env) 2 - 4)) (st\<lparr>de_decoders := decoders\<rparr>);
     Some (code, prompt, st)
   }"

section \<open>Well-typed decoders\<close>

text \<open>What the environment has to keep to: the graph returns one row of logits for every token of the batch, a draw
  is an index into the probabilities, sorting permutes, the filter of the logits masks, the vocabulary has at most
  1501 timestamps. There is no grammar, and beam search has at least one beam.\<close>

definition graph_rows :: "('s, 'r) whisper_env \<Rightarrow> bool" where
  "graph_rows env \<longleftrightarrow> (\<forall>model kv batch hidden model' rows. en_graph env model kv batch hidden = Some (model', rows) \<longrightarrow>
     length rows = bt_n_tokens batch \<and> (\<forall>row \<in> set rows. length row = nat (vb_n_vocab (en_vocab env))))"

definition draws_index :: "(real list \<Rightarrow> 'r \<Rightarrow> nat \<times> 'r) \<Rightarrow> bool" where
  "draws_index draw \<longleftrightarrow> (\<forall>ps r. ps \<noteq> [] \<longrightarrow> fst (draw ps r) < length ps)"

definition vocab_ok :: "whisper_vocab \<Rightarrow> bool" where
  "vocab_ok vocab \<longleftrightarrow> 0 < vb_n_vocab vocab \<and> vb_n_vocab vocab \<le> vb_token_beg vocab + 1501 \<and> vb_token_eot vocab \<le> vb_token_beg vocab
     \<and> map_of (vb_token_to_id vocab) (ascii '' '') \<noteq> None"

definition env_ok :: "('s, 'r) whisper_env \<Rightarrow> bool" where
  "env_ok env \<longleftrightarrow> vocab_ok (en_vocab env) \<and> graph_rows env \<and> draws_index (en_draw env) \<and> (\<forall>cs. mset (en_sort env cs) = mset cs)
     \<and> callback_masks (Some (en_logits_filter env)) \<and> 8 \<le> en_n_text_ctx env \<and> en_n_text_ctx env < 2 ^ 30"

definition params_ok :: "whisper_full_params \<Rightarrow> bool" where
  "params_ok params \<longleftrightarrow> fp_grammar_rules params = None \<and> fp_n_grammar_rules params = 0
     \<and> (fp_strategy params = WHISPER_SAMPLING_GREEDY \<or> fp_strategy params = WHISPER_SAMPLING_BEAM_SEARCH \<and> 1 \<le> fp_beam_search_beam_size params)"

definition token_typed :: "whisper_vocab \<Rightarrow> whisper_token_data \<Rightarrow> bool" where
  "token_typed vocab token \<longleftrightarrow> 0 \<le> td_id token \<and> td_id token < vb_n_vocab vocab"

definition decoder_typed :: "whisper_vocab \<Rightarrow> 'r whisper_decoder \<Rightarrow> bool" where
  "decoder_typed vocab d \<longleftrightarrow> 2 \<le> dc_seek_delta d \<and> dc_seek_delta d \<le> 3000
     \<and> 0 \<le> sq_result_len (dc_sequence d) \<and> sq_result_len (dc_sequence d) \<le> int (length (sq_tokens (dc_sequence d)))
     \<and> (\<forall>t \<in> set (sq_tokens (dc_sequence d)). token_typed vocab t)"

definition decoder_active :: "whisper_vocab \<Rightarrow> nat \<Rightarrow> 'r whisper_decoder \<Rightarrow> bool" where
  "decoder_active vocab i d \<longleftrightarrow> finished d \<or> length (sq_tokens (dc_sequence d)) = i \<and> gr_rules (dc_grammar d) = []"

definition decoder_logits :: "whisper_vocab \<Rightarrow> 'r whisper_decoder \<Rightarrow> bool" where
  "decoder_logits vocab d \<longleftrightarrow> finished d \<or> length (dc_probs d) = nat (vb_n_vocab vocab)"

definition decoders_typed :: "whisper_vocab \<Rightarrow> nat \<Rightarrow> 'r whisper_decoder list \<Rightarrow> bool" where
  "decoders_typed vocab n decoders \<longleftrightarrow> length decoders = 8 \<and> n \<le> 8 \<and> (\<forall>j < n. decoder_typed vocab (decoders ! j))"

section \<open>Sampled tokens\<close>

lemma best_token_index:
  assumes "td_id r = 0" and "probs \<noteq> []"
  shows "0 \<le> td_id (best_token r probs logprobs) \<and> td_id (best_token r probs logprobs) < int (length probs)"
  unfolding best_token_def
  by (rule for_range_invariant [where P = "\<lambda>_ r. 0 \<le> td_id r \<and> td_id r < int (length probs)"]) (use assms in auto)

lemma sample_token_typed:
  assumes "draws_index draw" and "length (dc_probs d) = nat (vb_n_vocab vocab)" and "0 < vb_n_vocab vocab"
  shows "token_typed vocab (fst (whisper_sample_token draw vocab best d)) \<and> (\<exists>rng. snd (whisper_sample_token draw vocab best d) = d\<lparr>dc_rng := rng\<rparr>)"
proof -
  have ne: "dc_probs d \<noteq> []" and len: "int (length (dc_probs d)) = vb_n_vocab vocab" using assms(2,3) by auto
  have "fst (draw (dc_probs d) (dc_rng d)) < length (dc_probs d)" using assms(1) ne unfolding draws_index_def by metis
  then have "int (fst (draw (dc_probs d) (dc_rng d))) < vb_n_vocab vocab" using len by linarith
  moreover obtain pt ptsum tid where scan: "timestamp_scan vocab (dc_probs d) 0 = (pt, ptsum, tid)" by (cases "timestamp_scan vocab (dc_probs d) 0")
  moreover obtain i rng where "draw (dc_probs d) (dc_rng d) = (i, rng)" by force
  moreover have "\<exists>rng. d = d\<lparr>dc_rng := rng\<rparr>" by (rule exI [of _ "dc_rng d"]) simp
  moreover have "0 \<le> td_id (best_token r (dc_probs d) (dc_logprobs d)) \<and> td_id (best_token r (dc_probs d) (dc_logprobs d)) < vb_n_vocab vocab"
    if "td_id r = 0" for r
    using best_token_index [OF that ne, of "dc_logprobs d"] len by simp
  ultimately show ?thesis
    by (cases best) (auto simp: whisper_sample_token_def token_typed_def Let_def)
qed

lemma draw_tokens_typed:
  assumes "draws_index draw" and "length (dc_probs d) = nat (vb_n_vocab vocab)" and "0 < vb_n_vocab vocab"
  shows "(\<forall>t \<in> set (fst (draw_tokens draw vocab ts k d)). token_typed vocab t) \<and> length (fst (draw_tokens draw vocab ts k d)) = k
    \<and> (\<exists>rng. snd (draw_tokens draw vocab ts k d) = d\<lparr>dc_rng := rng\<rparr>)"
  using assms(2)
proof (induction k arbitrary: d)
  case 0
  then show ?case by (auto intro: exI [of _ "dc_rng d"])
next
  case (Suc k)
  obtain pt ptsum tid where ts: "ts = (pt, ptsum, tid)" by (cases ts)
  obtain i rng where draw: "draw (dc_probs d) (dc_rng d) = (i, rng)" by force
  have "dc_probs d \<noteq> []" using Suc.prems assms(3) by auto
  then have "i < length (dc_probs d)" using assms(1) draw unfolding draws_index_def by (metis fst_conv)
  then have i: "int i < vb_n_vocab vocab" using Suc.prems assms(3) by linarith
  obtain results d' where rec: "draw_tokens draw vocab (pt, ptsum, tid) k (d\<lparr>dc_rng := rng\<rparr>) = (results, d')" by force
  have "length (dc_probs (d\<lparr>dc_rng := rng\<rparr>)) = nat (vb_n_vocab vocab)" using Suc.prems by simp
  from Suc.IH [OF this] obtain rng' where "\<forall>t \<in> set results. token_typed vocab t" "length results = k" "d' = d\<lparr>dc_rng := rng'\<rparr>"
    unfolding ts rec by auto
  then show ?case using i by (auto simp: ts draw rec token_typed_def)
qed

section \<open>Every operation keeps the decoders well-typed\<close>

lemma push_token_typed:
  assumes "decoder_typed vocab d" and "token_typed vocab token"
  shows "decoder_typed vocab (d\<lparr>dc_sequence := push_token token (dc_sequence d)\<rparr>)"
  using assms by (auto simp: decoder_typed_def push_token_def)

lemma decoder_typed_fields [simp]:
  "decoder_typed vocab (d\<lparr>dc_rng := r\<rparr>) = decoder_typed vocab d" "decoder_typed vocab (d\<lparr>dc_i_batch := b\<rparr>) = decoder_typed vocab d"
  "decoder_typed vocab (d\<lparr>dc_failed := f\<rparr>) = decoder_typed vocab d" "decoder_typed vocab (d\<lparr>dc_completed := f\<rparr>) = decoder_typed vocab d"
  "decoder_typed vocab (d\<lparr>dc_grammar := g\<rparr>) = decoder_typed vocab d"
  "decoder_typed vocab (d\<lparr>dc_logits := l, dc_logprobs := lp, dc_probs := ps\<rparr>) = decoder_typed vocab d"
  "decoder_typed vocab (share_logits first d) = decoder_typed vocab d"
  by (simp_all add: decoder_typed_def share_logits_def)

lemma sample_greedy_typed:
  assumes "env_ok env" and "decoder_typed (en_vocab env) d" and "decoder_active (en_vocab env) i d" and "decoder_logits (en_vocab env) d" and "\<not> finished d"
  shows "decoder_typed (en_vocab env) (sample_greedy env t_cur d) \<and> decoder_active (en_vocab env) (Suc i) (sample_greedy env t_cur d)"
proof -
  let ?r = "whisper_sample_token (en_draw env) (en_vocab env) (t_cur < 1 / 10 ^ 6) d"
  have p: "length (dc_probs d) = nat (vb_n_vocab (en_vocab env))" "draws_index (en_draw env)" "0 < vb_n_vocab (en_vocab env)"
    using assms(1,4,5) by (auto simp: decoder_logits_def env_ok_def vocab_ok_def)
  obtain rng where typed: "token_typed (en_vocab env) (fst ?r)" "snd ?r = d\<lparr>dc_rng := rng\<rparr>"
    using sample_token_typed [OF p(2,1,3), of "t_cur < 1 / 10 ^ 6"] by blast
  have "sample_greedy env t_cur d = (d\<lparr>dc_rng := rng\<rparr>)\<lparr>dc_sequence := push_token (fst ?r) (dc_sequence d)\<rparr>"
    unfolding sample_greedy_def Let_def case_prod_unfold typed(2) by simp
  then show ?thesis
    using push_token_typed [of "en_vocab env" "d\<lparr>dc_rng := rng\<rparr>" "fst ?r"] typed(1) assms(2,3,5)
    by (simp add: decoder_active_def finished_def push_token_def)
qed

lemma for_decoders_total:
  assumes "\<And>j. j < n \<Longrightarrow> \<exists>d. f j (decoders ! j) = Some d \<and> P j d" and "n \<le> length decoders"
  shows "\<exists>decoders'. for_decoders n f decoders = Some decoders' \<and> length decoders' = length decoders
    \<and> (\<forall>j<n. f j (decoders ! j) = Some (decoders' ! j) \<and> P j (decoders' ! j)) \<and> (\<forall>j \<ge> n. decoders' ! j = decoders ! j)"
proof -
  have "\<exists>decoders'. for_range 0 m (\<lambda>j st. do { decoders \<leftarrow> st; d \<leftarrow> f j (decoders ! j); Some (decoders[j := d]) }) (Some decoders) = Some decoders'
    \<and> length decoders' = length decoders
    \<and> (\<forall>j<m. f j (decoders ! j) = Some (decoders' ! j) \<and> P j (decoders' ! j)) \<and> (\<forall>j \<ge> m. decoders' ! j = decoders ! j)" if "m \<le> n" for m
    using that
  proof (induction m)
    case (Suc m)
    then obtain ds where ds: "for_range 0 m (\<lambda>j st. do { decoders \<leftarrow> st; d \<leftarrow> f j (decoders ! j); Some (decoders[j := d]) }) (Some decoders) = Some ds"
      "length ds = length decoders" "\<forall>j<m. f j (decoders ! j) = Some (ds ! j) \<and> P j (ds ! j)" "\<forall>j \<ge> m. ds ! j = decoders ! j"
      by auto
    obtain d where d: "f m (decoders ! m) = Some d" "P m d" using assms(1) [of m] Suc.prems by auto
    show ?case
      using ds d Suc.prems assms(2) by (intro exI [of _ "ds[m := d]"]) (auto simp: nth_list_update less_Suc_eq)
  qed simp
  from this [of n] show ?thesis by (simp add: for_decoders_def)
qed

section \<open>Beam search\<close>

definition candidate_typed :: "whisper_vocab \<Rightarrow> nat \<Rightarrow> beam_candidate \<Rightarrow> bool" where
  "candidate_typed vocab i c \<longleftrightarrow> 2 \<le> bc_seek_delta c \<and> bc_seek_delta c \<le> 3000
     \<and> 0 \<le> sq_result_len (bc_sequence c) \<and> sq_result_len (bc_sequence c) \<le> int (length (sq_tokens (bc_sequence c)))
     \<and> (\<forall>t \<in> set (sq_tokens (bc_sequence c)). token_typed vocab t)
     \<and> length (sq_tokens (bc_sequence c)) = i \<and> gr_rules (bc_grammar c) = []"

lemma sample_beam_typed:
  assumes "env_ok env" and "decoder_typed (en_vocab env) d" and "decoder_active (en_vocab env) i d" and "decoder_logits (en_vocab env) d" and "\<not> finished d"
  shows "(\<forall>c \<in> set (fst (sample_beam env k j d)). candidate_typed (en_vocab env) (Suc i) c) \<and> length (fst (sample_beam env k j d)) = k
    \<and> (\<exists>rng. snd (sample_beam env k j d) = d\<lparr>dc_rng := rng\<rparr>)"
proof -
  let ?r = "whisper_sample_token_topk (en_draw env) (en_vocab env) k d"
  have p: "length (dc_probs d) = nat (vb_n_vocab (en_vocab env))" "draws_index (en_draw env)" "0 < vb_n_vocab (en_vocab env)"
    using assms(1,4,5) by (auto simp: decoder_logits_def env_ok_def vocab_ok_def)
  obtain tokens rng where r: "?r = (tokens, d\<lparr>dc_rng := rng\<rparr>)" "\<forall>t \<in> set tokens. token_typed (en_vocab env) t" "length tokens = k"
    using draw_tokens_typed [OF p(2,1,3), of _ k] unfolding whisper_sample_token_topk_def by (metis prod.collapse)
  show ?thesis
    using r assms(2,3,5) by (auto simp: sample_beam_def candidate_typed_def decoder_typed_def decoder_active_def push_token_def)
qed

lemma beam_step_simps:
  "finished (ds ! j) \<Longrightarrow> beam_step env k j (ds, cs, ns) = (ds, cs, ns)"
  "\<not> finished (ds ! j) \<Longrightarrow> sample_beam env k j (ds ! j) = (new, d) \<Longrightarrow>
     beam_step env k j (ds, cs, ns) = (ds[j := d], cs @ new, if new \<noteq> [] then ns + 1 else ns)"
  by (simp_all add: beam_step_def)

lemma beam_steps:
  assumes "env_ok env" and "decoders_typed (en_vocab env) n decoders" and "m \<le> n"
    and "\<forall>j<n. decoder_active (en_vocab env) i (decoders ! j) \<and> decoder_logits (en_vocab env) (decoders ! j)" and "1 \<le> k"
  shows "\<exists>ds cs ns. for_range 0 m (beam_step env k) (decoders, [], n_sample) = (ds, cs, ns) \<and> length ds = length decoders
    \<and> (\<forall>j. \<exists>rng. ds ! j = (decoders ! j)\<lparr>dc_rng := rng\<rparr>) \<and> (\<forall>c \<in> set cs. candidate_typed (en_vocab env) (Suc i) c)
    \<and> ((\<exists>j<m. \<not> finished (decoders ! j)) \<longrightarrow> cs \<noteq> []) \<and> (\<forall>j \<ge> m. ds ! j = decoders ! j)"
  using assms(3)
proof (induction m)
  case 0
  have "\<exists>rng. decoders ! j = (decoders ! j)\<lparr>dc_rng := rng\<rparr>" for j by (rule exI [of _ "dc_rng (decoders ! j)"]) simp
  then show ?case by simp
next
  case (Suc m)
  then obtain ds cs ns where ds: "for_range 0 m (beam_step env k) (decoders, [], n_sample) = (ds, cs, ns)" "length ds = length decoders"
    "\<forall>j. \<exists>rng. ds ! j = (decoders ! j)\<lparr>dc_rng := rng\<rparr>" "\<forall>c \<in> set cs. candidate_typed (en_vocab env) (Suc i) c"
    "(\<exists>j<m. \<not> finished (decoders ! j)) \<longrightarrow> cs \<noteq> []" "\<forall>j \<ge> m. ds ! j = decoders ! j" by auto
  show ?case
  proof (cases "finished (decoders ! m)")
    case True
    then have "finished (ds ! m)" using ds(6) by simp
    then have "for_range 0 (Suc m) (beam_step env k) (decoders, [], n_sample) = (ds, cs, ns)" using ds(1) by (simp add: beam_step_simps)
    then show ?thesis using ds True by (auto simp: less_Suc_eq)
  next
    case False
    have m: "decoder_typed (en_vocab env) (decoders ! m)" "m < length decoders"
      using assms(2) Suc.prems by (auto simp: decoders_typed_def)
    have act: "decoder_active (en_vocab env) i (decoders ! m)" "decoder_logits (en_vocab env) (decoders ! m)"
      using assms(4) Suc.prems by auto
    obtain new rng where new: "sample_beam env k m (decoders ! m) = (new, (decoders ! m)\<lparr>dc_rng := rng\<rparr>)"
      "\<forall>c \<in> set new. candidate_typed (en_vocab env) (Suc i) c" "length new = k"
      using sample_beam_typed [OF assms(1) m(1) act False, of k m] by (metis prod.collapse)
    have "for_range 0 (Suc m) (beam_step env k) (decoders, [], n_sample)
        = (ds[m := (decoders ! m)\<lparr>dc_rng := rng\<rparr>], cs @ new, if new \<noteq> [] then ns + 1 else ns)"
      using ds(1,6) False new(1) by (simp add: beam_step_simps)
    moreover have "\<forall>j. \<exists>rng'. ds[m := (decoders ! m)\<lparr>dc_rng := rng\<rparr>] ! j = (decoders ! j)\<lparr>dc_rng := rng'\<rparr>"
      using ds(2,3) m(2) by (auto simp: nth_list_update)
    moreover have "new \<noteq> []" using new(3) assms(5) by auto
    ultimately show ?thesis using ds(2,4,6) new(2) by auto
  qed
qed

lemma skip_equal_le: "cur_c \<le> length candidates \<Longrightarrow> skip_equal candidates cur i cur_c \<le> length candidates"
proof (induction candidates cur i cur_c rule: skip_equal.induct)
  case (1 candidates cur i cur_c)
  then show ?case by (subst skip_equal.simps) auto
qed

text \<open>Every active decoder gets a typed candidate.\<close>

lemma assign_steps:
  assumes "\<forall>c \<in> set cs. candidate_typed vocab (Suc i) c" and "(\<exists>j<n. \<not> finished (decoders ! j)) \<longrightarrow> cs \<noteq> []" and "n \<le> length decoders" and "m \<le> n"
  shows "\<exists>ds cur_c moves. for_range 0 m (\<lambda>j acc. Option.bind acc (assign_step cs i j)) (Some (decoders, 0, [])) = Some (ds, cur_c, moves)
    \<and> length ds = length decoders \<and> (\<forall>j \<ge> m. ds ! j = decoders ! j)
    \<and> (\<forall>j<m. if finished (decoders ! j) then ds ! j = decoders ! j
             else decoder_typed vocab (ds ! j) \<and> decoder_active vocab (Suc i) (ds ! j))"
  using assms(4)
proof (induction m)
  case (Suc m)
  then obtain ds cur_c moves where ds: "for_range 0 m (\<lambda>j acc. Option.bind acc (assign_step cs i j)) (Some (decoders, 0, [])) = Some (ds, cur_c, moves)"
    "length ds = length decoders" "\<forall>j \<ge> m. ds ! j = decoders ! j"
    "\<forall>j<m. if finished (decoders ! j) then ds ! j = decoders ! j else decoder_typed vocab (ds ! j) \<and> decoder_active vocab (Suc i) (ds ! j)"
    by auto
  show ?case
  proof (cases "finished (decoders ! m)")
    case True
    then show ?thesis using ds by (auto simp: assign_step_def less_Suc_eq)
  next
    case False
    then have ne: "cs \<noteq> []" using assms(2) Suc.prems by auto
    define c where "c = cs ! (if cur_c \<ge> length cs then 0 else cur_c)"
    have "c \<in> set cs" using ne by (auto simp: c_def)
    then have c: "candidate_typed vocab (Suc i) c" using assms(1) by blast
    let ?d = "(decoders ! m)\<lparr>dc_seek_delta := bc_seek_delta c, dc_has_ts := bc_has_ts c, dc_sequence := bc_sequence c, dc_grammar := bc_grammar c\<rparr>"
    have "decoder_typed vocab ?d" "decoder_active vocab (Suc i) ?d"
      using c by (auto simp: candidate_typed_def decoder_typed_def decoder_active_def)
    moreover have "\<exists>cur_c' moves'. for_range 0 (Suc m) (\<lambda>j acc. Option.bind acc (assign_step cs i j)) (Some (decoders, 0, [])) = Some (ds[m := ?d], cur_c', moves')"
      using ds(1,3) False ne by (simp add: assign_step_def Let_def flip: c_def)
    moreover have "m < length ds" using ds(2) Suc.prems assms(3) by simp
    ultimately show ?thesis using ds(2,3,4) False
      by (elim exE) (intro exI conjI, assumption, auto simp: nth_list_update less_Suc_eq)
  qed
qed simp

lemma kv_ok_reorder: "kv_ok cache \<Longrightarrow> kv_ok (kv_reorder moves cache)"
proof -
  have 1: "kv_ok c \<Longrightarrow> kv_ok (fold (\<lambda>(j, decoder_idx) cache.
            whisper_kv_cache_seq_cp cache (int decoder_idx) (WHISPER_MAX_DECODERS + int j) (- 1) (- 1)) ms c)" for ms :: "(nat \<times> nat) list" and c
    by (induction ms arbitrary: c) (auto intro: kv_ok_seq_cp)
  have 2: "kv_ok c \<Longrightarrow> kv_ok (fold (\<lambda>(j, decoder_idx) cache.
            let cache = whisper_kv_cache_seq_rm cache (int j) (- 1) (- 1);
                cache = whisper_kv_cache_seq_cp cache (WHISPER_MAX_DECODERS + int j) (int j) (- 1) (- 1)
            in whisper_kv_cache_seq_rm cache (WHISPER_MAX_DECODERS + int j) (- 1) (- 1)) ms c)" for ms :: "(nat \<times> nat) list" and c
    by (induction ms arbitrary: c) (auto simp: Let_def intro: kv_ok_seq_cp kv_ok_seq_rm)
  assume "kv_ok cache"
  then show ?thesis unfolding kv_reorder_def Let_def by (intro 2 [unfolded Let_def] 1)
qed

lemma sample_decoders_total:
  assumes "env_ok env" and "params_ok params" and "decoders_typed (en_vocab env) n (de_decoders st)" and "kv_ok (de_kv st)"
    and "\<forall>j<n. decoder_active (en_vocab env) i (de_decoders st ! j) \<and> decoder_logits (en_vocab env) (de_decoders st ! j)"
  shows "\<exists>st'. sample_decoders env params t_cur n i st = Some st' \<and> kv_ok (de_kv st') \<and> decoders_typed (en_vocab env) n (de_decoders st')
    \<and> (\<forall>j<n. decoder_active (en_vocab env) (Suc i) (de_decoders st' ! j))"
proof -
  have len: "n \<le> length (de_decoders st)" and typed: "\<And>j. j < n \<Longrightarrow> decoder_typed (en_vocab env) (de_decoders st ! j)"
    using assms(3) by (auto simp: decoders_typed_def)
  have idle: "decoder_active (en_vocab env) (Suc i) d" if "finished d" for d :: "'b whisper_decoder" using that by (simp add: decoder_active_def)
  consider (greedy) "fp_strategy params = WHISPER_SAMPLING_GREEDY"
    | (beam) "fp_strategy params \<noteq> WHISPER_SAMPLING_GREEDY" "fp_strategy params = WHISPER_SAMPLING_BEAM_SEARCH" "1 \<le> fp_beam_search_beam_size params"
    using assms(2) by (cases "fp_strategy params = WHISPER_SAMPLING_GREEDY") (auto simp: params_ok_def)
  then show ?thesis
  proof cases
    case greedy
    let ?P = "\<lambda>_ d. decoder_typed (en_vocab env) d \<and> decoder_active (en_vocab env) (Suc i) d"
    have "\<exists>d. Some (if finished (de_decoders st ! j) then de_decoders st ! j else sample_greedy env t_cur (de_decoders st ! j)) = Some d \<and> ?P j d"
      if "j < n" for j
      using sample_greedy_typed [OF assms(1) typed [OF that]] assms(5) typed [OF that] idle that by auto
    from for_decoders_total [where P = ?P and decoders = "de_decoders st" and
        f = "\<lambda>j d. Some (if finished d then d else sample_greedy env t_cur d)", OF this len] show ?thesis
      using greedy assms(3,4) by (auto simp: sample_decoders_def decoders_typed_def)
  next
    case beam
    let ?k = "nat (fp_beam_search_beam_size params)"
    have k: "1 \<le> ?k" using beam(3) by linarith
    obtain ds cs ns where ds: "for_range 0 n (beam_step env ?k) (de_decoders st, [], de_n_sample st) = (ds, cs, ns)" "length ds = length (de_decoders st)"
      "\<forall>j. \<exists>rng. ds ! j = (de_decoders st ! j)\<lparr>dc_rng := rng\<rparr>" "\<forall>c \<in> set cs. candidate_typed (en_vocab env) (Suc i) c"
      "(\<exists>j<n. \<not> finished (de_decoders st ! j)) \<longrightarrow> cs \<noteq> []"
      using beam_steps [OF assms(1,3) le_refl assms(5) k, of "de_n_sample st"] by blast
    have fin: "finished (ds ! j) = finished (de_decoders st ! j)" for j
    proof -
      obtain rng where "ds ! j = (de_decoders st ! j)\<lparr>dc_rng := rng\<rparr>" using ds(3) by blast
      then show ?thesis by (simp add: finished_def)
    qed
    have "mset (en_sort env cs) = mset cs" using assms(1) by (simp add: env_ok_def)
    then have sorted: "set (en_sort env cs) = set cs" "en_sort env cs = [] \<longleftrightarrow> cs = []"
      by (metis set_mset_mset, metis mset_zero_iff)
    obtain ds' cur_c moves where ds': "for_range 0 n (\<lambda>j acc. Option.bind acc (assign_step (en_sort env cs) i j)) (Some (ds, 0, [])) = Some (ds', cur_c, moves)"
      "length ds' = length ds"
      "\<forall>j<n. if finished (ds ! j) then ds' ! j = ds ! j else decoder_typed (en_vocab env) (ds' ! j) \<and> decoder_active (en_vocab env) (Suc i) (ds' ! j)"
      using assign_steps [of "en_sort env cs" "en_vocab env" i n ds n] ds(2,4,5) len fin sorted by auto
    have "decoder_typed (en_vocab env) (ds' ! j) \<and> decoder_active (en_vocab env) (Suc i) (ds' ! j)" if "j < n" for j
    proof (cases "finished (ds ! j)")
      case True
      obtain rng where "ds ! j = (de_decoders st ! j)\<lparr>dc_rng := rng\<rparr>" using ds(3) by blast
      then have "decoder_typed (en_vocab env) (ds ! j)" using typed [OF that] by simp
      then show ?thesis using True ds'(3) that idle [of "ds' ! j"] by auto
    next
      case False
      then show ?thesis using ds'(3) that by auto
    qed
    moreover have "sample_decoders env params t_cur n i st
        = Some (st\<lparr>de_decoders := ds', de_n_sample := ns, de_kv := kv_reorder moves (de_kv st)\<rparr>)"
      using beam ds(1) ds'(1) by (simp add: sample_decoders_def)
    ultimately show ?thesis
      using assms(3) ds(2) ds'(2) kv_ok_reorder [OF assms(4)] by (auto simp: decoders_typed_def)
  qed
qed

section \<open>The update of a decoder\<close>

lemma move_window_typed:
  assumes "vocab_ok vocab" and "decoder_typed vocab d" and "length (sq_tokens (dc_sequence d)) = Suc i" and "token_typed vocab token"
  shows "decoder_typed vocab (move_window vocab i token d)"
  using assms by (auto simp: move_window_def decoder_typed_def vocab_ok_def token_typed_def Let_def)

lemma move_window_fields [simp]:
  "dc_completed (move_window vocab i token d) = dc_completed d" "dc_grammar (move_window vocab i token d) = dc_grammar d"
  "sq_tokens (dc_sequence (move_window vocab i token d)) = sq_tokens (dc_sequence d)"
  by (simp_all add: move_window_def Let_def)

lemma complete_decoder_typed:
  assumes "decoder_typed vocab d" and "length (sq_tokens (dc_sequence d)) = Suc i"
  shows "decoder_typed vocab (complete_decoder params seek seek_end i d) \<and> finished (complete_decoder params seek seek_end i d)"
  using assms by (auto simp: complete_decoder_def decoder_typed_def finished_def Let_def)

lemma update_decoder_total:
  assumes "env_ok env" and "decoder_typed (en_vocab env) d" and "decoder_active (en_vocab env) (Suc i) d"
  shows "\<exists>d'. update_decoder env params seek seek_end n_max i d = Some d' \<and> decoder_typed (en_vocab env) d' \<and> decoder_active (en_vocab env) (Suc i) d'"
proof (cases "finished d")
  case True
  then show ?thesis using assms(2,3) by (simp add: update_decoder_def)
next
  case False
  let ?tokens = "sq_tokens (dc_sequence d)"
  have len: "length ?tokens = Suc i" and g: "gr_rules (dc_grammar d) = []" using assms(3) False by (auto simp: decoder_active_def)
  then have ne: "?tokens \<noteq> []" by auto
  define m where "m = move_window (en_vocab env) i (last ?tokens) d"
  have vocab: "vocab_ok (en_vocab env)" using assms(1) by (simp add: env_ok_def)
  have "token_typed (en_vocab env) (last ?tokens)" using assms(2) ne by (simp add: decoder_typed_def)
  then have m: "decoder_typed (en_vocab env) m" "length (sq_tokens (dc_sequence m)) = Suc i" "gr_rules (dc_grammar m) = []"
    using move_window_typed [OF vocab assms(2) len] len g by (simp_all add: m_def)
  have accept: "whisper_grammar_accept_token (en_fuel env) (token_bytes (en_vocab env)) (dc_grammar m) i' = Some (dc_grammar m)" for i'
    using m(3) by (simp add: whisper_grammar_accept_token_def)
  show ?thesis
    using complete_decoder_typed [OF m(1,2), of params seek seek_end] m False ne
    unfolding update_decoder_def Let_def m_def [symmetric]
    by (auto simp: accept decoder_active_def finished_def decoder_typed_def)
qed

section \<open>The next logits\<close>

lemma batch_steps:
  assumes "m \<le> length decoders"
  shows "\<exists>ds batch. for_range 0 m (batch_step n_past) (decoders, \<lparr>bt_token = [], bt_pos = [], bt_seq_id = [], bt_logits = []\<rparr>) = (ds, batch)
    \<and> length ds = length decoders \<and> (\<forall>j. \<exists>b. ds ! j = (decoders ! j)\<lparr>dc_i_batch := b\<rparr>)
    \<and> (\<forall>j<m. \<not> finished (decoders ! j) \<longrightarrow> dc_i_batch (ds ! j) < bt_n_tokens batch) \<and> (\<forall>j \<ge> m. ds ! j = decoders ! j)
    \<and> bt_n_tokens batch \<le> m \<and> length (bt_seq_id batch) = bt_n_tokens batch \<and> (\<forall>ids \<in> set (bt_seq_id batch). ids \<noteq> [])
    \<and> set (bt_pos batch) \<subseteq> {n_past} \<and> bt_logits batch = replicate (bt_n_tokens batch) True"
  using assms
proof (induction m)
  case 0
  have "\<exists>b. decoders ! j = (decoders ! j)\<lparr>dc_i_batch := b\<rparr>" for j by (rule exI [of _ "dc_i_batch (decoders ! j)"]) simp
  then show ?case by (simp add: bt_n_tokens_def)
next
  case (Suc m)
  then obtain ds batch where ds: "for_range 0 m (batch_step n_past) (decoders, \<lparr>bt_token = [], bt_pos = [], bt_seq_id = [], bt_logits = []\<rparr>) = (ds, batch)"
    "length ds = length decoders" "\<forall>j. \<exists>b. ds ! j = (decoders ! j)\<lparr>dc_i_batch := b\<rparr>"
    "\<forall>j<m. \<not> finished (decoders ! j) \<longrightarrow> dc_i_batch (ds ! j) < bt_n_tokens batch" "\<forall>j \<ge> m. ds ! j = decoders ! j"
    "bt_n_tokens batch \<le> m" "length (bt_seq_id batch) = bt_n_tokens batch" "\<forall>ids \<in> set (bt_seq_id batch). ids \<noteq> []"
    "set (bt_pos batch) \<subseteq> {n_past}" "bt_logits batch = replicate (bt_n_tokens batch) True"
    by auto
  show ?case
  proof (cases "finished (decoders ! m)")
    case True
    then have "for_range 0 (Suc m) (batch_step n_past) (decoders, \<lparr>bt_token = [], bt_pos = [], bt_seq_id = [], bt_logits = []\<rparr>) = (ds, batch)"
      using ds(1,5) by (simp add: batch_step_def)
    then show ?thesis using ds True by (auto simp: less_Suc_eq)
  next
    case False
    let ?d = "(decoders ! m)\<lparr>dc_i_batch := bt_n_tokens batch\<rparr>"
    define batch' where "batch' = batch_push (td_id (last (sq_tokens (dc_sequence (decoders ! m))))) n_past (int m) batch"
    have step: "for_range 0 (Suc m) (batch_step n_past) (decoders, \<lparr>bt_token = [], bt_pos = [], bt_seq_id = [], bt_logits = []\<rparr>) = (ds[m := ?d], batch')"
      using ds(1,5) False by (simp add: batch_step_def batch'_def)
    have n: "bt_n_tokens batch' = Suc (bt_n_tokens batch)" by (simp add: batch'_def batch_push_def bt_n_tokens_def)
    have "\<forall>j. \<exists>b. ds[m := ?d] ! j = (decoders ! j)\<lparr>dc_i_batch := b\<rparr>" using ds(2,3) Suc.prems by (auto simp: nth_list_update)
    moreover have "\<forall>j<Suc m. \<not> finished (decoders ! j) \<longrightarrow> dc_i_batch (ds[m := ?d] ! j) < bt_n_tokens batch'"
      using ds(2,4) Suc.prems n by (auto simp: nth_list_update less_Suc_eq)
    moreover have "length (bt_seq_id batch') = bt_n_tokens batch'" "\<forall>ids \<in> set (bt_seq_id batch'). ids \<noteq> []"
      "set (bt_pos batch') \<subseteq> {n_past}" "bt_logits batch' = replicate (bt_n_tokens batch') True"
      using ds(7-10) n by (auto simp: batch'_def batch_push_def replicate_append_same)
    ultimately show ?thesis using step ds(2,5,6) n by (intro exI [of _ "ds[m := ?d]"] exI [of _ batch']) simp
  qed
qed

lemma kv_prepare_total:
  assumes "kv_ok cache" and "batch_ok batch"
  shows "\<exists>found cache'. kv_prepare params cache batch = Some (found, cache') \<and> kv_ok cache'"
  using kv_ok_find_slot [OF assms] by (auto simp: kv_prepare_def Let_def kv_ok_def)

lemma decode_internal_total:
  assumes "env_ok env" and "kv_ok (de_kv st)" and "batch_ok batch" and "int (bt_n_tokens batch) \<le> en_n_text_ctx env"
    and "length (bt_logits batch) = bt_n_tokens batch"
  shows "\<exists>ok st'. whisper_decode_internal env batch st = Some (ok, st') \<and> kv_ok (de_kv st') \<and> de_decoders st' = de_decoders st
    \<and> (ok \<longrightarrow> length (de_logits st') = bt_n_tokens batch
        \<and> (\<forall>k < bt_n_tokens batch. bt_logits batch ! k \<longrightarrow> length (de_logits st' ! k) = nat (vb_n_vocab (en_vocab env))))"
proof -
  obtain found kv where kv: "kv_prepare (en_context_params env) (de_kv st) batch = Some (found, kv)" "kv_ok kv"
    using kv_prepare_total [OF assms(2,3)] by blast
  have rows: "length rows = bt_n_tokens batch" "\<forall>row \<in> set rows. length row = nat (vb_n_vocab (en_vocab env))"
    if "en_graph env (de_model st) kv batch (kq_mask kv batch) = Some (model, rows)" for model rows
    using assms(1) that unfolding env_ok_def graph_rows_def by blast+
  show ?thesis
  proof (cases "found \<and> en_graph env (de_model st) kv batch (kq_mask kv batch) \<noteq> None")
    case True
    then obtain model rs where g: "en_graph env (de_model st) kv batch (kq_mask kv batch) = Some (model, rs)" by auto
    have "length (rs ! k) = nat (vb_n_vocab (en_vocab env))" if "k < bt_n_tokens batch" for k using rows [OF g] that by simp
    then show ?thesis using True assms(4,5) kv g by (simp add: whisper_decode_internal_def Let_def write_rows_def)
  next
    case False
    then show ?thesis using assms(4) kv
      by (cases found; cases "en_graph env (de_model st) kv batch (kq_mask kv batch)") (auto simp: whisper_decode_internal_def Let_def)
  qed
qed

lemma process_logits_total:
  assumes "vocab_ok vocab" and "params_ok params"
  shows "\<exists>d'. whisper_process_logits depth fuel regex_match callback vocab n_audio_ctx params temperature row d = Some d'"
proof -
  have "\<exists>blank. suppress_blank vocab params (sq_tokens (dc_sequence d)) (scale_logits temperature row) = Some blank"
    using assms(1) by (auto simp: suppress_blank_def vocab_ok_def)
  then obtain blank where "suppress_blank vocab params (sq_tokens (dc_sequence d)) (scale_logits temperature row) = Some blank" ..
  then show ?thesis
    using assms(2) by (auto simp: whisper_process_logits_def Let_def timestamp_rule_def params_ok_def)
qed

lemma process_decoder_total:
  assumes "env_ok env" and "params_ok params" and "dc_i_batch d < length logits" and "length (logits ! dc_i_batch d) = nat (vb_n_vocab (en_vocab env))"
  shows "\<exists>d' l lp ps. process_decoder env params t_cur logits d = Some d' \<and> d' = d\<lparr>dc_logits := l, dc_logprobs := lp, dc_probs := ps\<rparr>
    \<and> length ps = nat (vb_n_vocab (en_vocab env))"
proof -
  let ?cb = "if fp_logits_filter_callback params \<noteq> None then Some (en_logits_filter env) else None"
  have cb: "callback_masks ?cb" using assms(1) by (auto simp: env_ok_def callback_masks_def)
  obtain d' where d': "whisper_process_logits (en_depth env) (en_fuel env) (en_regex_match env) ?cb (en_vocab env) (en_n_audio_ctx env) params t_cur (logits ! dc_i_batch d) d = Some d'"
    using process_logits_total [of "en_vocab env" params] assms(1,2) unfolding env_ok_def by blast
  obtain l lp where "d' = d\<lparr>dc_logits := l, dc_logprobs := lp, dc_probs := whisper_compute_probs l lp\<rparr>"
    by (rule process_logits_stages [OF d' cb], rule that, assumption)
  then show ?thesis using d' process_logits_length(1) [OF d' cb] assms(3,4) by (auto simp: process_decoder_def)
qed

section \<open>The loop over the tokens\<close>

definition window_typed :: "('s, 'r) whisper_env \<Rightarrow> nat \<Rightarrow> nat \<Rightarrow> ('s, 'r) decoding \<Rightarrow> bool" where
  "window_typed env n i st \<longleftrightarrow> kv_ok (de_kv st) \<and> decoders_typed (en_vocab env) n (de_decoders st)
     \<and> (\<forall>j<n. decoder_active (en_vocab env) i (de_decoders st ! j) \<and> decoder_logits (en_vocab env) (de_decoders st ! j))"

definition window_settled :: "('s, 'r) whisper_env \<Rightarrow> nat \<Rightarrow> ('s, 'r) decoding \<Rightarrow> bool" where
  "window_settled env n st \<longleftrightarrow> kv_ok (de_kv st) \<and> decoders_typed (en_vocab env) n (de_decoders st)"

lemma window_typed_settled: "window_typed env n i st \<Longrightarrow> window_settled env n st"
  by (simp add: window_typed_def window_settled_def)

lemma decode_round_total:
  assumes "env_ok env" and "params_ok params" and "window_typed env n i st" and "int n_prompt + int i < POS_MAX"
  shows "\<exists>code continue st'. decode_round env params t_cur n seek seek_end n_prompt n_max i st = Some (code, continue, st')
    \<and> code \<in> {0, - 9} \<and> window_settled env n st' \<and> (continue \<longrightarrow> code = 0 \<and> window_typed env n (Suc i) st')"
proof -
  let ?v = "en_vocab env"
  let ?empty = "\<lparr>bt_token = [], bt_pos = [], bt_seq_id = [], bt_logits = []\<rparr>"
  obtain st1 where sample: "sample_decoders env params t_cur n i st = Some st1" "kv_ok (de_kv st1)" "decoders_typed ?v n (de_decoders st1)"
    "\<forall>j<n. decoder_active ?v (Suc i) (de_decoders st1 ! j)"
    using sample_decoders_total [OF assms(1,2), of n st i t_cur] assms(3) unfolding window_typed_def by blast
  have n8: "n \<le> length (de_decoders st1)" "n \<le> 8" using sample(3) by (auto simp: decoders_typed_def)
  obtain ds where update: "for_decoders n (\<lambda>j d. update_decoder env params seek seek_end n_max i d) (de_decoders st1) = Some ds"
    "length ds = length (de_decoders st1)" "\<forall>j<n. decoder_typed ?v (ds ! j) \<and> decoder_active ?v (Suc i) (ds ! j)"
  proof -
    have "\<exists>d. update_decoder env params seek seek_end n_max i (de_decoders st1 ! j) = Some d \<and> decoder_typed ?v d \<and> decoder_active ?v (Suc i) d"
      if "j < n" for j
      using update_decoder_total [OF assms(1), of "de_decoders st1 ! j" i] sample(3,4) that by (auto simp: decoders_typed_def)
    from for_decoders_total [where P = "\<lambda>_ d. decoder_typed ?v d \<and> decoder_active ?v (Suc i) d" and decoders = "de_decoders st1" and
        f = "\<lambda>j d. update_decoder env params seek seek_end n_max i d", OF this n8(1)] that show thesis by blast
  qed
  have typed: "decoders_typed ?v n ds" using update(2,3) sample(3) by (simp add: decoders_typed_def)
  show ?thesis
  proof (cases "\<forall>j<n. finished (ds ! j)")
    case True
    then show ?thesis using sample(1,2) update(1) typed by (auto simp: decode_round_def window_settled_def)
  next
    case False
    obtain ds2 batch where batch: "for_range 0 n (batch_step (int n_prompt + int i)) (ds, ?empty) = (ds2, batch)" "length ds2 = length ds"
      "\<forall>j. \<exists>b. ds2 ! j = (ds ! j)\<lparr>dc_i_batch := b\<rparr>" "\<forall>j<n. \<not> finished (ds ! j) \<longrightarrow> dc_i_batch (ds2 ! j) < bt_n_tokens batch"
      "bt_n_tokens batch \<le> n" "length (bt_seq_id batch) = bt_n_tokens batch" "\<forall>ids \<in> set (bt_seq_id batch). ids \<noteq> []"
      "set (bt_pos batch) \<subseteq> {int n_prompt + int i}" "bt_logits batch = replicate (bt_n_tokens batch) True"
      using batch_steps [of n ds "int n_prompt + int i"] n8(1) update(2) by auto
    have keeps: "decoder_typed ?v (ds2 ! j) \<and> decoder_active ?v (Suc i) (ds2 ! j) \<and> finished (ds2 ! j) = finished (ds ! j)" if "j < n" for j
    proof -
      obtain b where "ds2 ! j = (ds ! j)\<lparr>dc_i_batch := b\<rparr>" using batch(3) by blast
      then show ?thesis using update(3) that by (simp add: decoder_active_def finished_def)
    qed
    have "batch_ok batch" using batch(6,7,8) assms(4) by (auto simp: batch_ok_def)
    moreover have "int (bt_n_tokens batch) \<le> en_n_text_ctx env" using assms(1) batch(5) n8(2) by (simp add: env_ok_def)
    moreover have "length (bt_logits batch) = bt_n_tokens batch" using batch(9) by simp
    ultimately obtain ok st2 where decode: "whisper_decode_internal env batch (st1\<lparr>de_decoders := ds2\<rparr>) = Some (ok, st2)"
      "kv_ok (de_kv st2)" "de_decoders st2 = ds2"
      "ok \<longrightarrow> length (de_logits st2) = bt_n_tokens batch \<and> (\<forall>k < bt_n_tokens batch. length (de_logits st2 ! k) = nat (vb_n_vocab ?v))"
      using decode_internal_total [OF assms(1), of "st1\<lparr>de_decoders := ds2\<rparr>" batch] sample(2) batch(9) by auto
    have settled: "window_settled env n st2"
      using decode(2,3) keeps batch(2) update(2) sample(3) by (simp add: window_settled_def decoders_typed_def)
    have unfold: "decode_round env params t_cur n seek seek_end n_prompt n_max i st =
        (if \<not> ok then Some (- 9, False, st2)
         else do { decoders \<leftarrow> for_decoders n (\<lambda>j d. if finished d then Some d else process_decoder env params t_cur (de_logits st2) d) ds2;
                   Some (0, True, st2\<lparr>de_decoders := decoders\<rparr>) })"
      using sample(1) update(1) batch(1) decode(1,3) by (simp add: decode_round_def Let_def if_not_P [OF False])
    show ?thesis
    proof (cases ok)
      case False
      then show ?thesis using unfold settled by auto
    next
      case True
      let ?P = "\<lambda>_ d. decoder_typed ?v d \<and> decoder_active ?v (Suc i) d \<and> decoder_logits ?v d"
      have "\<exists>d. (if finished (ds2 ! j) then Some (ds2 ! j) else process_decoder env params t_cur (de_logits st2) (ds2 ! j)) = Some d \<and> ?P j d" if "j < n" for j
      proof (cases "finished (ds2 ! j)")
        case True
        then show ?thesis using keeps [OF that] by (simp add: decoder_logits_def)
      next
        case unfinished: False
        then have "dc_i_batch (ds2 ! j) < bt_n_tokens batch" using batch(4) keeps [OF that] that by blast
        then obtain d' l lp ps where "process_decoder env params t_cur (de_logits st2) (ds2 ! j) = Some d'"
          "d' = (ds2 ! j)\<lparr>dc_logits := l, dc_logprobs := lp, dc_probs := ps\<rparr>" "length ps = nat (vb_n_vocab ?v)"
          using process_decoder_total [OF assms(1,2), of "ds2 ! j" "de_logits st2" t_cur] decode(4) True by auto
        then show ?thesis using keeps [OF that] unfinished by (auto simp: decoder_active_def decoder_logits_def finished_def)
      qed
      from for_decoders_total [where n = n and P = ?P and decoders = ds2 and
          f = "\<lambda>j d. if finished d then Some d else process_decoder env params t_cur (de_logits st2) d", OF this]
      obtain ds3 where ds3: "for_decoders n (\<lambda>j d. if finished d then Some d else process_decoder env params t_cur (de_logits st2) d) ds2 = Some ds3"
        "length ds3 = length ds2" "\<forall>j<n. ?P j (ds3 ! j)"
        using n8(1) batch(2) update(2) by auto
      have "window_typed env n (Suc i) (st2\<lparr>de_decoders := ds3\<rparr>)"
        using ds3(2,3) decode(2) batch(2) update(2) sample(3) by (simp add: window_typed_def decoders_typed_def)
      moreover from this have "window_settled env n (st2\<lparr>de_decoders := ds3\<rparr>)" by (rule window_typed_settled)
      ultimately show ?thesis using unfold True ds3(1) by auto
    qed
  qed
qed

lemma decode_rounds_total:
  assumes "env_ok env" and "params_ok params" and "window_typed env n i st" and "int n_prompt + int i + int rounds < POS_MAX"
  shows "\<exists>code st'. decode_rounds rounds env params t_cur n seek seek_end n_prompt n_max i st = Some (code, st')
    \<and> code \<in> {0, - 9} \<and> window_settled env n st'"
  using assms(3,4)
proof (induction rounds arbitrary: i st)
  case 0
  then show ?case by (simp add: window_typed_settled)
next
  case (Suc rounds)
  have "int n_prompt + int i < POS_MAX" using Suc.prems(2) by simp
  from decode_round_total [OF assms(1,2) Suc.prems(1) this]
  obtain code continue st' where step: "decode_round env params t_cur n seek seek_end n_prompt n_max i st = Some (code, continue, st')"
    "code \<in> {0, - 9}" "window_settled env n st'" "continue \<longrightarrow> code = 0 \<and> window_typed env n (Suc i) st'"
    by blast
  show ?case
  proof (cases continue)
    case True
    then show ?thesis using step(1,4) Suc.IH [of "Suc i" st'] Suc.prems(2) by simp
  next
    case False
    then show ?thesis using step(1-3) by simp
  qed
qed

section \<open>One temperature\<close>

lemma start_decoder_total:
  assumes "params_ok params"
  shows "\<exists>d'. start_decoder env params d = Some d' \<and> decoder_typed vocab d' \<and> decoder_active vocab 0 d' \<and> \<not> finished d'"
  using assms by (simp add: start_decoder_def params_ok_def decoder_typed_def decoder_active_def finished_def no_grammar_def)

lemma share_steps:
  assumes "n \<le> 8" and "1 \<le> n" and "kv_ok (de_kv st)" and "length (de_decoders st) = 8"
  shows "kv_ok (de_kv (for_range 1 n (\<lambda>j st. st\<lparr>de_kv := whisper_kv_cache_seq_cp (de_kv st) 0 (int j) (- 1) (- 1),
         de_decoders := (de_decoders st)[j := share_logits first (de_decoders st ! j)]\<rparr>) st))
     \<and> length (de_decoders (for_range 1 n (\<lambda>j st. st\<lparr>de_kv := whisper_kv_cache_seq_cp (de_kv st) 0 (int j) (- 1) (- 1),
         de_decoders := (de_decoders st)[j := share_logits first (de_decoders st ! j)]\<rparr>) st)) = 8
     \<and> (\<forall>j<n. de_decoders (for_range 1 n (\<lambda>j st. st\<lparr>de_kv := whisper_kv_cache_seq_cp (de_kv st) 0 (int j) (- 1) (- 1),
         de_decoders := (de_decoders st)[j := share_logits first (de_decoders st ! j)]\<rparr>) st) ! j
           = (if j = 0 then de_decoders st ! 0 else share_logits first (de_decoders st ! j)))"
  (is "?P n (for_range 1 n ?f st)")
proof -
  have "kv_ok (de_kv (for_range 1 n ?f st)) \<and> length (de_decoders (for_range 1 n ?f st)) = 8
    \<and> (\<forall>j<8. de_decoders (for_range 1 n ?f st) ! j = (if 1 \<le> j \<and> j < n then share_logits first (de_decoders st ! j) else de_decoders st ! j))"
    using assms(2,1)
    by (induction n rule: dec_induct) (auto simp: assms(3,4) kv_ok_seq_cp nth_list_update less_Suc_eq)
  then show ?thesis using assms(1) by auto
qed

lemma first_logits_total:
  assumes "env_ok env" and "params_ok params" and "kv_ok (de_kv st)" and "decoders_typed (en_vocab env) n (de_decoders st)" and "1 \<le> n"
    and "\<forall>j<n. decoder_active (en_vocab env) 0 (de_decoders st ! j)" and "1 \<le> n_prompt" and "length (de_logits st) = n_prompt"
    and "length (de_logits st ! (n_prompt - 1)) = nat (vb_n_vocab (en_vocab env))"
  shows "\<exists>st'. first_logits env params t_cur n n_prompt st = Some st' \<and> window_typed env n 0 st'"
proof -
  let ?v = "en_vocab env" and ?d = "(de_decoders st ! 0)\<lparr>dc_i_batch := n_prompt - 1\<rparr>"
  have n: "n \<le> 8" "length (de_decoders st) = 8" using assms(4) by (auto simp: decoders_typed_def)
  obtain first l lp ps where first: "process_decoder env params t_cur (de_logits st) ?d = Some first"
    "first = ?d\<lparr>dc_logits := l, dc_logprobs := lp, dc_probs := ps\<rparr>" "length ps = nat (vb_n_vocab ?v)"
    using process_decoder_total [OF assms(1,2), of ?d "de_logits st" t_cur] assms(7-9) by auto
  define st1 where "st1 = st\<lparr>de_no_speech_prob := no_speech_of ?v (de_logits st), de_decoders := (de_decoders st)[0 := first]\<rparr>"
  have len: "length (de_decoders st1) = 8" and kv: "kv_ok (de_kv st1)" using n(2) assms(3) by (simp_all add: st1_def)
  define st2 where "st2 = for_range 1 n (\<lambda>j st. st\<lparr>de_kv := whisper_kv_cache_seq_cp (de_kv st) 0 (int j) (- 1) (- 1),
         de_decoders := (de_decoders st)[j := share_logits first (de_decoders st ! j)]\<rparr>) st1"
  have run: "first_logits env params t_cur n n_prompt st = Some st2"
    using first(1) unfolding st2_def st1_def by (simp add: first_logits_def)
  have shared: "kv_ok (de_kv st2)" "length (de_decoders st2) = 8"
    "\<forall>j<n. de_decoders st2 ! j = (if j = 0 then de_decoders st1 ! 0 else share_logits first (de_decoders st1 ! j))"
    using share_steps [OF n(1) assms(5) kv len, of first] unfolding st2_def by blast+
  have "decoder_typed ?v (de_decoders st2 ! j) \<and> decoder_active ?v 0 (de_decoders st2 ! j) \<and> decoder_logits ?v (de_decoders st2 ! j)" if "j < n" for j
  proof (cases "j = 0")
    case True
    have "de_decoders st2 ! 0 = first" using shared(3) that True n(2) by (simp add: st1_def)
    then show ?thesis
      using True assms(4,6) that first(2,3) by (auto simp: decoders_typed_def decoder_active_def finished_def decoder_logits_def)
  next
    case False
    have "de_decoders st2 ! j = share_logits first (de_decoders st ! j)" using shared(3) that False by (simp add: st1_def)
    then show ?thesis
      using assms(4,6) that first(2,3) by (auto simp: decoders_typed_def decoder_active_def finished_def decoder_logits_def share_logits_def decoder_typed_def)
  qed
  then show ?thesis using run shared(1,2) n(1) by (simp add: window_typed_def decoders_typed_def)
qed

lemma legacy_batch:
  assumes "prompt \<noteq> []" and "int (length prompt) < POS_MAX"
  shows "batch_ok (whisper_batch_prep_legacy prompt 0 0)" "bt_n_tokens (whisper_batch_prep_legacy prompt 0 0) = length prompt"
    "length (bt_logits (whisper_batch_prep_legacy prompt 0 0)) = length prompt"
    "bt_logits (whisper_batch_prep_legacy prompt 0 0) ! (length prompt - 1)"
  using assms by (auto simp: whisper_batch_prep_legacy_def batch_ok_def bt_n_tokens_def)

lemma decode_window_total:
  assumes "env_ok env" and "params_ok params" and "kv_ok (de_kv st)" and "decoders_typed (en_vocab env) n (de_decoders st)" and "1 \<le> n"
    and "\<forall>j<n. decoder_active (en_vocab env) 0 (de_decoders st ! j)" and "prompt \<noteq> []" and "int (length prompt) \<le> en_n_text_ctx env"
    and "int n_max \<le> en_n_text_ctx env"
  shows "\<exists>code st'. decode_window env params t_cur n seek seek_end prompt n_max st = Some (code, st')
    \<and> code \<in> {0, - 7, - 8, - 9} \<and> window_settled env n st'"
proof -
  obtain ok st1 where grow: "grow_cache env n st = (ok, st1)" by force
  have st1: "kv_ok (de_kv st1)" "de_decoders st1 = de_decoders st"
    using grow assms(3) by (auto simp: grow_cache_def Let_def kv_ok_init split: if_splits)
  show ?thesis
  proof (cases ok)
    case False
    then show ?thesis using grow st1 assms(4) by (auto simp: decode_window_def window_settled_def)
  next
    case True
    let ?st = "st1\<lparr>de_kv := whisper_kv_cache_clear (de_kv st1)\<rparr>"
    have ctx: "en_n_text_ctx env < 2 ^ 30" using assms(1) by (simp add: env_ok_def)
    then have "int (length prompt) < POS_MAX" using assms(8) by (simp add: POS_MAX_def)
    note batch = legacy_batch [OF assms(7) this]
    have "kv_ok (de_kv ?st)" using st1(1) by (simp add: kv_ok_clear)
    from decode_internal_total [OF assms(1) this batch(1)]
    obtain ok2 st2 where decode: "whisper_decode_internal env (whisper_batch_prep_legacy prompt 0 0) ?st = Some (ok2, st2)" "kv_ok (de_kv st2)"
      "de_decoders st2 = de_decoders st" "ok2 \<longrightarrow> length (de_logits st2) = length prompt
        \<and> length (de_logits st2 ! (length prompt - 1)) = nat (vb_n_vocab (en_vocab env))"
      using batch(2-4) assms(7,8) st1(2) by (auto simp: neq_Nil_conv)
    show ?thesis
    proof (cases ok2)
      case False
      then show ?thesis using True grow decode(1-3) assms(4) by (auto simp: decode_window_def window_settled_def)
    next
      case ok2: True
      have "1 \<le> length prompt" using assms(7) by (cases prompt) auto
      with first_logits_total [OF assms(1,2) decode(2), of n "length prompt" t_cur] decode(3,4) ok2 assms(4-6)
      obtain st3 where first: "first_logits env params t_cur n (length prompt) st2 = Some st3" "window_typed env n 0 st3" by auto
      have "int (length prompt) + int 0 + int n_max < POS_MAX" using assms(8,9) ctx by (simp add: POS_MAX_def)
      from decode_rounds_total [OF assms(1,2) first(2) this, of t_cur seek seek_end n_max] show ?thesis
        using True grow decode(1) ok2 first(1) by (auto simp: decode_window_def)
    qed
  qed
qed

lemma build_prompt_total:
  assumes "fp_carry_initial_prompt params \<longrightarrow> int (length past0) + 1 \<le> max_prompt_ctx"
  shows "\<exists>past. build_prompt vocab params max_prompt_ctx t_cur past0 past1 prompt_init = Some (past @ prompt_init)
    \<and> int (length past) \<le> max 0 max_prompt_ctx"
proof -
  let ?can0 = "fp_carry_initial_prompt params \<and> past0 \<noteq> []"
  show ?thesis
  proof (cases "fp_n_max_text_ctx params > 0 \<and> t_cur < 1 / 2 \<and> max_prompt_ctx > 0 \<and> (?can0 \<or> past1 \<noteq> [])")
    case True
    define n0 where "n0 = (if ?can0 then length past0 else 0)"
    define n1 where "n1 = min (max_prompt_ctx - int n0 - 1) (int (length past1))"
    have n1: "0 \<le> n1" "nat n1 \<le> length past1" "int n0 + 1 + n1 \<le> max_prompt_ctx" "n0 \<le> length past0"
      using True assms by (auto simp: n0_def n1_def)
    have "build_prompt vocab params max_prompt_ctx t_cur past0 past1 prompt_init
        = Some ((vb_token_prev vocab # drop (length past0 - n0) past0 @ drop (length past1 - nat n1) past1) @ prompt_init)"
      using True n1(1) by (simp add: build_prompt_def Let_def flip: n0_def n1_def)
    then show ?thesis using n1 by (intro exI conjI) (assumption, simp)
  next
    case False
    then show ?thesis by (auto simp: build_prompt_def Let_def)
  qed
qed

lemma decode_temperature_total:
  assumes "env_ok env" and "params_ok params" and "kv_ok (de_kv st)" and "length (de_decoders st) = 8" and "1 \<le> n" and "n \<le> 8"
    and "fp_carry_initial_prompt params \<longrightarrow> int (length past0) + 1 \<le> max_prompt_ctx"
    and "max_prompt_ctx \<le> tdiv (en_n_text_ctx env) 2" and "prompt_init \<noteq> []" and "length prompt_init \<le> 4"
  shows "\<exists>code prompt st'. decode_temperature env params t_cur n seek seek_end max_prompt_ctx past0 past1 prompt_init st = Some (code, prompt, st')
    \<and> code \<in> {0, - 7, - 8, - 9} \<and> window_settled env n st' \<and> (\<exists>past. prompt = past @ prompt_init) \<and> int (length prompt) \<le> en_n_text_ctx env"
proof -
  let ?v = "en_vocab env"
  have "\<exists>d. start_decoder env params (de_decoders st ! j) = Some d \<and> (decoder_typed ?v d \<and> decoder_active ?v 0 d)" for j
    using start_decoder_total [OF assms(2), of env "de_decoders st ! j" ?v] by blast
  then obtain ds where start: "for_decoders n (\<lambda>_. start_decoder env params) (de_decoders st) = Some ds" "length ds = 8"
    "\<forall>j<n. decoder_typed ?v (ds ! j) \<and> decoder_active ?v 0 (ds ! j)"
    using for_decoders_total [where n = n and f = "\<lambda>_. start_decoder env params" and decoders = "de_decoders st" and
        P = "\<lambda>_ d. decoder_typed ?v d \<and> decoder_active ?v 0 d"] assms(4,6) by auto
  obtain past where prompt: "build_prompt ?v params max_prompt_ctx t_cur past0 past1 prompt_init = Some (past @ prompt_init)"
    "int (length past) \<le> max 0 max_prompt_ctx"
    using build_prompt_total [OF assms(7)] by blast
  have ctx: "8 \<le> en_n_text_ctx env" using assms(1) by (simp add: env_ok_def)
  then have half: "tdiv (en_n_text_ctx env) 2 = en_n_text_ctx env div 2" by (simp add: tdiv_def)
  have fits: "int (length (past @ prompt_init)) \<le> en_n_text_ctx env" using prompt(2) assms(8,10) ctx half by simp
  have "en_n_text_ctx env div 2 \<le> en_n_text_ctx env" using ctx zdiv_mono2 [of "en_n_text_ctx env" 1 2] by simp
  then have "int (nat (tdiv (en_n_text_ctx env) 2 - 4)) \<le> en_n_text_ctx env" using ctx half by simp
  with decode_window_total [OF assms(1,2), of "st\<lparr>de_decoders := ds\<rparr>" n "past @ prompt_init" "nat (tdiv (en_n_text_ctx env) 2 - 4)" t_cur seek seek_end]
  obtain code st' where "decode_window env params t_cur n seek seek_end (past @ prompt_init) (nat (tdiv (en_n_text_ctx env) 2 - 4)) (st\<lparr>de_decoders := ds\<rparr>) = Some (code, st')"
    "code \<in> {0, - 7, - 8, - 9}" "window_settled env n st'"
    using assms(3,5,6,9) start(2,3) fits by (auto simp: decoders_typed_def)
  then show ?thesis using start(1) prompt(1) fits by (auto simp: decode_temperature_def)
qed

text \<open>The no-speech probability after a prompt of several tokens is not that of the prompt: only the last row of
  its logits is written, and row 0 is read.\<close>

lemma prompt_keeps_first_row:
  assumes "2 \<le> length prompt" and "de_logits st \<noteq> []"
    and "whisper_decode_internal env (whisper_batch_prep_legacy prompt 0 0) st = Some (True, st')"
  shows "hd (de_logits st') = hd (de_logits st)"
proof -
  obtain k where k: "length prompt = Suc (Suc k)" using assms(1) by (auto simp: le_iff_add)
  have "hd (write_rows n (bt_logits (whisper_batch_prep_legacy prompt 0 0)) rows (de_logits st)) = hd (de_logits st)" for n rows
    using assms(2) k by (cases "de_logits st") (simp_all add: write_rows_def whisper_batch_prep_legacy_def hd_map upt_rec resize_def)
  then show ?thesis
    using assms(3) by (auto simp: whisper_decode_internal_def Let_def bind_eq_Some_conv split: if_splits option.splits)
qed


definition example_env :: "(unit, unit) whisper_env" where
  "example_env = \<lparr>en_vocab = example_vocab, en_context_params = whisper_context_default_params, en_n_text_ctx = 16, en_n_audio_ctx = 1500,
     en_n_loaded = 1, en_depth = 1, en_fuel = 1, en_grammar_rules = [], en_regex_match = (\<lambda>_ _. False), en_logits_filter = (\<lambda>_ ls. ls),
     en_graph = (\<lambda>_ _ batch _. Some ((), replicate (bt_n_tokens batch) (replicate 113 (Some 0)))), en_abort = (\<lambda>_. False),
     en_draw = (\<lambda>ps r. (0, r)), en_sort = (\<lambda>cs. cs), en_alloc = (\<lambda>_. True)\<rparr>"

definition example_decoding :: "(unit, unit) decoding" where
  "example_decoding = \<lparr>de_model = (), de_kv = whisper_kv_cache_init 256, de_kv_n_dec = 1, de_logits = [], de_decoders = replicate 8 example_decoder,
     de_no_speech_prob = 0, de_n_sample = 0, de_n_fail_h = 0, de_n_fail_p = 0\<rparr>"

lemma example_env_ok: "env_ok example_env" "params_ok example_params_full" "kv_ok (de_kv example_decoding)" "length (de_decoders example_decoding) = 8"
  by (simp_all add: env_ok_def example_env_def vocab_ok_def example_vocab_def graph_rows_def draws_index_def callback_masks_def
      params_ok_def whisper_full_default_params_def WHISPER_SAMPLING_GREEDY_def example_decoding_def kv_ok_init)


end
