(* ===== verification/Languages.thy ===== *)
theory Languages
  imports Main Prelude TokenChoice
begin

text \<open>
  The table of languages and the tokenizer of the initial prompt in Whisper/src/whisper.cpp, with the regular
  expression that splits a text into words as a function; \<open>c_str\<close> texts are strings. The lemmas: language codes and
  numbers are in bijection, the words are the text, and the tokens spell it if every byte is a token.
\<close>

section \<open>Languages\<close>

definition g_lang :: "(string \<times> int \<times> string) list" where
  "g_lang =
    [(''en'', 0, ''english''), (''zh'', 1, ''chinese''), (''de'', 2, ''german''), (''es'', 3, ''spanish''),
     (''ru'', 4, ''russian''), (''ko'', 5, ''korean''), (''fr'', 6, ''french''), (''ja'', 7, ''japanese''),
     (''pt'', 8, ''portuguese''), (''tr'', 9, ''turkish''), (''pl'', 10, ''polish''), (''ca'', 11, ''catalan''),
     (''nl'', 12, ''dutch''), (''ar'', 13, ''arabic''), (''sv'', 14, ''swedish''), (''it'', 15, ''italian''),
     (''id'', 16, ''indonesian''), (''hi'', 17, ''hindi''), (''fi'', 18, ''finnish''), (''vi'', 19, ''vietnamese''),
     (''he'', 20, ''hebrew''), (''uk'', 21, ''ukrainian''), (''el'', 22, ''greek''), (''ms'', 23, ''malay''),
     (''cs'', 24, ''czech''), (''ro'', 25, ''romanian''), (''da'', 26, ''danish''), (''hu'', 27, ''hungarian''),
     (''ta'', 28, ''tamil''), (''no'', 29, ''norwegian''), (''th'', 30, ''thai''), (''ur'', 31, ''urdu''),
     (''hr'', 32, ''croatian''), (''bg'', 33, ''bulgarian''), (''lt'', 34, ''lithuanian''), (''la'', 35, ''latin''),
     (''mi'', 36, ''maori''), (''ml'', 37, ''malayalam''), (''cy'', 38, ''welsh''), (''sk'', 39, ''slovak''),
     (''te'', 40, ''telugu''), (''fa'', 41, ''persian''), (''lv'', 42, ''latvian''), (''bn'', 43, ''bengali''),
     (''sr'', 44, ''serbian''), (''az'', 45, ''azerbaijani''), (''sl'', 46, ''slovenian''), (''kn'', 47, ''kannada''),
     (''et'', 48, ''estonian''), (''mk'', 49, ''macedonian''), (''br'', 50, ''breton''), (''eu'', 51, ''basque''),
     (''is'', 52, ''icelandic''), (''hy'', 53, ''armenian''), (''ne'', 54, ''nepali''), (''mn'', 55, ''mongolian''),
     (''bs'', 56, ''bosnian''), (''kk'', 57, ''kazakh''), (''sq'', 58, ''albanian''), (''sw'', 59, ''swahili''),
     (''gl'', 60, ''galician''), (''mr'', 61, ''marathi''), (''pa'', 62, ''punjabi''), (''si'', 63, ''sinhala''),
     (''km'', 64, ''khmer''), (''sn'', 65, ''shona''), (''yo'', 66, ''yoruba''), (''so'', 67, ''somali''),
     (''af'', 68, ''afrikaans''), (''oc'', 69, ''occitan''), (''ka'', 70, ''georgian''), (''be'', 71, ''belarusian''),
     (''tg'', 72, ''tajik''), (''sd'', 73, ''sindhi''), (''gu'', 74, ''gujarati''), (''am'', 75, ''amharic''),
     (''yi'', 76, ''yiddish''), (''lo'', 77, ''lao''), (''uz'', 78, ''uzbek''), (''fo'', 79, ''faroese''),
     (''ht'', 80, ''haitian creole''), (''ps'', 81, ''pashto''), (''tk'', 82, ''turkmen''), (''nn'', 83, ''nynorsk''),
     (''mt'', 84, ''maltese''), (''sa'', 85, ''sanskrit''), (''lb'', 86, ''luxembourgish''), (''my'', 87, ''myanmar''),
     (''bo'', 88, ''tibetan''), (''tl'', 89, ''tagalog''), (''mg'', 90, ''malagasy''), (''as'', 91, ''assamese''),
     (''tt'', 92, ''tatar''), (''haw'', 93, ''hawaiian''), (''ln'', 94, ''lingala''), (''ha'', 95, ''hausa''),
     (''ba'', 96, ''bashkir''), (''jw'', 97, ''javanese''), (''su'', 98, ''sundanese''), (''yue'', 99, ''cantonese'')]"

definition whisper_lang_max_id :: int where
  "whisper_lang_max_id = fold (\<lambda>(code, i, name) max_id. max max_id i) g_lang 0"

definition whisper_lang_id :: "string \<Rightarrow> int" where
  "whisper_lang_id lang =
     (case map_of g_lang lang of
        Some (i, name) \<Rightarrow> i
      | None \<Rightarrow> (case find (\<lambda>(code, i, name). name = lang) g_lang of Some (code, i, name) \<Rightarrow> i | None \<Rightarrow> - 1))"

definition whisper_lang_str :: "int \<Rightarrow> string option" where
  "whisper_lang_str lang_id = map_option fst (find (\<lambda>(code, i, name). i = lang_id) g_lang)"

definition whisper_lang_str_full :: "int \<Rightarrow> string option" where
  "whisper_lang_str_full lang_id = map_option (snd \<circ> snd) (find (\<lambda>(code, i, name). i = lang_id) g_lang)"

lemma g_lang_numbers: "map (fst \<circ> snd) g_lang = map int [0..<100]"
  unfolding g_lang_def by code_simp

lemma g_lang_distinct: "distinct (map fst g_lang)" "distinct (map (snd \<circ> snd) g_lang)"
  unfolding g_lang_def by code_simp+

lemma g_lang_find:
  assumes "0 \<le> i" and "i < 100"
  shows "find (\<lambda>(code, k, name). k = i) g_lang = Some (g_lang ! nat i)" and "fst (snd (g_lang ! nat i)) = i"
proof -
  have len: "length g_lang = 100" using arg_cong [OF g_lang_numbers, of length] by simp
  have num: "fst (snd (g_lang ! k)) = int k" if "k < 100" for k
    using arg_cong [OF g_lang_numbers, of "\<lambda>xs. xs ! k"] that len by simp
  show "fst (snd (g_lang ! nat i)) = i" using num [of "nat i"] assms by simp
  show "find (\<lambda>(code, k, name). k = i) g_lang = Some (g_lang ! nat i)"
    unfolding find_Some_iff using assms len num by (intro exI [of _ "nat i"]) (auto simp: case_prod_unfold)
qed

lemma lang_id_str:
  assumes "0 \<le> i" and "i < 100"
  shows "\<exists>code name. whisper_lang_str i = Some code \<and> whisper_lang_id code = i \<and> whisper_lang_str_full i = Some name"
proof -
  obtain code k name where l: "g_lang ! nat i = (code, k, name)" by (cases "g_lang ! nat i")
  have "length g_lang = 100" using arg_cong [OF g_lang_numbers, of length] by simp
  then have "(code, k, name) \<in> set g_lang" using l assms nth_mem [of "nat i" g_lang] by auto
  then have "map_of g_lang code = Some (k, name)" using g_lang_distinct(1) by (simp add: map_of_eq_Some_iff)
  then show ?thesis
    using g_lang_find [OF assms] l by (simp add: whisper_lang_str_def whisper_lang_str_full_def whisper_lang_id_def)
qed

section \<open>The tokenizer\<close>

text \<open>The longest token that starts at \<open>i\<close> and ends at or before \<open>j\<close>, with its end.\<close>

fun longest_token :: "(u8 list \<times> int) list \<Rightarrow> u8 list \<Rightarrow> nat \<Rightarrow> nat \<Rightarrow> (int \<times> nat) option" where
  "longest_token token_to_id word i 0 = None"
| "longest_token token_to_id word i (Suc j) =
     (if Suc j > i
      then case map_of token_to_id (take (Suc j - i) (drop i word)) of
             Some token \<Rightarrow> Some (token, Suc j)
           | None \<Rightarrow> longest_token token_to_id word i j
      else None)"

lemma longest_token_end: "longest_token token_to_id word i j = Some (token, e) \<Longrightarrow> i < e \<and> e \<le> j"
  by (induction token_to_id word i j rule: longest_token.induct) (auto split: if_splits option.splits)

function tokenize_word :: "(u8 list \<times> int) list \<Rightarrow> u8 list \<Rightarrow> nat \<Rightarrow> int list" where
  "tokenize_word token_to_id word i =
     (if i < length word
      then case longest_token token_to_id word i (length word) of
             Some (token, e) \<Rightarrow> token # tokenize_word token_to_id word e
           | None \<Rightarrow> tokenize_word token_to_id word (i + 1)
      else [])"
  by pat_completeness auto
termination
  by (relation "measure (\<lambda>(token_to_id, word, i). length word - i)") (auto dest: longest_token_end)

declare tokenize_word.simps [simp del]

text \<open>The words of the regular expression: contractions, runs of letters, of digits and of other characters with an
  optional space before them, and white space. The classes are those of the C locale. The alternatives are tried
  in order and cover every character, so \<open>regex_search\<close> always finds its match at the start.\<close>

definition is_alpha :: "u8 \<Rightarrow> bool" where
  "is_alpha b \<longleftrightarrow> 0x41 \<le> b \<and> b \<le> 0x5A \<or> 0x61 \<le> b \<and> b \<le> 0x7A"

definition is_digit :: "u8 \<Rightarrow> bool" where
  "is_digit b \<longleftrightarrow> 0x30 \<le> b \<and> b \<le> 0x39"

definition is_space :: "u8 \<Rightarrow> bool" where
  "is_space b \<longleftrightarrow> b = 0x20 \<or> 0x09 \<le> b \<and> b \<le> 0x0D"

definition is_other :: "u8 \<Rightarrow> bool" where
  "is_other b \<longleftrightarrow> \<not> is_space b \<and> \<not> is_alpha b \<and> \<not> is_digit b"

definition contractions :: "u8 list list" where
  "contractions = map (\<lambda>s. 0x27 # ascii s) [''s'', ''t'', ''re'', ''ve'', ''m'', ''ll'', ''d'']"

text \<open>\<open>\s+(?!\S)\<close> gives back its last blank when more text follows, unless it is the only one; \<open>\s+\<close> takes that.\<close>

definition match_length :: "u8 list \<Rightarrow> nat" where
  "match_length txt =
     (case find (\<lambda>c. take (length c) txt = c) contractions of
        Some c \<Rightarrow> length c
      | None \<Rightarrow>
          let body = (if txt \<noteq> [] \<and> hd txt = 0x20 then tl txt else txt); optional = length txt - length body;
              run = (\<lambda>P. length (takeWhile P body))
          in if run is_alpha > 0 then optional + run is_alpha
             else if run is_digit > 0 then optional + run is_digit
             else if run is_other > 0 then optional + run is_other
             else let blanks = length (takeWhile is_space txt)
                  in if blanks < length txt \<and> blanks > 1 then blanks - 1 else blanks)"

lemma match_length_pos:
  assumes "txt \<noteq> []"
  shows "0 < match_length txt"
proof (cases "find (\<lambda>c. take (length c) txt = c) contractions")
  case None
  obtain b rest where str: "txt = b # rest" using assms by (cases "txt") auto
  have "is_space b \<or> is_alpha b \<or> is_digit b \<or> is_other b" by (auto simp: is_other_def)
  moreover have "b = 0x20 \<longrightarrow> is_space b" by (simp add: is_space_def)
  ultimately show ?thesis using None str by (auto simp: match_length_def Let_def)
next
  case (Some c)
  then have "c \<in> set contractions" by (auto simp: find_Some_iff)
  then show ?thesis using Some by (auto simp: match_length_def contractions_def)
qed

function split_words :: "u8 list \<Rightarrow> u8 list list" where
  "split_words txt = (if txt = [] then [] else take (match_length txt) txt # split_words (drop (match_length txt) txt))"
  by pat_completeness auto
termination by (relation "measure length") (auto simp: match_length_pos)

declare split_words.simps [simp del]

lemma concat_split_words: "concat (split_words txt) = txt"
  by (induction "txt" rule: split_words.induct) (subst split_words.simps, simp)

definition tokenize :: "whisper_vocab \<Rightarrow> u8 list \<Rightarrow> int list" where
  "tokenize vocab txt = concat (map (\<lambda>word. tokenize_word (vb_token_to_id vocab) word 0) (split_words txt))"

text \<open>The result code and the tokens written.\<close>

definition whisper_tokenize :: "whisper_vocab \<Rightarrow> u8 list \<Rightarrow> int \<Rightarrow> int \<times> int list" where
  "whisper_tokenize vocab txt n_max_tokens =
     (let res = tokenize vocab txt
      in if n_max_tokens < int (length res) then (- int (length res), []) else (int (length res), res))"

lemma tokenize_word_spells:
  assumes "\<forall>b \<in> set word. map_of token_to_id [b] \<noteq> None" and "i \<le> length word"
  shows "\<exists>parts. map (map_of token_to_id) parts = map Some (tokenize_word token_to_id word i) \<and> concat parts = drop i word"
  using assms
proof (induction token_to_id word i rule: tokenize_word.induct)
  case (1 token_to_id word i)
  show ?case
  proof (cases "i < length word")
    case True
    have found: "longest_token token_to_id word i j \<noteq> None" if "i < j" for j
      using that
    proof (induction j)
      case (Suc j)
      show ?case
      proof (cases "i < j")
        case True
        then show ?thesis using Suc by (auto split: option.split)
      next
        case False
        then have "j = i" using Suc.prems by simp
        moreover have "take 1 (drop i word) = [word ! i]" using \<open>i < length word\<close> by (simp add: Cons_nth_drop_Suc [symmetric])
        moreover obtain token where "map_of token_to_id [word ! i] = Some token"
          using bspec [OF 1(3) nth_mem [OF \<open>i < length word\<close>]] by auto
        ultimately show ?thesis by simp
      qed
    qed simp
    then obtain token e where e: "longest_token token_to_id word i (length word) = Some (token, e)" using True by fastforce
    have part: "map_of token_to_id (take (e - i) (drop i word)) = Some token" if "longest_token token_to_id word i j = Some (token, e)" for j
      using that by (induction j) (auto split: if_splits option.splits)
    have bounds: "i < e" "e \<le> length word" using longest_token_end [OF e] by auto
    obtain parts where "map (map_of token_to_id) parts = map Some (tokenize_word token_to_id word e)" "concat parts = drop e word"
      using 1(2) [OF True e refl 1(3) bounds(2)] by blast
    moreover have "take (e - i) (drop i word) @ drop e word = drop i word"
      using append_take_drop_id [of "e - i" "drop i word"] bounds by simp
    ultimately show ?thesis
      using True e part [OF e] by (subst tokenize_word.simps) (auto intro!: exI [of _ "take (e - i) (drop i word) # parts"])
  next
    case False
    then show ?thesis by (subst tokenize_word.simps) simp
  qed
qed

lemma tokenize_spells:
  assumes "\<forall>b \<in> set txt. map_of (vb_token_to_id vocab) [b] \<noteq> None"
  shows "\<exists>parts. map (map_of (vb_token_to_id vocab)) parts = map Some (tokenize vocab txt) \<and> concat parts = txt"
proof -
  have "\<exists>parts. map (map_of (vb_token_to_id vocab)) parts = map Some (concat (map (\<lambda>word. tokenize_word (vb_token_to_id vocab) word 0) ws))
      \<and> concat parts = concat ws" if "\<forall>b \<in> set (concat ws). map_of (vb_token_to_id vocab) [b] \<noteq> None" for ws
    using that
  proof (induction ws)
    case (Cons w ws)
    obtain ps where "map (map_of (vb_token_to_id vocab)) ps = map Some (tokenize_word (vb_token_to_id vocab) w 0)" "concat ps = w"
      using tokenize_word_spells [of w "vb_token_to_id vocab" 0] Cons.prems by auto
    moreover obtain qs where "map (map_of (vb_token_to_id vocab)) qs = map Some (concat (map (\<lambda>word. tokenize_word (vb_token_to_id vocab) word 0) ws))"
      "concat qs = concat ws" using Cons by auto
    ultimately show ?case by (intro exI [of _ "ps @ qs"]) simp
  qed simp
  from this [of "split_words txt"] show ?thesis using assms by (simp add: tokenize_def concat_split_words)
qed

end
