(* ===== verification/WhisperMel.thy ===== *)
theory WhisperMel
  imports Complex_Main "HOL-Library.Multiset" Prelude Fft VadSegments
begin

text \<open>
  The log-Mel spectrogram of Whisper/src/whisper.cpp: \<open>log_mel_spectrogram\<close>, its worker threads and the in-place
  radix-2 FFT over two flat buffers, in which the even and the odd half use the space behind the current one. The
  threads write disjoint columns; they are run one after the other in any order. Floats are reals. \<open>None\<close> is
  undefined behaviour or an exception. The theorem: the result is the normalised short-time Fourier spectrum of the
  padded samples under the Mel filters, whatever the number and the order of the threads and the old contents.
\<close>

section \<open>Tables\<close>

definition WHISPER_N_FFT :: nat where
  "WHISPER_N_FFT = 400"

definition WHISPER_HOP_LENGTH :: nat where
  "WHISPER_HOP_LENGTH = 160"

definition sin_vals :: "real list" where
  "sin_vals = map (\<lambda>i. sin (2 * pi * real i / real WHISPER_N_FFT)) [0..<WHISPER_N_FFT]"

definition cos_vals :: "real list" where
  "cos_vals = map (\<lambda>i. cos (2 * pi * real i / real WHISPER_N_FFT)) [0..<WHISPER_N_FFT]"

definition fill_hann_window :: "nat \<Rightarrow> bool \<Rightarrow> real list" where
  "fill_hann_window len periodic =
     (let offset = (if periodic then 0 else - 1) in map (\<lambda>i. 1 / 2 * (1 - cos (2 * pi * real i / (real len + offset)))) [0..<len])"

section \<open>The transform\<close>

text \<open>An input pointer is \<open>inp\<close> with an offset \<open>io\<close>, an output pointer \<open>out\<close> with \<open>oo\<close>.\<close>

definition whisper_dft :: "real list \<Rightarrow> nat \<Rightarrow> nat \<Rightarrow> real list \<Rightarrow> nat \<Rightarrow> real list" where
  "whisper_dft inp io n out oo =
     (let sin_cos_step = WHISPER_N_FFT div n
      in for_range 0 n (\<lambda>k out.
           let (re, im) = for_range 0 n (\<lambda>t (re, im).
                 let idx = (k * t * sin_cos_step) mod WHISPER_N_FFT
                 in (re + inp ! (io + t) * cos_vals ! idx, im - inp ! (io + t) * sin_vals ! idx)) (0, 0)
           in out[oo + (k * 2 + 0) := re, oo + (k * 2 + 1) := im]) out)"

text \<open>One step of the recombination of the transforms of the even and the odd samples.\<close>

definition butterfly :: "nat \<Rightarrow> nat \<Rightarrow> nat \<Rightarrow> nat \<Rightarrow> nat \<Rightarrow> nat \<Rightarrow> real list \<Rightarrow> real list" where
  "butterfly oo even_fft odd_fft half_n sin_cos_step k out =
     (let idx = k * sin_cos_step; re = cos_vals ! idx; im = - sin_vals ! idx;
          re_odd = out ! (odd_fft + (2 * k + 0)); im_odd = out ! (odd_fft + (2 * k + 1));
          out = out[oo + (2 * k + 0) := out ! (even_fft + (2 * k + 0)) + re * re_odd - im * im_odd];
          out = out[oo + (2 * k + 1) := out ! (even_fft + (2 * k + 1)) + re * im_odd + im * re_odd];
          out = out[oo + (2 * (k + half_n) + 0) := out ! (even_fft + (2 * k + 0)) - re * re_odd + im * im_odd]
      in out[oo + (2 * (k + half_n) + 1) := out ! (even_fft + (2 * k + 1)) - re * im_odd - im * re_odd])"

text \<open>The transform of no samples, on which the code does not return, is never asked for.\<close>

function whisper_fft :: "nat \<Rightarrow> real list \<Rightarrow> nat \<Rightarrow> real list \<Rightarrow> nat \<Rightarrow> real list \<times> real list" where
  "whisper_fft n inp io out oo =
     (if n \<le> 1 then (inp, out[oo := inp ! io, oo + 1 := 0])
      else
        let half_n = n div 2
        in if n - half_n * 2 = 1 then (inp, whisper_dft inp io n out oo)
           else
             let even = io + n;
                 inp = for_range 0 half_n (\<lambda>i inp. inp[even + i := inp ! (io + 2 * i)]) inp;
                 even_fft = oo + 2 * n;
                 (inp, out) = whisper_fft half_n inp even out even_fft;
                 odd = even;
                 inp = for_range 0 half_n (\<lambda>i inp. inp[odd + i := inp ! (io + (2 * i + 1))]) inp;
                 odd_fft = even_fft + n;
                 (inp, out) = whisper_fft half_n inp odd out odd_fft;
                 sin_cos_step = WHISPER_N_FFT div n
             in (inp, for_range 0 half_n (butterfly oo even_fft odd_fft half_n sin_cos_step) out))"
  by pat_completeness auto
termination by (relation "measure (\<lambda>(n, inp, io, out, oo). n)") auto

declare whisper_fft.simps [simp del]

section \<open>The spectrogram\<close>

record whisper_filters =
  fl_n_mel :: nat
  fl_n_fft :: nat
  fl_data :: "real list"

record whisper_mel =
  ml_n_len :: nat
  ml_n_len_org :: int
  ml_n_mel :: nat
  ml_data :: "real list"

text \<open>\<open>for (; i < n; i += w)\<close> with the index it leaves behind.\<close>

function stride_loop :: "nat \<Rightarrow> nat \<Rightarrow> (nat \<Rightarrow> 's \<Rightarrow> 's) \<Rightarrow> nat \<Rightarrow> 's \<Rightarrow> nat \<times> 's" where
  "stride_loop w n f i s = (if 0 < w \<and> i < n then stride_loop w n f (i + w) (f i s) else (i, s))"
  by pat_completeness auto
termination by (relation "measure (\<lambda>(w, n, f, i, s). n - i)") auto

declare stride_loop.simps [simp del]

definition load_frame :: "real list \<Rightarrow> real list \<Rightarrow> nat \<Rightarrow> nat \<Rightarrow> real list \<Rightarrow> real list" where
  "load_frame hann samples n_samples offset fft_in =
     (let fft_in = for_range 0 (min WHISPER_N_FFT (n_samples - offset)) (\<lambda>j xs. xs[j := hann ! j * samples ! (offset + j)]) fft_in
      in if n_samples - offset < WHISPER_N_FFT
         then take (n_samples - offset) fft_in @ replicate (length fft_in - (n_samples - offset)) 0 else fft_in)"

definition squares :: "nat \<Rightarrow> real list \<Rightarrow> real list" where
  "squares n_fft fft_out =
     for_range 0 n_fft (\<lambda>j xs. xs[j := xs ! (2 * j + 0) * xs ! (2 * j + 0) + xs ! (2 * j + 1) * xs ! (2 * j + 1)]) fft_out"

definition mel_sum :: "whisper_filters \<Rightarrow> real list \<Rightarrow> nat \<Rightarrow> real" where
  "mel_sum filters fft_out j =
     (let term' = (\<lambda>k. fft_out ! k * fl_data filters ! (j * fl_n_fft filters + k));
          (k, acc) = lanes_loop 4 (fl_n_fft filters) (\<lambda>k acc. acc + (term' (k + 0) + term' (k + 1) + term' (k + 2) + term' (k + 3))) 0 0
      in for_range k (fl_n_fft filters) (\<lambda>k acc. acc + term' k) acc)"

definition worker_frame :: "real list \<Rightarrow> real list \<Rightarrow> nat \<Rightarrow> whisper_filters \<Rightarrow> nat \<Rightarrow> nat \<Rightarrow> nat
    \<Rightarrow> real list \<times> real list \<times> real list \<Rightarrow> real list \<times> real list \<times> real list" where
  "worker_frame hann samples n_samples filters n_len n_mel i = (\<lambda>(fft_in, fft_out, mel_data).
     let fft_in = load_frame hann samples n_samples (i * WHISPER_HOP_LENGTH) fft_in;
         (fft_in, fft_out) = whisper_fft WHISPER_N_FFT fft_in 0 fft_out 0;
         fft_out = squares (fl_n_fft filters) fft_out
     in (fft_in, fft_out,
         for_range 0 n_mel (\<lambda>j xs. xs[j * n_len + i := log 10 (max (mel_sum filters fft_out j) (1 / 10 ^ 10))]) mel_data))"

definition log_mel_spectrogram_worker_thread :: "nat \<Rightarrow> real list \<Rightarrow> real list \<Rightarrow> nat \<Rightarrow> nat \<Rightarrow> whisper_filters \<Rightarrow> nat \<Rightarrow> nat
    \<Rightarrow> real list \<Rightarrow> real list" where
  "log_mel_spectrogram_worker_thread ith hann samples n_samples n_threads filters n_len n_mel mel_data =
     (let (i, fft_in, fft_out, mel_data) =
            stride_loop n_threads (min (n_samples div WHISPER_HOP_LENGTH + 1) n_len) (worker_frame hann samples n_samples filters n_len n_mel)
              ith (replicate (WHISPER_N_FFT * 2) 0, replicate (WHISPER_N_FFT * 2 * 2 * 2) 0, mel_data)
      in snd (stride_loop n_threads n_len
                (\<lambda>i xs. for_range 0 n_mel (\<lambda>j xs. xs[j * n_len + i := log 10 (1 / 10 ^ 10)]) xs) i mel_data))"

definition mel_max :: "real list \<Rightarrow> real" where
  "mel_max mel_data = fold (\<lambda>x mmax. if x > mmax then x else mmax) mel_data (- (10 ^ 20))"

text \<open>The start of the reflected padding is read without a check of the number of samples; \<open>order\<close> is the order of
  the threads.\<close>

definition log_mel_spectrogram :: "nat list \<Rightarrow> real list \<Rightarrow> nat \<Rightarrow> int \<Rightarrow> whisper_filters \<Rightarrow> whisper_mel \<Rightarrow> whisper_mel option" where
  "log_mel_spectrogram order samples n_mel n_threads filters mel =
     (let hann = fill_hann_window WHISPER_N_FFT True; n_samples = length samples;
          stage_1_pad = nat (WHISPER_SAMPLE_RATE * 30); stage_2_pad = WHISPER_N_FFT div 2
      in if n_samples < 1 + stage_2_pad then None
         else if n_threads < 1 then None
         else
           let samples_padded = rev (take stage_2_pad (drop 1 samples)) @ samples @ replicate (stage_1_pad + stage_2_pad) 0;
               n_len = (length samples_padded - WHISPER_N_FFT) div WHISPER_HOP_LENGTH;
               mel_data = resize (n_mel * n_len) 0 (ml_data mel);
               mel_data = fold (\<lambda>ith. log_mel_spectrogram_worker_thread ith hann samples_padded (n_samples + stage_2_pad)
                                  (nat n_threads) filters n_len n_mel) order mel_data;
               mmax = mel_max mel_data - 8
           in Some (mel\<lparr>ml_n_mel := n_mel, ml_n_len := n_len,
                        ml_n_len_org := 1 + tdiv (int n_samples + int stage_2_pad - int WHISPER_N_FFT) (int WHISPER_HOP_LENGTH),
                        ml_data := map (\<lambda>x. ((if x < mmax then mmax else x) + 4) / 4) mel_data\<rparr>))"

definition whisper_pcm_to_mel_with_state :: "nat list \<Rightarrow> whisper_filters \<Rightarrow> real list \<Rightarrow> int \<Rightarrow> whisper_mel \<Rightarrow> (int \<times> whisper_mel) option" where
  "whisper_pcm_to_mel_with_state order filters samples n_threads mel =
     map_option (\<lambda>mel. (0, mel)) (log_mel_spectrogram order samples (fl_n_mel filters) n_threads filters mel)"

section \<open>The fast transform is the discrete Fourier transform\<close>

definition unit_root :: complex where
  "unit_root = cis (- 2 * pi / 400)"

lemma unit_root_period: "unit_root ^ 400 = 1"
  using fft_roots_table by (simp add: root_table_def kFftSize_def unit_root_def)

lemma trig_tables:
  assumes "i < 400"
  shows "Complex (cos_vals ! i) (- sin_vals ! i) = unit_root ^ i"
proof -
  have "cos_vals ! i = cos (2 * pi * real i / 400)" "sin_vals ! i = sin (2 * pi * real i / 400)"
    using assms by (simp_all add: cos_vals_def sin_vals_def WHISPER_N_FFT_def)
  moreover have "real i * (- 2 * pi / 400) = - (2 * pi * real i / 400)" by simp
  then have "unit_root ^ i = cis (- (2 * pi * real i / 400))" unfolding unit_root_def DeMoivre by (rule arg_cong)
  ultimately show ?thesis by (simp add: complex_eq_iff)
qed

text \<open>A coefficient as two neighbouring floats.\<close>

definition coefficient :: "real list \<Rightarrow> nat \<Rightarrow> complex" where
  "coefficient out p = Complex (out ! p) (out ! (p + 1))"

lemma whisper_dft_sum:
  assumes "n * d = 400"
  shows "for_range 0 m (\<lambda>t (re, im). let idx = (k * t * (WHISPER_N_FFT div n)) mod WHISPER_N_FFT
      in (re + inp ! (io + t) * cos_vals ! idx, im - inp ! (io + t) * sin_vals ! idx)) (0, 0)
    = (Re (\<Sum>t<m. complex_of_real (inp ! (io + t)) * (unit_root ^ d) ^ (k * t)), Im (\<Sum>t<m. complex_of_real (inp ! (io + t)) * (unit_root ^ d) ^ (k * t)))"
proof (induction m)
  case (Suc m)
  have "n \<noteq> 0" using assms by (cases n) auto
  then have "(n * d) div n = d" by simp
  then have d: "WHISPER_N_FFT div n = d" using assms by (simp add: WHISPER_N_FFT_def)
  have "Complex (cos_vals ! (k * m * d mod 400)) (- sin_vals ! (k * m * d mod 400)) = (unit_root ^ d) ^ (k * m)"
    using trig_tables [of "k * m * d mod 400"] power_mod_period [OF unit_root_period, of "k * m * d"]
    by (simp add: mult.commute flip: power_mult)
  then have "cos_vals ! (k * m * d mod 400) = Re ((unit_root ^ d) ^ (k * m))" "sin_vals ! (k * m * d mod 400) = - Im ((unit_root ^ d) ^ (k * m))"
    by (metis complex.sel(1), metis complex.sel(2) minus_minus)
  then show ?case using Suc d by (simp add: WHISPER_N_FFT_def)
qed simp

text \<open>What a call leaves behind: \<open>n\<close> coefficients from \<open>oo\<close> on, nothing changed before them.\<close>

definition transform_result :: "nat \<Rightarrow> complex list \<Rightarrow> nat \<Rightarrow> nat \<Rightarrow> real list \<Rightarrow> nat \<Rightarrow> real list \<Rightarrow> bool" where
  "transform_result d inp io n out oo out' \<longleftrightarrow> length out' = length out \<and> (\<forall>j<oo. out' ! j = out ! j)
     \<and> (\<forall>k<n. coefficient out' (oo + 2 * k) = dft (unit_root ^ d) inp io 1 n k)"

lemma whisper_dft_correct:
  assumes "n * d = 400" and "io + n \<le> length inp" and "oo + 2 * n \<le> length out"
  shows "transform_result d (map complex_of_real inp) io n out oo (whisper_dft inp io n out oo)"
proof -
  define D where "D k = (\<Sum>t<n. complex_of_real (inp ! (io + t)) * (unit_root ^ d) ^ (k * t))" for k
  have run: "whisper_dft inp io n out oo = for_range 0 n (\<lambda>k out. out[oo + 2 * k := Re (D k), oo + (2 * k + 1) := Im (D k)]) out"
    unfolding whisper_dft_def Let_def whisper_dft_sum [OF assms(1), unfolded Let_def] D_def [symmetric] by (simp add: mult.commute)
  have D: "D k = dft (unit_root ^ d) (map complex_of_real inp) io 1 n k" for k
    unfolding dft_def D_def using assms(2) by (intro sum.cong) auto
  let ?P = "\<lambda>m out'. length out' = length out \<and> (\<forall>j<oo. out' ! j = out ! j) \<and> (\<forall>k<m. coefficient out' (oo + 2 * k) = D k)"
  have "?P n (for_range 0 n (\<lambda>k out. out[oo + 2 * k := Re (D k), oo + (2 * k + 1) := Im (D k)]) out)"
  proof (rule for_range_invariant [where P = ?P])
    fix m out' assume "m < n" "?P m out'"
    then show "?P (Suc m) (out'[oo + 2 * m := Re (D m), oo + (2 * m + 1) := Im (D m)])"
      using assms(3) by (auto simp: coefficient_def nth_list_update less_Suc_eq)
  qed auto
  then show ?thesis unfolding run transform_result_def D by blast
qed

lemma copy_half:
  assumes "\<forall>i<h. src i < e" and "e + h \<le> length inp"
  shows "length (for_range 0 h (\<lambda>i xs. xs[e + i := xs ! src i]) inp) = length inp"
    and "\<forall>j<e. for_range 0 h (\<lambda>i xs. xs[e + i := xs ! src i]) inp ! j = inp ! j"
    and "\<forall>i<h. for_range 0 h (\<lambda>i xs. xs[e + i := xs ! src i]) inp ! (e + i) = inp ! src i"
proof -
  let ?P = "\<lambda>m xs. length xs = length inp \<and> (\<forall>j<e. xs ! j = inp ! j) \<and> (\<forall>i<m. xs ! (e + i) = inp ! src i)"
  have "?P h (for_range 0 h (\<lambda>i xs. xs[e + i := xs ! src i]) inp)"
  proof (rule for_range_invariant [where P = ?P])
    fix m xs assume "m < h" "?P m xs"
    then show "?P (Suc m) (xs[e + m := xs ! src m])" using assms by (auto simp: nth_list_update less_Suc_eq)
  qed auto
  then show "length (for_range 0 h (\<lambda>i xs. xs[e + i := xs ! src i]) inp) = length inp"
    and "\<forall>j<e. for_range 0 h (\<lambda>i xs. xs[e + i := xs ! src i]) inp ! j = inp ! j"
    and "\<forall>i<h. for_range 0 h (\<lambda>i xs. xs[e + i := xs ! src i]) inp ! (e + i) = inp ! src i" by blast+
qed

lemma butterfly_coefficients:
  assumes "oo + 4 * h \<le> ef" and "oo + 4 * h \<le> odf" and "k < h" and "oo + 4 * h \<le> length out" and "k * step < 400"
  shows "length (butterfly oo ef odf h step k out) = length out"
    and "coefficient (butterfly oo ef odf h step k out) (oo + 2 * k) = coefficient out (ef + 2 * k) + unit_root ^ (k * step) * coefficient out (odf + 2 * k)"
    and "coefficient (butterfly oo ef odf h step k out) (oo + 2 * (k + h)) = coefficient out (ef + 2 * k) - unit_root ^ (k * step) * coefficient out (odf + 2 * k)"
    and "\<forall>j. j \<notin> {oo + 2 * k, oo + 2 * k + 1, oo + 2 * (k + h), oo + 2 * (k + h) + 1} \<longrightarrow> butterfly oo ef odf h step k out ! j = out ! j"
proof -
  have tab: "cos_vals ! (k * step) = Re (unit_root ^ (k * step))" "sin_vals ! (k * step) = - Im (unit_root ^ (k * step))"
    using trig_tables [OF assms(5)] by (metis complex.sel(1), metis complex.sel(2) minus_minus)
  show "length (butterfly oo ef odf h step k out) = length out" by (simp add: butterfly_def Let_def)
  show "coefficient (butterfly oo ef odf h step k out) (oo + 2 * k) = coefficient out (ef + 2 * k) + unit_root ^ (k * step) * coefficient out (odf + 2 * k)"
    and "coefficient (butterfly oo ef odf h step k out) (oo + 2 * (k + h)) = coefficient out (ef + 2 * k) - unit_root ^ (k * step) * coefficient out (odf + 2 * k)"
    using assms(1-4) by (auto simp: butterfly_def Let_def coefficient_def nth_list_update complex_eq_iff tab algebra_simps)
  show "\<forall>j. j \<notin> {oo + 2 * k, oo + 2 * k + 1, oo + 2 * (k + h), oo + 2 * (k + h) + 1} \<longrightarrow> butterfly oo ef odf h step k out ! j = out ! j"
    by (auto simp: butterfly_def Let_def)
qed

lemma butterflies:
  assumes "oo + 4 * h \<le> ef" and "oo + 4 * h \<le> odf" and "oo + 4 * h \<le> length out" and "h * step \<le> 400"
  shows "length (for_range 0 h (butterfly oo ef odf h step) out) = length out"
    and "\<forall>j<oo. for_range 0 h (butterfly oo ef odf h step) out ! j = out ! j"
    and "\<forall>k<h. coefficient (for_range 0 h (butterfly oo ef odf h step) out) (oo + 2 * k)
          = coefficient out (ef + 2 * k) + unit_root ^ (k * step) * coefficient out (odf + 2 * k)"
    and "\<forall>k<h. coefficient (for_range 0 h (butterfly oo ef odf h step) out) (oo + 2 * (k + h))
          = coefficient out (ef + 2 * k) - unit_root ^ (k * step) * coefficient out (odf + 2 * k)"
proof -
  let ?new = "\<lambda>k. coefficient out (ef + 2 * k) + unit_root ^ (k * step) * coefficient out (odf + 2 * k)"
  let ?new' = "\<lambda>k. coefficient out (ef + 2 * k) - unit_root ^ (k * step) * coefficient out (odf + 2 * k)"
  let ?P = "\<lambda>m xs. length xs = length out \<and> (\<forall>j. j < oo \<or> oo + 4 * h \<le> j \<longrightarrow> xs ! j = out ! j)
    \<and> (\<forall>k<m. coefficient xs (oo + 2 * k) = ?new k \<and> coefficient xs (oo + 2 * (k + h)) = ?new' k)"
  have main: "?P h (for_range 0 h (butterfly oo ef odf h step) out)"
  proof (rule for_range_invariant [where P = ?P])
    fix m xs assume m: "m < h" and P: "?P m xs"
    have "Suc m * step \<le> h * step" using m by (intro mult_le_mono1) simp
    then have "m * step < 400 \<or> step = 0" using assms(4) by (cases step) auto
    then have idx: "m * step < 400" by auto
    have len: "oo + 4 * h \<le> length xs" using P assms(3) by simp
    note b = butterfly_coefficients [OF assms(1,2) m len idx]
    have same: "coefficient xs p = coefficient out p" if "oo + 4 * h \<le> p" for p using P that by (simp add: coefficient_def)
    have keep: "coefficient (butterfly oo ef odf h step m xs) (oo + 2 * k) = coefficient xs (oo + 2 * k)
      \<and> coefficient (butterfly oo ef odf h step m xs) (oo + 2 * (k + h)) = coefficient xs (oo + 2 * (k + h))" if "k < m" for k
    proof -
      have "oo + 2 * k \<notin> {oo + 2 * m, oo + 2 * m + 1, oo + 2 * (m + h), oo + 2 * (m + h) + 1}"
        "oo + 2 * k + 1 \<notin> {oo + 2 * m, oo + 2 * m + 1, oo + 2 * (m + h), oo + 2 * (m + h) + 1}"
        "oo + 2 * (k + h) \<notin> {oo + 2 * m, oo + 2 * m + 1, oo + 2 * (m + h), oo + 2 * (m + h) + 1}"
        "oo + 2 * (k + h) + 1 \<notin> {oo + 2 * m, oo + 2 * m + 1, oo + 2 * (m + h), oo + 2 * (m + h) + 1}"
        using that m by simp_all
      then show ?thesis using b(4) unfolding coefficient_def by metis
    qed
    have outside: "butterfly oo ef odf h step m xs ! j = out ! j" if "j < oo \<or> oo + 4 * h \<le> j" for j
    proof -
      have "j \<notin> {oo + 2 * m, oo + 2 * m + 1, oo + 2 * (m + h), oo + 2 * (m + h) + 1}" using that m by auto
      then have "butterfly oo ef odf h step m xs ! j = xs ! j" using b(4) by metis
      also have "\<dots> = out ! j" using P that by blast
      finally show ?thesis .
    qed
    have inside: "coefficient (butterfly oo ef odf h step m xs) (oo + 2 * k) = ?new k \<and> coefficient (butterfly oo ef odf h step m xs) (oo + 2 * (k + h)) = ?new' k"
      if "k < Suc m" for k
    proof (cases "k = m")
      case True
      then show ?thesis using b(2,3) same assms(1,2) by simp
    next
      case False
      then have "k < m" using that by simp
      then show ?thesis using keep P by simp
    qed
    have "length (butterfly oo ef odf h step m xs) = length out" using b(1) conjunct1 [OF P] by (rule trans)
    then show "?P (Suc m) (butterfly oo ef odf h step m xs)"
      by (intro conjI allI impI) (assumption, erule outside, erule conjunct1 [OF inside], erule conjunct2 [OF inside])
  qed auto
  note parts = conjunct1 [OF main] conjunct1 [OF conjunct2 [OF main]] conjunct2 [OF conjunct2 [OF main]]
  show "length (for_range 0 h (butterfly oo ef odf h step) out) = length out" by (rule parts(1))
  show "\<forall>j<oo. for_range 0 h (butterfly oo ef odf h step) out ! j = out ! j" using parts(2) by simp
  show "\<forall>k<h. coefficient (for_range 0 h (butterfly oo ef odf h step) out) (oo + 2 * k) = ?new k"
    using parts(3) by (elim all_forward imp_forward) (assumption, erule conjunct1)
  show "\<forall>k<h. coefficient (for_range 0 h (butterfly oo ef odf h step) out) (oo + 2 * (k + h)) = ?new' k"
    using parts(3) by (elim all_forward imp_forward) (assumption, erule conjunct2)
qed

lemma halves:
  assumes "2 * p * d = 400" and "k < p" and "io + 2 * p \<le> length xs"
  defines "w \<equiv> unit_root ^ d"
  shows "dft w xs io 1 (2 * p) k = dft (w ^ 2) xs io 2 p k + w ^ k * dft (w ^ 2) xs (io + 1) 2 p k"
    and "dft w xs io 1 (2 * p) (k + p) = dft (w ^ 2) xs io 2 p k - w ^ k * dft (w ^ 2) xs (io + 1) 2 p k"
proof -
  have "w ^ (p * 2) = unit_root ^ (2 * p * d)" by (simp add: w_def mult_ac flip: power_mult)
  then have one: "w ^ (p * 2) = 1" using assms(1) unit_root_period by simp
  have pd: "d * p = 200" using assms(1) by simp
  have "unit_root ^ 200 = cis (- pi)" by (simp add: unit_root_def DeMoivre)
  then have minus: "w ^ p = - 1" using pd by (simp add: w_def complex_eq_iff flip: power_mult)
  show "dft w xs io 1 (2 * p) k = dft (w ^ 2) xs io 2 p k + w ^ k * dft (w ^ 2) xs (io + 1) 2 p k"
    using dft_split [of w p 2 xs io 1 k] one assms(2) by (simp add: numeral_2_eq_2 mult.commute)
  show "dft w xs io 1 (2 * p) (k + p) = dft (w ^ 2) xs io 2 p k - w ^ k * dft (w ^ 2) xs (io + 1) 2 p k"
    using dft_split [of w p 2 xs io 1 "k + p"] one assms(2) by (simp add: numeral_2_eq_2 mult.commute power_add minus)
qed

definition fft_promise :: "nat \<Rightarrow> nat \<Rightarrow> real list \<Rightarrow> nat \<Rightarrow> real list \<Rightarrow> nat \<Rightarrow> real list \<times> real list \<Rightarrow> bool" where
  "fft_promise d n inp io out oo r \<longleftrightarrow> length (fst r) = length inp \<and> (\<forall>j < io + n. fst r ! j = inp ! j)
     \<and> transform_result d (map complex_of_real inp) io n out oo (snd r)"

lemma dft_copy:
  assumes "\<forall>i<p. ys ! (e + i) = inp ! (io + 2 * i)" and "e + p \<le> length ys" and "io + 2 * p \<le> length inp + 1" and "0 < p"
  shows "dft w (map complex_of_real ys) e 1 p k = dft w (map complex_of_real inp) io 2 p k"
proof -
  have "map complex_of_real ys ! (e + t * 1) = map complex_of_real inp ! (io + t * 2)" if "t < p" for t
  proof -
    have "e + t < length ys" "io + 2 * t < length inp" using that assms(2,3) by simp_all
    then show ?thesis using that assms(1) by (simp add: mult.commute)
  qed
  then show ?thesis unfolding dft_def by (intro sum.cong) auto
qed

lemma whisper_fft_correct:
  assumes "0 < n" and "n * d = 400" and "io + 2 * n \<le> length inp" and "oo + 6 * n \<le> length out"
  shows "fft_promise d n inp io out oo (whisper_fft n inp io out oo)"
  using assms
proof (induction n arbitrary: d inp io out oo rule: less_induct)
  case (less n)
  consider (one) "n = 1" | (odd) "n \<noteq> 1" "n - n div 2 * 2 = 1" | (even) p where "n = 2 * p" "0 < p"
  proof -
    have "n = 1 \<or> n \<noteq> 1 \<and> n - n div 2 * 2 = 1 \<or> n = 2 * (n div 2) \<and> 0 < n div 2" using less.prems(1) by presburger
    then show thesis using that by blast
  qed
  then show ?case
  proof cases
    case one
    then have "whisper_fft n inp io out oo = (inp, out[oo := inp ! io, oo + 1 := 0])" by (subst whisper_fft.simps) simp
    then show ?thesis using less.prems one
      by (simp add: fft_promise_def transform_result_def coefficient_def dft_def complex_eq_iff)
  next
    case odd
    then have "whisper_fft n inp io out oo = (inp, whisper_dft inp io n out oo)" using less.prems(1) by (simp add: whisper_fft.simps [of n])
    then show ?thesis using whisper_dft_correct [of n d io inp oo out] less.prems by (simp add: fft_promise_def)
  next
    case even
    let ?w = "unit_root ^ d" and ?e = "io + n" and ?ef = "oo + 2 * n" and ?of = "oo + 2 * n + n"
    have n: "\<not> n \<le> 1" "\<not> n - p * 2 = 1" "n div 2 = p" "p < n" using even by auto
    have d: "p * (2 * d) = 400" "2 * p * d = 400" and w2: "unit_root ^ (2 * d) = ?w ^ 2" using less.prems(2) even
      by (simp_all add: mult_ac flip: power_mult)
    define inp1 where "inp1 = for_range 0 p (\<lambda>i inp. inp[?e + i := inp ! (io + 2 * i)]) inp"
    have "\<forall>i<p. io + 2 * i < ?e" "?e + p \<le> length inp" using even less.prems(3) by auto
    note c1 = copy_half [OF this, folded inp1_def]
    obtain inp2 out2 where r2: "whisper_fft p inp1 ?e out ?ef = (inp2, out2)" by force
    have "fft_promise (2 * d) p inp1 ?e out ?ef (inp2, out2)"
      using less.IH [OF n(4) even(2) d(1), of ?e inp1 ?ef out] r2 c1(1) less.prems(3,4) even by simp
    then have p2: "length inp2 = length inp" "\<forall>j<?e + p. inp2 ! j = inp1 ! j" "length out2 = length out" "\<forall>j<?ef. out2 ! j = out ! j"
      "\<forall>k<p. coefficient out2 (?ef + 2 * k) = dft (?w ^ 2) (map complex_of_real inp1) ?e 1 p k"
      using c1(1) by (simp_all add: fft_promise_def transform_result_def w2)
    define inp3 where "inp3 = for_range 0 p (\<lambda>i inp. inp[?e + i := inp ! (io + (2 * i + 1))]) inp2"
    have "\<forall>i<p. io + (2 * i + 1) < ?e" "?e + p \<le> length inp2" using even less.prems(3) p2(1) by auto
    note c3 = copy_half [OF this, folded inp3_def]
    obtain inp4 out4 where r4: "whisper_fft p inp3 ?e out2 ?of = (inp4, out4)" by force
    have "fft_promise (2 * d) p inp3 ?e out2 ?of (inp4, out4)"
      using less.IH [OF n(4) even(2) d(1), of ?e inp3 ?of out2] r4 c3(1) p2(1,3) less.prems(3,4) even by simp
    then have p4: "length inp4 = length inp" "\<forall>j<?e + p. inp4 ! j = inp3 ! j" "length out4 = length out" "\<forall>j<?of. out4 ! j = out2 ! j"
      "\<forall>k<p. coefficient out4 (?of + 2 * k) = dft (?w ^ 2) (map complex_of_real inp3) ?e 1 p k"
      using c3(1) p2(1,3) by (simp_all add: fft_promise_def transform_result_def w2)
    have step: "WHISPER_N_FFT div n = d" using less.prems(1,2) by (metis WHISPER_N_FFT_def nonzero_mult_div_cancel_left not_less_zero)
    define out5 where "out5 = for_range 0 p (butterfly oo ?ef ?of p d) out4"
    have run: "whisper_fft n inp io out oo = (inp4, out5)"
      unfolding whisper_fft.simps [of n] Let_def if_not_P [OF n(1)] n(3) if_not_P [OF n(2)] inp1_def [symmetric] r2 prod.case
        inp3_def [symmetric] r4 step out5_def [symmetric] ..
    have "oo + 4 * p \<le> ?ef" "oo + 4 * p \<le> ?of" "oo + 4 * p \<le> length out4" "p * d \<le> 400" using even less.prems(4) p4(3) d by (simp_all add: mult.commute [of p d])
    note b = butterflies [OF this, folded out5_def]
    have before: "inp1 ! j = inp ! j" "inp2 ! j = inp ! j" "inp3 ! j = inp ! j" "inp4 ! j = inp ! j" if "j < ?e" for j
      using that c1(2) p2(2) c3(2) p4(2) by simp_all
    have E: "coefficient out4 (?ef + 2 * k) = dft (?w ^ 2) (map complex_of_real inp) io 2 p k" if "k < p" for k
    proof -
      have "coefficient out4 (?ef + 2 * k) = coefficient out2 (?ef + 2 * k)" using p4(4) that even by (simp add: coefficient_def)
      also have "\<dots> = dft (?w ^ 2) (map complex_of_real inp1) ?e 1 p k" using p2(5) that by blast
      also have "\<dots> = dft (?w ^ 2) (map complex_of_real inp) io 2 p k"
        using c1(1,3) less.prems(3) even by (intro dft_copy) auto
      finally show ?thesis .
    qed
    have O: "coefficient out4 (?of + 2 * k) = dft (?w ^ 2) (map complex_of_real inp) (io + 1) 2 p k" if "k < p" for k
    proof -
      have src: "\<forall>i<p. inp3 ! (?e + i) = inp ! (io + 1 + 2 * i)"
        using c3(3) before(2) even by (auto simp: algebra_simps)
      have "coefficient out4 (?of + 2 * k) = dft (?w ^ 2) (map complex_of_real inp3) ?e 1 p k" using p4(5) that by blast
      also have "\<dots> = dft (?w ^ 2) (map complex_of_real inp) (io + 1) 2 p k"
        using src c3(1) p2(1) less.prems(3) even by (intro dft_copy) auto
      finally show ?thesis .
    qed
    have len: "io + 2 * p \<le> length (map complex_of_real inp)" using less.prems(3) even by simp
    have root: "unit_root ^ (k * d) = ?w ^ k" for k by (simp add: mult.commute flip: power_mult)
    have low: "coefficient out5 (oo + 2 * k) = dft ?w (map complex_of_real inp) io 1 n k"
      and high: "coefficient out5 (oo + 2 * (k + p)) = dft ?w (map complex_of_real inp) io 1 n (k + p)" if "k < p" for k
      using b(3,4) that halves [OF d(2) that len] E [OF that] O [OF that] even(1) by (simp_all add: root)
    have "coefficient out5 (oo + 2 * k) = dft ?w (map complex_of_real inp) io 1 n k" if "k < n" for k
    proof (cases "k < p")
      case True
      then show ?thesis by (rule low)
    next
      case False
      then have "k - p < p" "k - p + p = k" using that even by simp_all
      then show ?thesis using high [of "k - p"] by simp
    qed
    moreover have "\<forall>j<oo. out5 ! j = out ! j" using b(2) p4(4) p2(4) by simp
    ultimately show ?thesis
      unfolding run using b(1) p4(1,3) before(4) by (simp add: fft_promise_def transform_result_def)
  qed
qed

section \<open>A frame\<close>

text \<open>The reference: the short-time Fourier transform of the samples under a periodic Hann window, and the logarithm of
  its energy in a Mel band.\<close>

definition spectrum_bin :: "real list \<Rightarrow> nat \<Rightarrow> nat \<Rightarrow> complex" where
  "spectrum_bin xs i k = (\<Sum>t<400. complex_of_real ((1 - cos (2 * pi * real t / 400)) / 2 * xs ! (i * 160 + t)) * cis (- 2 * pi * real k * real t / 400))"

definition log_mel :: "whisper_filters \<Rightarrow> real list \<Rightarrow> nat \<Rightarrow> nat \<Rightarrow> real" where
  "log_mel filters xs j i = log 10 (max (\<Sum>k<fl_n_fft filters. (cmod (spectrum_bin xs i k))\<^sup>2 * fl_data filters ! (j * fl_n_fft filters + k)) (1 / 10 ^ 10))"

lemma hann_nth: "t < 400 \<Longrightarrow> fill_hann_window WHISPER_N_FFT True ! t = (1 - cos (2 * pi * real t / 400)) / 2"
  by (simp add: fill_hann_window_def WHISPER_N_FFT_def)

text \<open>From the index \<open>n_samples\<close> on the padded samples are zero, so a frame that ends there may be filled with zeros.\<close>

definition zero_from :: "nat \<Rightarrow> real list \<Rightarrow> bool" where
  "zero_from n xs \<longleftrightarrow> (\<forall>p. n \<le> p \<and> p < length xs \<longrightarrow> xs ! p = 0)"

lemma load_frame_nth:
  assumes "length fft_in = 800" and "offset \<le> n_samples" and "zero_from n_samples samples" and "offset + 400 \<le> length samples"
  shows "length (load_frame hann samples n_samples offset fft_in) = 800"
    and "\<forall>t<400. load_frame hann samples n_samples offset fft_in ! t = hann ! t * samples ! (offset + t)"
proof -
  define m where "m = min 400 (n_samples - offset)"
  define loaded where "loaded = for_range 0 m (\<lambda>j xs. xs[j := hann ! j * samples ! (offset + j)]) fft_in"
  have len: "length loaded = 800" unfolding loaded_def using assms(1) by simp
  have nth: "loaded ! t = (if t < m then hann ! t * samples ! (offset + t) else fft_in ! t)" if "t < 800" for t
    using nth_for_range_update [of t fft_in m 0 "\<lambda>j. hann ! j * samples ! (offset + j)"] that assms(1) by (simp add: loaded_def)
  have run: "load_frame hann samples n_samples offset fft_in
      = (if n_samples - offset < 400 then take (n_samples - offset) loaded @ replicate (800 - (n_samples - offset)) 0 else loaded)"
    by (simp add: load_frame_def WHISPER_N_FFT_def len flip: m_def loaded_def)
  show "length (load_frame hann samples n_samples offset fft_in) = 800" unfolding run using len by auto
  show "\<forall>t<400. load_frame hann samples n_samples offset fft_in ! t = hann ! t * samples ! (offset + t)"
  proof (intro allI impI)
    fix t :: nat assume t: "t < 400"
    show "load_frame hann samples n_samples offset fft_in ! t = hann ! t * samples ! (offset + t)"
    proof (cases "n_samples - offset < 400 \<and> n_samples - offset \<le> t")
      case True
      then have "n_samples \<le> offset + t \<and> offset + t < length samples" using assms(2,4) t by linarith
      then have "samples ! (offset + t) = 0" using assms(3) unfolding zero_from_def by blast
      moreover have "t - (n_samples - offset) < 800 - (n_samples - offset)" using True t by linarith
      ultimately show ?thesis unfolding run using True t len by (simp add: nth_append)
    next
      case False
      then have "t < m" using t by (auto simp: m_def)
      then have "loaded ! t = hann ! t * samples ! (offset + t)" using nth t by simp
      then show ?thesis unfolding run using False t len by (auto simp: nth_append)
    qed
  qed
qed

lemma squares_nth:
  assumes "2 * n \<le> length out"
  shows "length (squares n out) = length out" and "\<forall>k<n. squares n out ! k = (cmod (coefficient out (2 * k)))\<^sup>2"
proof -
  let ?P = "\<lambda>m xs. length xs = length out \<and> (\<forall>k<m. xs ! k = (cmod (coefficient out (2 * k)))\<^sup>2) \<and> (\<forall>k \<ge> m. xs ! k = out ! k)"
  have main: "?P n (squares n out)"
    unfolding squares_def
  proof (rule for_range_invariant [where P = ?P])
    fix m xs assume m: "m < n" and P: "?P m xs"
    have "xs ! (2 * m + 0) * xs ! (2 * m + 0) + xs ! (2 * m + 1) * xs ! (2 * m + 1) = (cmod (coefficient out (2 * m)))\<^sup>2"
      using P by (simp add: coefficient_def cmod_power2) (simp add: power2_eq_square)
    then show "?P (Suc m) (xs[m := xs ! (2 * m + 0) * xs ! (2 * m + 0) + xs ! (2 * m + 1) * xs ! (2 * m + 1)])"
      using P m assms by (auto simp: nth_list_update less_Suc_eq)
  qed auto
  show "length (squares n out) = length out" by (rule conjunct1 [OF main])
  show "\<forall>k<n. squares n out ! k = (cmod (coefficient out (2 * k)))\<^sup>2" by (rule conjunct1 [OF conjunct2 [OF main]])
qed

lemma mel_sum_eq: "mel_sum filters xs j = (\<Sum>k<fl_n_fft filters. xs ! k * fl_data filters ! (j * fl_n_fft filters + k))"
proof -
  define h where "h k = xs ! k * fl_data filters ! (j * fl_n_fft filters + k)" for k
  have four: "for_range i (i + 4) (\<lambda>k acc. acc + h k) s = s + (h (i + 0) + h (i + 1) + h (i + 2) + h (i + 3))" for i s
    by (simp add: for_range_def upt_rec numeral_3_eq_3)
  have "mel_sum filters xs j = (case lanes_loop 4 (fl_n_fft filters) (\<lambda>k acc. acc + (h (k + 0) + h (k + 1) + h (k + 2) + h (k + 3))) 0 0 of
      (k, acc) \<Rightarrow> for_range k (fl_n_fft filters) (\<lambda>k acc. acc + h k) acc)"
    unfolding mel_sum_def Let_def h_def ..
  also have "\<dots> = for_range 0 (fl_n_fft filters) (\<lambda>k acc. acc + h k) 0"
    by (rule lanes_then_scalar [where P = "\<lambda>_. True"]) (simp_all add: four)
  also have "for_range 0 n (\<lambda>k acc. acc + h k) 0 = (\<Sum>k<n. h k)" for n by (induction n) simp_all
  finally show ?thesis by (simp add: h_def)
qed

section \<open>The columns of the threads\<close>

lemma set_column:
  assumes "i < n_len"
  shows "length (for_range 0 n_mel (\<lambda>j xs. xs[j * n_len + i := h j]) xs) = length xs"
    and "\<forall>p<length xs. for_range 0 n_mel (\<lambda>j xs. xs[j * n_len + i := h j]) xs ! p
          = (if p mod n_len = i \<and> p div n_len < n_mel then h (p div n_len) else xs ! p)"
proof -
  let ?P = "\<lambda>m ys. length ys = length xs \<and> (\<forall>p<length xs. ys ! p = (if p mod n_len = i \<and> p div n_len < m then h (p div n_len) else xs ! p))"
  have main: "?P n_mel (for_range 0 n_mel (\<lambda>j xs. xs[j * n_len + i := h j]) xs)"
  proof (rule for_range_invariant [where P = ?P])
    fix m ys assume P: "?P m ys"
    have "ys[m * n_len + i := h m] ! p = (if p mod n_len = i \<and> p div n_len < Suc m then h (p div n_len) else xs ! p)" if p: "p < length xs" for p
    proof (cases "p = m * n_len + i")
      case True
      then show ?thesis using P p assms by simp
    next
      case False
      then have "\<not> (p mod n_len = i \<and> p div n_len = m)" by (metis div_mult_mod_eq)
      then show ?thesis using P p False by (auto simp: less_Suc_eq)
    qed
    then show "?P (Suc m) (ys[m * n_len + i := h m])" using P by simp
  qed auto
  show "length (for_range 0 n_mel (\<lambda>j xs. xs[j * n_len + i := h j]) xs) = length xs" by (rule conjunct1 [OF main])
  show "\<forall>p<length xs. for_range 0 n_mel (\<lambda>j xs. xs[j * n_len + i := h j]) xs ! p
      = (if p mod n_len = i \<and> p div n_len < n_mel then h (p div n_len) else xs ! p)" by (rule conjunct2 [OF main])
qed

definition frame_buffers :: "real list \<times> real list \<times> real list \<Rightarrow> bool" where
  "frame_buffers st \<longleftrightarrow> length (fst st) = 800 \<and> length (fst (snd st)) = 3200"

lemma worker_frame_column:
  assumes "frame_buffers st" and "zero_from n_samples samples" and "i * 160 \<le> n_samples" and "i * 160 + 400 \<le> length samples"
    and "fl_n_fft filters = 201"
  shows "frame_buffers (worker_frame (fill_hann_window WHISPER_N_FFT True) samples n_samples filters n_len n_mel i st)
    \<and> snd (snd (worker_frame (fill_hann_window WHISPER_N_FFT True) samples n_samples filters n_len n_mel i st))
      = for_range 0 n_mel (\<lambda>j xs. xs[j * n_len + i := log_mel filters samples j i]) (snd (snd st))"
proof -
  obtain fft_in fft_out xs where st: "st = (fft_in, fft_out, xs)" by (cases st)
  have len: "length fft_in = 800" "length fft_out = 3200" using assms(1) st by (simp_all add: frame_buffers_def)
  define fi where "fi = load_frame (fill_hann_window WHISPER_N_FFT True) samples n_samples (i * 160) fft_in"
  note load = load_frame_nth [OF len(1) assms(3,2,4), of "fill_hann_window WHISPER_N_FFT True", folded fi_def]
  obtain fi2 fo where fft: "whisper_fft 400 fi 0 fft_out 0 = (fi2, fo)" by force
  have "fft_promise 1 400 fi 0 fft_out 0 (fi2, fo)"
    using whisper_fft_correct [of 400 1 0 fi 0 fft_out] load(1) len(2) fft by simp
  then have fo: "length fi2 = 800" "length fo = 3200" "\<forall>k<400. coefficient fo (2 * k) = dft unit_root (map complex_of_real fi) 0 1 400 k"
    using load(1) len(2) by (simp_all add: fft_promise_def transform_result_def)
  have bin: "dft unit_root (map complex_of_real fi) 0 1 400 k = spectrum_bin samples i k" for k
    unfolding dft_def spectrum_bin_def
  proof (rule sum.cong [OF refl])
    fix t :: nat assume "t \<in> {..<400}"
    then have t: "t < 400" by simp
    have "fi ! t = fill_hann_window WHISPER_N_FFT True ! t * samples ! (i * 160 + t)" using load(2) t by blast
    also have "\<dots> = (1 - cos (2 * pi * real t / 400)) / 2 * samples ! (i * 160 + t)" by (simp only: hann_nth [OF t])
    finally have v: "fi ! t = (1 - cos (2 * pi * real t / 400)) / 2 * samples ! (i * 160 + t)" .
    have "map complex_of_real fi ! (0 + t * 1) = complex_of_real (fi ! t)" using load(1) t by simp
    then have "map complex_of_real fi ! (0 + t * 1) = complex_of_real ((1 - cos (2 * pi * real t / 400)) / 2 * samples ! (i * 160 + t))" unfolding v .
    moreover have "unit_root ^ (k * t) = cis (- 2 * pi * real k * real t / 400)" by (simp add: unit_root_def DeMoivre mult_ac)
    ultimately show "map complex_of_real fi ! (0 + t * 1) * unit_root ^ (k * t)
        = complex_of_real ((1 - cos (2 * pi * real t / 400)) / 2 * samples ! (i * 160 + t)) * cis (- 2 * pi * real k * real t / 400)" by (simp only:)
  qed
  have sq: "length (squares 201 fo) = 3200" "\<forall>k<201. squares 201 fo ! k = (cmod (spectrum_bin samples i k))\<^sup>2"
    using squares_nth [of 201 fo] fo(2,3) bin by simp_all
  have "mel_sum filters (squares 201 fo) j = (\<Sum>k<201. (cmod (spectrum_bin samples i k))\<^sup>2 * fl_data filters ! (j * 201 + k))" for j
    unfolding mel_sum_eq assms(5) using sq(2) by (intro sum.cong) auto
  then have "log 10 (max (mel_sum filters (squares 201 fo) j) (1 / 10 ^ 10)) = log_mel filters samples j i" for j
    by (simp add: log_mel_def assms(5))
  then have "worker_frame (fill_hann_window WHISPER_N_FFT True) samples n_samples filters n_len n_mel i st
      = (fi2, squares 201 fo, for_range 0 n_mel (\<lambda>j xs. xs[j * n_len + i := log_mel filters samples j i]) xs)"
    using fft by (simp add: worker_frame_def st WHISPER_HOP_LENGTH_def WHISPER_N_FFT_def fi_def assms(5))
  then show ?thesis using fo(1) sq(1) st by (simp add: frame_buffers_def)
qed

lemma log_mel_silent:
  assumes "zero_from n xs" and "n \<le> i * 160" and "i * 160 + 400 \<le> length xs"
  shows "log_mel filters xs j i = log 10 (1 / 10 ^ 10)"
proof -
  have "spectrum_bin xs i k = 0" for k
    unfolding spectrum_bin_def using assms by (intro sum.neutral) (auto simp: zero_from_def)
  then show ?thesis by (simp add: log_mel_def)
qed

lemma stride_loop_invariant:
  assumes "P i s" and "0 < w" and "\<And>i s. i < n \<Longrightarrow> P i s \<Longrightarrow> P (i + w) (f i s)"
  shows "\<exists>i' s'. stride_loop w n f i s = (i', s') \<and> P i' s' \<and> n \<le> i'"
  using assms
proof (induction w n f i s rule: stride_loop.induct)
  case (1 w n f i s)
  show ?case
  proof (cases "i < n")
    case True
    then show ?thesis using 1 by (subst stride_loop.simps) simp
  next
    case False
    then show ?thesis using 1(2) by (subst stride_loop.simps) simp
  qed
qed

definition columns_done :: "(nat \<Rightarrow> nat \<Rightarrow> real) \<Rightarrow> nat \<Rightarrow> nat \<Rightarrow> (nat \<Rightarrow> bool) \<Rightarrow> real list \<Rightarrow> real list \<Rightarrow> bool" where
  "columns_done h n_mel n_len C xs ys \<longleftrightarrow> length ys = length xs
     \<and> (\<forall>p<length xs. ys ! p = (if C (p mod n_len) \<and> p div n_len < n_mel then h (p div n_len) (p mod n_len) else xs ! p))"

lemma columns_done_step:
  assumes "columns_done h n_mel n_len (\<lambda>c. c mod w = i mod w \<and> c < i) xs ys" and "i < n_len" and "0 < w"
  shows "columns_done h n_mel n_len (\<lambda>c. c mod w = (i + w) mod w \<and> c < i + w) xs (for_range 0 n_mel (\<lambda>j xs. xs[j * n_len + i := h j i]) ys)"
proof -
  have next': "c mod w = i mod w \<and> c < i + w \<longleftrightarrow> c mod w = i mod w \<and> c < i \<or> c = i" for c
  proof -
    have "c = i" if "c mod w = i mod w" "c < i + w" "\<not> c < i"
    proof -
      have "w dvd c - i" using that(1,3) by (simp add: mod_eq_dvd_iff_nat)
      moreover have "c - i < w" using that(2,3) by simp
      ultimately have "c - i = 0" by (metis dvd_imp_le gr0I not_less)
      then show ?thesis using that(3) by simp
    qed
    then show ?thesis using assms(3) by auto
  qed
  show ?thesis
    using set_column [OF assms(2), where n_mel = n_mel and h = "\<lambda>j. h j i" and xs = ys] assms(1) by (auto simp: columns_done_def next')
qed

lemma worker_thread_columns:
  assumes "ith < w" and "zero_from n samples" and "n_len * 160 + 240 \<le> length samples" and "fl_n_fft filters = 201" and "0 < n_len"
  shows "columns_done (log_mel filters samples) n_mel n_len (\<lambda>c. c mod w = ith) xs
    (log_mel_spectrogram_worker_thread ith (fill_hann_window WHISPER_N_FFT True) samples n w filters n_len n_mel xs)"
proof -
  let ?h = "log_mel filters samples"
  let ?bound = "min (n div 160 + 1) n_len"
  let ?P = "\<lambda>i ys. i mod w = ith \<and> columns_done ?h n_mel n_len (\<lambda>c. c mod w = i mod w \<and> c < i) xs ys"
  have w: "0 < w" "ith mod w = ith" using assms(1) by simp_all
  have fits: "i * 160 + 400 \<le> length samples" if "i < n_len" for i
  proof -
    have "Suc i * 160 \<le> n_len * 160" using that by (intro mult_le_mono1) simp
    then show ?thesis using assms(3) by simp
  qed
  have "\<not> (c mod w = ith mod w \<and> c < ith)" for c using assms(1) w(2) by (metis less_trans mod_less nat_neq_iff)
  then have "columns_done ?h n_mel n_len (\<lambda>c. c mod w = ith mod w \<and> c < ith) xs xs" unfolding columns_done_def by simp blast
  then have start: "frame_buffers (replicate (WHISPER_N_FFT * 2) 0, replicate (WHISPER_N_FFT * 2 * 2 * 2) 0, xs)
      \<and> ?P ith (snd (snd (replicate (WHISPER_N_FFT * 2) 0 :: real list, replicate (WHISPER_N_FFT * 2 * 2 * 2) 0 :: real list, xs)))"
    using w(2) by (simp add: frame_buffers_def WHISPER_N_FFT_def length_replicate)
  have "frame_buffers (worker_frame (fill_hann_window WHISPER_N_FFT True) samples n filters n_len n_mel i st)
      \<and> ?P (i + w) (snd (snd (worker_frame (fill_hann_window WHISPER_N_FFT True) samples n filters n_len n_mel i st)))"
    if "i < ?bound" "frame_buffers st \<and> ?P i (snd (snd st))" for i st
  proof -
    have "i * 160 \<le> n" using that(1) by (simp add: less_Suc_eq_le less_eq_div_iff_mult_less_eq)
    have i: "i < n_len" and st: "frame_buffers st" "i mod w = ith" "columns_done ?h n_mel n_len (\<lambda>c. c mod w = i mod w \<and> c < i) xs (snd (snd st))"
      using that by auto
    have "(i + w) mod w = ith" using st(2) by simp
    then show ?thesis
      using worker_frame_column [OF st(1) assms(2) \<open>i * 160 \<le> n\<close> fits [OF i] assms(4), of n_len n_mel] columns_done_step [OF st(3) i w(1)]
      by (simp only: simp_thms)
  qed
  note frames = this
  let ?first = "stride_loop w ?bound (worker_frame (fill_hann_window WHISPER_N_FFT True) samples n filters n_len n_mel) ith
      (replicate (WHISPER_N_FFT * 2) 0, replicate (WHISPER_N_FFT * 2 * 2 * 2) 0, xs)"
  have "\<exists>i st'. ?first = (i, st') \<and> (frame_buffers st' \<and> ?P i (snd (snd st'))) \<and> ?bound \<le> i"
    by (rule stride_loop_invariant [where P = "\<lambda>i st. frame_buffers st \<and> ?P i (snd (snd st))", OF start w(1)]) (rule frames)
  then obtain i st' where first': "?first = (i, st')" "?P i (snd (snd st'))" "?bound \<le> i" by (elim exE conjE) (rule that, assumption, rule conjI)
  obtain fi fo ys where st': "st' = (fi, fo, ys)" by (cases st')
  note first = first' [unfolded st' snd_conv]
  have "?P (i + w) (for_range 0 n_mel (\<lambda>j xs. xs[j * n_len + i := log 10 (1 / 10 ^ 10)]) ys) \<and> ?bound \<le> i + w"
    if "i < n_len" "?P i ys \<and> ?bound \<le> i" for i ys
  proof -
    have "n div 160 + 1 \<le> i" using that by auto
    then have "n \<le> i * 160" by linarith
    then have "?h j i = log 10 (1 / 10 ^ 10)" for j using log_mel_silent [OF assms(2) _ fits [OF that(1)]] by simp
    moreover have "(i + w) mod w = ith" "columns_done ?h n_mel n_len (\<lambda>c. c mod w = i mod w \<and> c < i) xs ys" "?bound \<le> i + w" using that by auto
    ultimately show ?thesis using columns_done_step [of ?h n_mel n_len w i xs ys] that(1) w(1) by (simp only: simp_thms)
  qed
  note silent = this
  let ?second = "stride_loop w n_len (\<lambda>i xs. for_range 0 n_mel (\<lambda>j xs. xs[j * n_len + i := log 10 (1 / 10 ^ 10)]) xs) i ys"
  have "\<exists>i' ys'. ?second = (i', ys') \<and> (?P i' ys' \<and> ?bound \<le> i') \<and> n_len \<le> i'"
    by (rule stride_loop_invariant [where P = "\<lambda>i ys. ?P i ys \<and> ?bound \<le> i", OF conjI [OF first(2,3)] w(1)]) (rule silent)
  then obtain i' ys' where second: "?second = (i', ys')" "?P i' ys'" "n_len \<le> i'" by (elim exE conjE) (rule that, assumption, rule conjI)
  have "c < i'" if "c = p mod n_len" for c p using that second(3) assms(5) by (metis less_le_trans mod_less_divisor)
  then have "columns_done ?h n_mel n_len (\<lambda>c. c mod w = ith) xs ys'" using second(2) by (auto simp: columns_done_def)
  moreover have "log_mel_spectrogram_worker_thread ith (fill_hann_window WHISPER_N_FFT True) samples n w filters n_len n_mel xs = ys'"
    using first(1) second(1) by (simp add: log_mel_spectrogram_worker_thread_def WHISPER_HOP_LENGTH_def)
  ultimately show ?thesis by simp
qed

lemma all_threads:
  assumes "\<forall>ith \<in> set order. ith < w" and "zero_from n samples" and "n_len * 160 + 240 \<le> length samples" and "fl_n_fft filters = 201" and "0 < n_len"
  shows "columns_done (log_mel filters samples) n_mel n_len (\<lambda>c. c mod w \<in> set order) xs
    (fold (\<lambda>ith. log_mel_spectrogram_worker_thread ith (fill_hann_window WHISPER_N_FFT True) samples n w filters n_len n_mel) order xs)"
  using assms(1)
proof (induction order rule: rev_induct)
  case (snoc ith order)
  have "ith < w" using snoc.prems by simp
  from worker_thread_columns [OF this assms(2-5)] show ?case
    using snoc by (auto simp: columns_done_def)
qed (simp add: columns_done_def)

section \<open>The whole spectrogram\<close>

lemma mel_max_Max:
  assumes "xs \<noteq> []" and "\<forall>x \<in> set xs. - (10 ^ 20) \<le> x"
  shows "mel_max xs = Max (set xs)"
proof -
  have "fold (\<lambda>x mmax. if x > mmax then x else mmax) xs a = Max (insert a (set xs))" for a :: real
  proof (induction xs arbitrary: a)
    case (Cons x xs)
    have "insert (if x > a then x else a) (set xs) = insert (max a x) (set xs)" by (simp add: max_def)
    moreover have "Max (insert (max a x) (set xs)) = Max (insert a (insert x (set xs)))" by (cases "xs = []") (simp_all add: max.assoc)
    ultimately show ?case using Cons [of "if x > a then x else a"] by simp
  qed simp
  then have "mel_max xs = max (- (10 ^ 20)) (Max (set xs))" using assms(1) by (simp add: mel_max_def)
  moreover have "- (10 ^ 20) \<le> Max (set xs)" using assms by (simp add: Max_ge_iff) (metis list.set_sel(1))
  ultimately show ?thesis by simp
qed

lemma log_mel_bound: "- (10 ^ 20) \<le> log_mel filters xs j i"
proof -
  have "1 / 10 ^ 10 = 10 powr (- 10 :: real)" by (simp add: powr_minus powr_numeral)
  then have "log 10 (1 / 10 ^ 10) = (- 10 :: real)" by (metis log_powr_cancel one_less_numeral_iff semiring_norm(76) zero_less_numeral numeral_One less_irrefl)
  moreover have "log 10 (1 / 10 ^ 10) \<le> log_mel filters xs j i" unfolding log_mel_def by (simp add: log_le_cancel_iff)
  ultimately show ?thesis by simp
qed

definition padded_samples :: "real list \<Rightarrow> real list" where
  "padded_samples samples = rev (take 200 (drop 1 samples)) @ samples @ replicate (480000 + 200) 0"

lemma padded_samples:
  assumes "201 \<le> length samples"
  shows "length (padded_samples samples) = length samples + 480400" and "zero_from (length samples + 200) (padded_samples samples)"
  using assms by (auto simp: padded_samples_def zero_from_def nth_append)

lemma band_values:
  assumes "length xs = n_mel * n_len" and "\<forall>p<n_mel * n_len. xs ! p = h (p div n_len) (p mod n_len)" and "0 < n_len"
  shows "set xs = {h j i | j i. j < n_mel \<and> i < n_len}"
proof -
  have "h (p div n_len) (p mod n_len) \<in> {h j i | j i. j < n_mel \<and> i < n_len}" if "p < n_mel * n_len" for p
  proof -
    have "p div n_len < n_mel" "p mod n_len < n_len" using that assms(3) by (simp_all add: less_mult_imp_div_less)
    then show ?thesis by blast
  qed
  moreover have "h j i \<in> set xs" if "j < n_mel" "i < n_len" for j i
  proof -
    have "Suc j * n_len \<le> n_mel * n_len" using that(1) by (intro mult_le_mono1) simp
    then have "j * n_len + i < n_mel * n_len" using that(2) by simp
    then have "xs ! (j * n_len + i) = h j i" "j * n_len + i < length xs" using assms(1,2) that(2) by auto
    then show ?thesis by (metis nth_mem)
  qed
  ultimately show ?thesis using assms(1,2) by (auto simp: set_conv_nth)
qed

definition loudest :: "whisper_filters \<Rightarrow> real list \<Rightarrow> nat \<Rightarrow> nat \<Rightarrow> real" where
  "loudest filters xs n_mel n_len = Max {log_mel filters xs j i | j i. j < n_mel \<and> i < n_len}"

lemma spectrogram_data:
  assumes "201 \<le> length samples" and "1 \<le> n_threads" and "mset order = mset [0..<nat n_threads]" and "fl_n_fft filters = 201"
    and "n_len = (length samples + 480000) div 160"
  shows "log_mel_spectrogram order samples n_mel n_threads filters mel = Some (mel\<lparr>ml_n_mel := n_mel, ml_n_len := n_len,
      ml_n_len_org := 1 + (int (length samples) - 200) div 160,
      ml_data := map (\<lambda>p. (max (log_mel filters (padded_samples samples) (p div n_len) (p mod n_len)) (loudest filters (padded_samples samples) n_mel n_len - 8) + 4) / 4) [0..<n_mel * n_len]\<rparr>)"
proof -
  let ?xs = "padded_samples samples" and ?w = "nat n_threads"
  let ?h = "log_mel filters ?xs"
  note pad = padded_samples [OF assms(1)]
  have n_len: "0 < n_len" "n_len * 160 + 240 \<le> length ?xs" using pad(1) assms(1,5) by linarith+
  have order: "set order = {0..<?w}" using arg_cong [OF assms(3), of set_mset] by simp
  define start where "start = resize (n_mel * n_len) 0 (ml_data mel)"
  define raw where "raw = fold (\<lambda>ith. log_mel_spectrogram_worker_thread ith (fill_hann_window WHISPER_N_FFT True) ?xs (length samples + 200) ?w filters n_len n_mel) order start"
  have "columns_done ?h n_mel n_len (\<lambda>c. c mod ?w \<in> set order) start raw"
    unfolding raw_def by (rule all_threads) (use order pad(2) n_len assms(4) in auto)
  moreover have "c mod ?w \<in> set order" for c using order assms(2) by simp
  moreover have "p div n_len < n_mel" if "p < n_mel * n_len" for p using that by (simp add: less_mult_imp_div_less)
  ultimately have raw: "length raw = n_mel * n_len" "\<forall>p<n_mel * n_len. raw ! p = ?h (p div n_len) (p mod n_len)"
    by (simp_all add: columns_done_def start_def)
  note values' = band_values [OF raw n_len(1)]
  have "\<forall>x \<in> set raw. - (10 ^ 20) \<le> x" unfolding values' using log_mel_bound by blast
  then have max: "mel_max raw = loudest filters ?xs n_mel n_len" if "raw \<noteq> []" using mel_max_Max [OF that] by (simp only: values' loudest_def)
  have data: "map (\<lambda>x. ((if x < mel_max raw - 8 then mel_max raw - 8 else x) + 4) / 4) raw
      = map (\<lambda>p. (max (?h (p div n_len) (p mod n_len)) (loudest filters ?xs n_mel n_len - 8) + 4) / 4) [0..<n_mel * n_len]"
  proof (cases "raw = []")
    case True
    then show ?thesis using raw(1) by auto
  next
    case False
    note m = max [OF False]
    show ?thesis unfolding m using raw by (intro nth_equalityI) (auto simp: max_def)
  qed
  have "(int (length samples) + 200 - 400) = int (length samples) - 200" by simp
  then have tdiv: "tdiv (int (length samples) + 200 - 400) 160 = (int (length samples) - 200) div 160" using assms(1) by (simp add: tdiv_def)
  have zero: "replicate (nat (WHISPER_SAMPLE_RATE * 30) + 200) (0 :: real) = replicate (480000 + 200) 0"
    by (simp add: WHISPER_SAMPLE_RATE_def)
  have half: "WHISPER_N_FFT div 2 = 200" by (simp add: WHISPER_N_FFT_def)
  have padded: "rev (take 200 (drop 1 samples)) @ samples @ replicate (480000 + 200) 0 = ?xs" by (simp only: padded_samples_def)
  have len: "(length ?xs - WHISPER_N_FFT) div WHISPER_HOP_LENGTH = n_len" using pad(1) assms(5) by (simp add: WHISPER_N_FFT_def WHISPER_HOP_LENGTH_def)
  have guard: "\<not> length samples < 1 + 200" "\<not> n_threads < 1" using assms(1,2) by simp_all
  show ?thesis
    unfolding log_mel_spectrogram_def Let_def half zero if_not_P [OF guard(1)] if_not_P [OF guard(2)] padded len
      start_def [symmetric] raw_def [symmetric] data
    using tdiv by (simp add: WHISPER_N_FFT_def WHISPER_HOP_LENGTH_def)
qed

text \<open>C10: The spectrogram is the normalised short-time spectrum. For any number of threads, in any order, and whatever
  the vector held before, the data are the logarithms of the energies of the Fourier coefficients of the windowed
  frames of the padded samples, summed over each Mel band with a floor of \<open>10^-10\<close>, clamped to a range of 8 below
  their maximum and scaled: the in-place FFT is the discrete Fourier transform, the shortcut for silent frames
  and the unrolled sums change nothing, and no column is left out or written by two threads.\<close>

theorem spectrogram_correct:
  assumes "201 \<le> length samples" and "1 \<le> n_threads" and "mset order = mset [0..<nat n_threads]" and "fl_n_fft filters = 201"
    and "n_len = (length samples + 480000) div 160"
  shows "\<exists>mel'. whisper_pcm_to_mel_with_state order filters samples n_threads mel = Some (0, mel') \<and> ml_n_mel mel' = fl_n_mel filters
    \<and> ml_n_len mel' = n_len \<and> ml_n_len_org mel' = 1 + (int (length samples) - 200) div 160
    \<and> ml_data mel' = map (\<lambda>p. (max (log_mel filters (padded_samples samples) (p div n_len) (p mod n_len))
          (loudest filters (padded_samples samples) (fl_n_mel filters) n_len - 8) + 4) / 4) [0..<fl_n_mel filters * n_len]"
  unfolding whisper_pcm_to_mel_with_state_def spectrogram_data [OF assms] by simp

theorem spectrogram_correct_witness:
  "\<exists>mel'. whisper_pcm_to_mel_with_state [1, 0] \<lparr>fl_n_mel = 1, fl_n_fft = 201, fl_data = replicate 201 1\<rparr> (replicate 320 0) 2
      \<lparr>ml_n_len = 0, ml_n_len_org = 0, ml_n_mel = 0, ml_data = [5]\<rparr> = Some (0, mel') \<and> ml_n_len mel' = 3002 \<and> length (ml_data mel') = 3002"
proof -
  have "201 \<le> length (replicate 320 (0 :: real))" "1 \<le> (2 :: int)" "mset [1, 0] = mset [0..<nat 2]"
    "fl_n_fft \<lparr>fl_n_mel = 1, fl_n_fft = 201, fl_data = replicate 201 1\<rparr> = 201" "3002 = (length (replicate 320 (0 :: real)) + 480000) div 160"
    by (simp_all add: upt_rec add_mset_commute)
  from spectrogram_correct [OF this, of "\<lparr>ml_n_len = 0, ml_n_len_org = 0, ml_n_mel = 0, ml_data = [5]\<rparr>"] show ?thesis by auto
qed

end
