(* ===== verification/WhisperFull.thy ===== *)
theory WhisperFull
  imports Complex_Main Prelude KvCache TokenChoice SequenceScore TokenTimes Segments DecodeLoop Languages WhisperMel "HOL-Library.Option_ord" "HOL-Library.Monad_Syntax"
begin

text \<open>
  The whole transcription of a recording, \<open>whisper_full_with_state\<close> of Whisper/src/whisper.cpp: the set-up with
  the detection of the language, and the main loop over windows with the fallback through temperatures.
  The encoder and the callbacks are parameters; the branch for DTW timestamps and
  the progress callback, which changes nothing, are left out. Every window moves the position on by at least two
  frames, a window tries finitely many temperatures and a decoder runs finitely many rounds: the transcription ends.
\<close>

section \<open>The state of a transcription\<close>

text \<open>\<open>fe_encode\<close> takes a flag: whether the abort callback of the caller is consulted.\<close>

record ('s, 'r) full_env =
  fe_env :: "('s, 'r) whisper_env"
  fe_n_text_layer :: int
  fe_filters :: whisper_filters
  fe_thread_order :: "nat list"
  fe_encode :: "bool \<Rightarrow> 's \<Rightarrow> whisper_mel \<Rightarrow> int \<Rightarrow> int \<Rightarrow> 's option"
  fe_encoder_begin :: "'s \<Rightarrow> bool"
  fe_seed :: "nat \<Rightarrow> 'r"
  fe_sort_langs :: "(logit \<times> int) list \<Rightarrow> (logit \<times> int) list"

record ('s, 'r) full_state =
  fs_decoding :: "('s, 'r) decoding"
  fs_log :: segment_log
  fs_energy :: "real list"
  fs_mel :: whisper_mel
  fs_lang_id :: int
  fs_exp_n_audio_ctx :: int
  fs_past0 :: "int list"
  fs_past1 :: "int list"

definition is_multilingual :: "whisper_vocab \<Rightarrow> bool" where
  "is_multilingual vocab \<longleftrightarrow> vb_n_vocab vocab \<ge> 51865"

section \<open>Language detection\<close>

definition whisper_decode_with_state :: "('s, 'r) whisper_env \<Rightarrow> int list \<Rightarrow> int \<Rightarrow> ('s, 'r) decoding \<Rightarrow> (int \<times> ('s, 'r) decoding) option" where
  "whisper_decode_with_state env tokens n_past st =
     map_option (\<lambda>(ok, st). (if ok then 0 else 1, st))
       (whisper_decode_internal (env\<lparr>en_abort := \<lambda>_. False\<rparr>) (whisper_batch_prep_legacy tokens n_past 0)
         (st\<lparr>de_kv := whisper_kv_cache_seq_rm (de_kv st) 0 n_past (- 1)\<rparr>))"

definition whisper_encode_with_state :: "('s, 'r) full_env \<Rightarrow> int \<Rightarrow> ('s, 'r) full_state \<Rightarrow> int \<times> ('s, 'r) full_state" where
  "whisper_encode_with_state fe offset st =
     (case fe_encode fe False (de_model (fs_decoding st)) (fs_mel st) offset (fs_exp_n_audio_ctx st) of
        None \<Rightarrow> (- 1, st)
      | Some model \<Rightarrow> (0, st\<lparr>fs_decoding := (fs_decoding st)\<lparr>de_model := model\<rparr>\<rparr>))"

definition whisper_lang_auto_detect_with_state :: "('s, 'r) full_env \<Rightarrow> int \<Rightarrow> ('s, 'r) full_state \<Rightarrow> (int \<times> ('s, 'r) full_state) option" where
  "whisper_lang_auto_detect_with_state fe offset_ms st =
     (let seek = tdiv offset_ms 10; vocab = en_vocab (fe_env fe)
      in if seek < 0 then Some (- 1, st)
         else if seek \<ge> ml_n_len_org (fs_mel st) then Some (- 2, st)
         else
           let (code, st) = whisper_encode_with_state fe seek st
           in if code \<noteq> 0 then Some (- 6, st)
              else do {
                (code, decoding) \<leftarrow> whisper_decode_with_state (fe_env fe) [vb_token_sot vocab] 0 (fs_decoding st);
                let st = st\<lparr>fs_decoding := decoding\<rparr>;
                if code \<noteq> 0 then Some (- 7, st)
                else
                  let row = hd (de_logits decoding)
                  in if \<exists>lang \<in> set g_lang. length row \<le> nat (whisper_token_lang vocab (fst (snd lang))) then None
                     else
                       let logits_id = map (\<lambda>(lang, i, name). (row ! nat (whisper_token_lang vocab i), i)) g_lang
                       in Some (snd (hd (fe_sort_langs fe logits_id)), st)
              })"

section \<open>The parameters of the loop\<close>

text \<open>\<open>for (float t = temperature; t < 1.0f + 1e-6f; t += temperature_inc)\<close>; the caller has tested \<open>inc > 0\<close>.\<close>

function temperatures_from :: "real \<Rightarrow> real \<Rightarrow> real list" where
  "temperatures_from t inc = (if t < 1 + 1 / 10 ^ 6 \<and> inc > 0 then t # temperatures_from (t + inc) inc else [])"
  by pat_completeness auto
termination
proof (relation "measure (\<lambda>(t, inc). nat \<lceil>(1 + 1 / 10 ^ 6 - t) / inc\<rceil>)", goal_cases)
  case 1
  show ?case by simp
next
  case (2 t inc)
  have "(1 + 1 / 10 ^ 6 - (t + inc)) / inc = (1 + 1 / 10 ^ 6 - t) / inc - 1" using 2 by (simp add: field_simps)
  moreover have "0 < (1 + 1 / 10 ^ 6 - t) / inc" using 2 by simp
  ultimately show ?case by (simp add: nat_less_iff)
qed

declare temperatures_from.simps [simp del]

definition temperatures_of :: "whisper_full_params \<Rightarrow> real list" where
  "temperatures_of params =
     (if fp_temperature_inc params > 0 then temperatures_from (fp_temperature params) (fp_temperature_inc params)
      else [fp_temperature params])"

definition n_decoders_of :: "whisper_full_params \<Rightarrow> int" where
  "n_decoders_of params =
     max 1 (if fp_strategy params = WHISPER_SAMPLING_GREEDY then fp_greedy_best_of params
            else if fp_strategy params = WHISPER_SAMPLING_BEAM_SEARCH then max (fp_greedy_best_of params) (fp_beam_search_beam_size params)
            else 1)"

definition n_decoders_at :: "whisper_full_params \<Rightarrow> real \<Rightarrow> nat" where
  "n_decoders_at params t_cur =
     nat (max 1 (if fp_strategy params = WHISPER_SAMPLING_GREEDY then if t_cur > 0 then fp_greedy_best_of params else 1
            else if fp_strategy params = WHISPER_SAMPLING_BEAM_SEARCH
            then if t_cur > 0 then fp_greedy_best_of params else fp_beam_search_beam_size params
            else 1))"

definition init_decoder :: "('s, 'r) full_env \<Rightarrow> nat \<Rightarrow> 'r whisper_decoder \<Rightarrow> 'r whisper_decoder" where
  "init_decoder fe j decoder =
     (let n = nat (vb_n_vocab (en_vocab (fe_env fe)))
      in decoder\<lparr>dc_probs := resize n 0 (dc_probs decoder), dc_logits := resize n (Some 0) (dc_logits decoder),
                 dc_logprobs := resize n (Some 0) (dc_logprobs decoder), dc_rng := fe_seed fe j\<rparr>)"

definition max_prompt_ctx_of :: "('s, 'r) full_env \<Rightarrow> whisper_full_params \<Rightarrow> int" where
  "max_prompt_ctx_of fe params = min (fp_n_max_text_ctx params) (tdiv (en_n_text_ctx (fe_env fe)) 2)"

text \<open>The initial prompt: given tokens, or the text tokenized, with a second try when 1024 tokens are not enough.\<close>

definition initial_tokens :: "('s, 'r) full_env \<Rightarrow> whisper_full_params \<Rightarrow> int list" where
  "initial_tokens fe params =
     (case fp_prompt_tokens params of
        Some tokens \<Rightarrow> take (nat (fp_prompt_n_tokens params)) tokens
      | None \<Rightarrow>
          (case fp_initial_prompt params of
             None \<Rightarrow> []
           | Some prompt \<Rightarrow>
               let vocab = en_vocab (fe_env fe); (n_needed, tokens) = whisper_tokenize vocab (ascii prompt) 1024;
                   (n_needed, tokens) = (if n_needed < 0 then whisper_tokenize vocab (ascii prompt) (- n_needed) else (n_needed, tokens))
               in take (nat n_needed) tokens))"

definition take_initial_prompt :: "whisper_full_params \<Rightarrow> int \<Rightarrow> int list \<Rightarrow> int list \<times> int list \<Rightarrow> int list \<times> int list" where
  "take_initial_prompt params max_prompt_ctx tokens = (\<lambda>(past0, past1).
     if tokens = [] then (past0, past1)
     else if fp_carry_initial_prompt params
     then if past0 = []
          then let max_tokens = max 1 (max_prompt_ctx - 1); n_tokens = min (length tokens) (nat max_tokens)
               in (drop (length tokens - n_tokens) tokens, past1)
          else (past0, past1)
     else (past0, tokens @ past1))"

definition prompt_init_of :: "('s, 'r) full_env \<Rightarrow> whisper_full_params \<Rightarrow> int \<Rightarrow> int list" where
  "prompt_init_of fe params lang_id =
     (let vocab = en_vocab (fe_env fe)
      in [vb_token_sot vocab]
         @ (if is_multilingual vocab
            then [whisper_token_lang vocab lang_id,
                  if fp_translate params then vb_token_translate vocab else vb_token_transcribe vocab] else [])
         @ (if fp_no_timestamps params then [vb_token_not vocab] else []))"

section \<open>The fallback through temperatures\<close>

fun try_temperatures :: "('s, 'r) whisper_env \<Rightarrow> whisper_full_params \<Rightarrow> int \<Rightarrow> int \<Rightarrow> int \<Rightarrow> int list \<Rightarrow> int list \<Rightarrow> int list \<Rightarrow> real list
    \<Rightarrow> nat \<Rightarrow> int list \<Rightarrow> ('s, 'r) decoding \<Rightarrow> (int \<times> nat \<times> int list \<times> ('s, 'r) decoding) option" where
  "try_temperatures env params seek seek_end max_prompt_ctx past0 past1 prompt_init [] best prompt st = Some (0, best, prompt, st)"
| "try_temperatures env params seek seek_end max_prompt_ctx past0 past1 prompt_init (t_cur # ts) best prompt st = do {
     let n_cur = n_decoders_at params t_cur;
     (code, prompt, st) \<leftarrow> decode_temperature env params t_cur n_cur seek seek_end max_prompt_ctx past0 past1 prompt_init st;
     if code \<noteq> 0 then Some (code, best, prompt, st)
     else
       let ranking = rank_decoders params n_cur best (de_decoders st) (de_n_fail_h st);
           best = rk_best_decoder_id ranking;
           st = st\<lparr>de_decoders := rk_decoders ranking, de_n_fail_h := rk_n_fail_h ranking\<rparr>;
           decoder = rk_decoders ranking ! best
       in if ts \<noteq> [] \<and> (dc_failed decoder
              \<or> (sq_avg_logprobs (dc_sequence decoder) < Some (fp_logprob_thold params) \<and> de_no_speech_prob st < fp_no_speech_thold params))
          then try_temperatures env params seek seek_end max_prompt_ctx past0 past1 prompt_init ts best prompt (st\<lparr>de_n_fail_p := de_n_fail_p st + 1\<rparr>)
          else Some (0, best, prompt, st)
   }"

section \<open>One window\<close>

definition rolling_context :: "whisper_vocab \<Rightarrow> whisper_full_params \<Rightarrow> int list \<Rightarrow> int list \<Rightarrow> bool \<Rightarrow> whisper_sequence \<Rightarrow> int list" where
  "rolling_context vocab params prompt prompt_init is_no_speech sequence =
     (if \<not> fp_carry_initial_prompt params \<and> prompt \<noteq> [] \<and> hd prompt = vb_token_prev vocab
      then drop 1 (take (length prompt - length prompt_init) prompt) else [])
     @ (if \<not> is_no_speech then map td_id (take (nat (sq_result_len sequence)) (sq_tokens sequence)) else [])"

definition single_timestamp_ending :: "whisper_vocab \<Rightarrow> whisper_full_params \<Rightarrow> whisper_token_data list \<Rightarrow> bool" where
  "single_timestamp_ending vocab params tokens_cur \<longleftrightarrow>
     length tokens_cur > 1
   \<and> \<not> (fp_max_tokens params > 0 \<and> \<not> fp_single_segment params \<and> int (length tokens_cur) > fp_max_tokens params)
   \<and> td_id (tokens_cur ! (length tokens_cur - 2)) < vb_token_beg vocab \<and> td_id (tokens_cur ! (length tokens_cur - 1)) > vb_token_beg vocab"

definition finish_window :: "('s, 'r) full_env \<Rightarrow> whisper_full_params \<Rightarrow> int \<Rightarrow> int list \<Rightarrow> int list \<Rightarrow> int \<Rightarrow> 'r whisper_decoder
    \<Rightarrow> ('s, 'r) full_state \<Rightarrow> (int \<times> ('s, 'r) full_state) option" where
  "finish_window fe params seek_end prompt_init prompt seek decoder st =
     (let env = fe_env fe; vocab = en_vocab env; sequence = dc_sequence decoder; tokens_cur = sq_tokens sequence;
          no_speech_prob = de_no_speech_prob (fs_decoding st);
          is_no_speech = no_speech_prob > fp_no_speech_thold params \<and> sq_avg_logprobs sequence < Some (fp_logprob_thold params)
      in do {
        log \<leftarrow> (if tokens_cur \<noteq> [] \<and> en_n_loaded env > 0 \<and> \<not> is_no_speech
               then window_segments params vocab (cp_dtw_token_timestamps (en_context_params env)) (fs_energy st) no_speech_prob
                      seek (dc_seek_delta decoder) tokens_cur (fs_log st)
               else Some (fs_log st));
        let seek_delta = (if single_timestamp_ending vocab params tokens_cur then min (seek_end - seek) 3000 else dc_seek_delta decoder);
        Some (seek + seek_delta, st\<lparr>fs_past1 := rolling_context vocab params prompt prompt_init is_no_speech sequence, fs_log := log\<rparr>)
      })"

text \<open>\<open>Inl\<close> is a return or the end of the loop, with the code; \<open>Inr\<close> the start of the next window.\<close>

definition transcribe_window :: "('s, 'r) full_env \<Rightarrow> whisper_full_params \<Rightarrow> int \<Rightarrow> int \<Rightarrow> int list \<Rightarrow> int list \<Rightarrow> int
    \<Rightarrow> ('s, 'r) full_state \<Rightarrow> ((int + int \<times> int list) \<times> ('s, 'r) full_state) option" where
  "transcribe_window fe params seek_start seek_end prompt_init prompt seek st =
     (if seek + 10 \<ge> seek_end then Some (Inl 0, st)
      else if fp_encoder_begin_callback params \<noteq> None \<and> \<not> fe_encoder_begin fe (de_model (fs_decoding st)) then Some (Inl 0, st)
      else case fe_encode fe True (de_model (fs_decoding st)) (fs_mel st) seek (fs_exp_n_audio_ctx st) of
        None \<Rightarrow> Some (Inl (- 6), st)
      | Some model \<Rightarrow>
          let st = st\<lparr>fs_decoding := (fs_decoding st)\<lparr>de_model := model\<rparr>\<rparr>;
              st = (if seek > seek_start \<and> seek + 500 \<ge> seek_end then st\<lparr>fs_past0 := [], fs_past1 := []\<rparr> else st)
          in do {
               (code, best, prompt, decoding) \<leftarrow> try_temperatures (fe_env fe) params seek seek_end (max_prompt_ctx_of fe params)
                  (fs_past0 st) (fs_past1 st) prompt_init (temperatures_of params) 0 prompt (fs_decoding st);
               let st = st\<lparr>fs_decoding := decoding\<rparr>;
               if code \<noteq> 0 then Some (Inl code, st)
               else do {
                 (seek, st) \<leftarrow> finish_window fe params seek_end prompt_init prompt seek (de_decoders decoding ! best) st;
                 Some (Inr (seek, prompt), st)
               }
             })"

partial_function (option) main_loop :: "('s, 'r) full_env \<Rightarrow> whisper_full_params \<Rightarrow> int \<Rightarrow> int \<Rightarrow> int list \<Rightarrow> int list \<Rightarrow> int
    \<Rightarrow> ('s, 'r) full_state \<Rightarrow> (int \<times> ('s, 'r) full_state) option" where
  "main_loop fe params seek_start seek_end prompt_init prompt seek st = do {
     (result, st) \<leftarrow> transcribe_window fe params seek_start seek_end prompt_init prompt seek st;
     (case result of Inl code \<Rightarrow> Some (code, st)
      | Inr (seek, prompt) \<Rightarrow> main_loop fe params seek_start seek_end prompt_init prompt seek st)
   }"

section \<open>The whole function\<close>

definition detect_language :: "('s, 'r) full_env \<Rightarrow> whisper_full_params \<Rightarrow> ('s, 'r) full_state
    \<Rightarrow> (int option \<times> whisper_full_params \<times> ('s, 'r) full_state) option" where
  "detect_language fe params st =
     (if fp_language params = None \<or> fp_language params = Some '''' \<or> fp_language params = Some ''auto'' \<or> fp_detect_language params
      then do {
        (lang_id, st) \<leftarrow> whisper_lang_auto_detect_with_state fe 0 st;
        if lang_id < 0 then Some (Some (- 3), params, st)
        else
          let st = st\<lparr>fs_lang_id := lang_id\<rparr>; params = params\<lparr>fp_language := whisper_lang_str lang_id\<rparr>
          in if fp_detect_language params then Some (Some 0, params, st) else Some (None, params, st)
      }
      else Some (None, params, st))"

definition prepare_transcription :: "('s, 'r) full_env \<Rightarrow> whisper_full_params \<Rightarrow> ('s, 'r) full_state \<Rightarrow> ('s, 'r) full_state" where
  "prepare_transcription fe params st =
     (let decoders = for_range 1 (nat (n_decoders_of params)) (\<lambda>j ds. ds[j := init_decoder fe j (ds ! j)]) (de_decoders (fs_decoding st));
          (past0, past1) = take_initial_prompt params (max_prompt_ctx_of fe params) (initial_tokens fe params)
             (if fp_no_context params then ([], []) else (fs_past0 st, fs_past1 st))
      in st\<lparr>fs_decoding := (fs_decoding st)\<lparr>de_decoders := decoders\<rparr>, fs_past0 := past0, fs_past1 := past1\<rparr>)"

definition run_windows :: "('s, 'r) full_env \<Rightarrow> whisper_full_params \<Rightarrow> int \<Rightarrow> int \<Rightarrow> ('s, 'r) full_state \<Rightarrow> (int \<times> ('s, 'r) full_state) option" where
  "run_windows fe params seek_start seek_end st =
     (if fp_audio_ctx params > en_n_audio_ctx (fe_env fe) then Some (- 5, st)
      else
        let st = st\<lparr>fs_exp_n_audio_ctx := fp_audio_ctx params\<rparr>; vocab = en_vocab (fe_env fe)
        in do {
             (lang_id, st) \<leftarrow> (if is_multilingual vocab
                then map_option (\<lambda>lang. let lang_id = whisper_lang_id lang in (lang_id, st\<lparr>fs_lang_id := lang_id\<rparr>)) (fp_language params)
                else Some (0, st));
             let params = (if fe_n_text_layer fe = 2 \<and> vb_n_vocab vocab \<noteq> 51866 \<and> \<not> fp_no_timestamps params
                      then params\<lparr>fp_no_timestamps := True\<rparr> else params);
             main_loop fe params seek_start seek_end (prompt_init_of fe params lang_id) [] seek_start st
           })"

definition whisper_full_with_state :: "('s, 'r) full_env \<Rightarrow> whisper_full_params \<Rightarrow> real list \<Rightarrow> ('s, 'r) full_state \<Rightarrow> (int \<times> ('s, 'r) full_state) option" where
  "whisper_full_with_state fe params samples st =
     (let st = st\<lparr>fs_log := (fs_log st)\<lparr>sl_results := []\<rparr>\<rparr>
      in do {
        (code, mel) \<leftarrow> (if samples \<noteq> [] then whisper_pcm_to_mel_with_state (fe_thread_order fe) (fe_filters fe) samples (fp_n_threads params) (fs_mel st)
                       else Some (0, fs_mel st));
        let st = st\<lparr>fs_mel := mel\<rparr>;
        if code \<noteq> 0 then Some (- 2, st)
        else do {
          (stop, params, st) \<leftarrow> detect_language fe params st;
          (case stop of Some code \<Rightarrow> Some (code, st)
           | None \<Rightarrow>
               let st = (if fp_token_timestamps params
                         then st\<lparr>fs_log := (fs_log st)\<lparr>sl_clock := \<lparr>tc_t_beg = 0, tc_t_last = 0, tc_tid_last = 0\<rparr>\<rparr>,
                                fs_energy := (if samples \<noteq> [] then get_signal_energy samples 32 else fs_energy st)\<rparr>
                         else st);
                   seek_start = tdiv (fp_offset_ms params) 10;
                   seek_end = (if fp_duration_ms params = 0 then ml_n_len_org (fs_mel st) else seek_start + tdiv (fp_duration_ms params) 10)
               in if seek_end < seek_start + 10 then Some (0, st)
                  else if n_decoders_of params > WHISPER_MAX_DECODERS then Some (- 4, st)
                  else run_windows fe params seek_start seek_end (prepare_transcription fe params st))
        }
      })"

section \<open>The decoders not used keep their state\<close>

definition frame :: "nat \<Rightarrow> 'a list \<Rightarrow> 'a list \<Rightarrow> bool" where
  "frame n xs ys \<longleftrightarrow> length ys = length xs \<and> (\<forall>j \<ge> n. ys ! j = xs ! j)"

lemma frame_refl [simp]: "frame n xs xs"
  by (simp add: frame_def)

lemma frame_trans: "frame n xs ys \<Longrightarrow> frame n ys zs \<Longrightarrow> frame n xs zs"
  by (simp add: frame_def)

lemma frame_update: "frame n xs ys \<Longrightarrow> j < n \<Longrightarrow> frame n xs (ys[j := y])"
  by (simp add: frame_def)

lemma frame_for_range:
  assumes "frame n xs (g s)" and "\<And>j s. j < n \<Longrightarrow> frame n xs (g s) \<Longrightarrow> frame n xs (g (f j s))"
  shows "frame n xs (g (for_range a n f s))"
proof (cases "a \<le> n")
  case True
  show ?thesis by (rule for_range_invariant [where P = "\<lambda>_ s. frame n xs (g s)", OF assms(1) _ True]) (rule assms(2))
qed (simp add: assms(1))

lemma frame_for_decoders: "for_decoders n f ds = Some ds' \<Longrightarrow> frame n ds ds'"
proof -
  have "\<forall>ds'. for_range 0 n (\<lambda>j st. do { decoders \<leftarrow> st; d \<leftarrow> f j (decoders ! j); Some (decoders[j := d]) }) (Some ds) = Some ds' \<longrightarrow> frame n ds ds'"
    by (rule for_range_invariant [where P = "\<lambda>_ st. \<forall>ds'. st = Some ds' \<longrightarrow> frame n ds ds'"])
      (auto simp: bind_eq_Some_conv intro: frame_update)
  then show "for_decoders n f ds = Some ds' \<Longrightarrow> frame n ds ds'" by (simp add: for_decoders_def)
qed

lemma frame_sample_decoders:
  assumes "sample_decoders env params t_cur n i st = Some st'"
  shows "frame n (de_decoders st) (de_decoders st')"
proof -
  have beam: "frame n xs (fst (for_range 0 n (beam_step env k) (xs, cs, ns)))" for xs :: "'b whisper_decoder list" and k cs ns
    by (rule frame_for_range) (auto simp: beam_step_def split_beta Let_def intro: frame_update)
  then have beam: "frame n xs ys" if "for_range 0 n (beam_step env k) (xs, cs, ns) = (ys, cs', ns')"
    for xs ys :: "'b whisper_decoder list" and k cs ns cs' ns' using that by (metis fst_conv)
  have assign: "frame n xs ys" if "for_range 0 n (\<lambda>j acc. Option.bind acc (assign_step cs i j)) (Some (xs, 0, [])) = Some (ys, c, moves)"
    for xs ys :: "'b whisper_decoder list" and cs c moves
  proof -
    have "\<forall>r. for_range 0 n (\<lambda>j acc. Option.bind acc (assign_step cs i j)) (Some (xs, 0, [])) = Some r \<longrightarrow> frame n xs (fst r)"
      by (rule for_range_invariant [where P = "\<lambda>_ acc. \<forall>r. acc = Some r \<longrightarrow> frame n xs (fst r)"])
        (auto simp: bind_eq_Some_conv assign_step_def Let_def split: if_splits intro: frame_update)
    then show ?thesis using that by auto
  qed
  show ?thesis
    using assms unfolding sample_decoders_def
    by (auto simp: bind_eq_Some_conv split: if_splits prod.splits intro: frame_for_decoders frame_trans [OF beam assign])
qed

lemma frame_decode_internal:
  "whisper_decode_internal env batch st = Some (ok, st') \<Longrightarrow> de_decoders st' = de_decoders st"
  by (auto simp: whisper_decode_internal_def Let_def bind_eq_Some_conv split: if_splits option.splits)

lemma frame_batch_steps:
  "for_range 0 n (batch_step p) (xs, batch) = (ys, batch') \<Longrightarrow> frame n xs ys"
proof -
  have "frame n xs (fst (for_range 0 n (batch_step p) (xs, batch)))"
    by (rule frame_for_range) (auto simp: batch_step_def split_beta intro: frame_update)
  then show "for_range 0 n (batch_step p) (xs, batch) = (ys, batch') \<Longrightarrow> frame n xs ys" by simp
qed

lemma frame_decode_round:
  assumes "decode_round env params t_cur n seek seek_end n_prompt n_max i st = Some (code, continue, st')"
  shows "frame n (de_decoders st) (de_decoders st')"
proof -
  obtain st1 where 1: "sample_decoders env params t_cur n i st = Some st1"
    using assms by (auto simp: decode_round_def bind_eq_Some_conv)
  then obtain ds where 2: "for_decoders n (\<lambda>j d. update_decoder env params seek seek_end n_max i d) (de_decoders st1) = Some ds"
    using assms by (auto simp: decode_round_def bind_eq_Some_conv)
  have f: "frame n (de_decoders st) ds" by (rule frame_trans [OF frame_sample_decoders [OF 1] frame_for_decoders [OF 2]])
  show ?thesis
  proof (cases "\<forall>j<n. finished (ds ! j)")
    case True
    then show ?thesis using assms 1 2 f by (auto simp: decode_round_def Let_def)
  next
    case False
    obtain ds2 batch where 3: "for_range 0 n (batch_step (int n_prompt + int i)) (ds, \<lparr>bt_token = [], bt_pos = [], bt_seq_id = [], bt_logits = []\<rparr>) = (ds2, batch)"
      by force
    note g = frame_trans [OF f frame_batch_steps [OF 3]]
    show ?thesis
      using assms 1 2 3 g unfolding decode_round_def
      by (auto simp: Let_def if_not_P [OF False] bind_eq_Some_conv split: if_splits
          dest!: frame_decode_internal frame_for_decoders intro: frame_trans)
  qed
qed

lemma frame_decode_rounds:
  "decode_rounds r env params t_cur n seek seek_end n_prompt n_max i st = Some (code, st') \<Longrightarrow> frame n (de_decoders st) (de_decoders st')"
proof (induction r arbitrary: i st)
  case (Suc r)
  then show ?case
    by (auto simp: bind_eq_Some_conv split: if_splits dest!: frame_decode_round intro: frame_trans)
qed simp

lemma frame_first_logits:
  assumes "first_logits env params t_cur n n_prompt st = Some st'" and "1 \<le> n"
  shows "frame n (de_decoders st) (de_decoders st')"
proof -
  have "frame n (de_decoders s) (de_decoders (for_range 1 n (\<lambda>j st. st\<lparr>de_kv := whisper_kv_cache_seq_cp (de_kv st) 0 (int j) (- 1) (- 1),
         de_decoders := (de_decoders st)[j := share_logits first (de_decoders st ! j)]\<rparr>) s))" for s :: "('a, 'b) decoding" and first
    by (rule frame_for_range [where g = de_decoders]) (auto intro: frame_update)
  then have "frame n ds (de_decoders (for_range 1 n (\<lambda>j st. st\<lparr>de_kv := whisper_kv_cache_seq_cp (de_kv st) 0 (int j) (- 1) (- 1),
         de_decoders := (de_decoders st)[j := share_logits first (de_decoders st ! j)]\<rparr>) s))" if "frame n ds (de_decoders s)"
    for s :: "('a, 'b) decoding" and first ds using that frame_trans by blast
  then show ?thesis
    using assms by (auto simp: first_logits_def bind_eq_Some_conv frame_update)
qed

lemma frame_decode_temperature:
  assumes "decode_temperature env params t_cur n seek seek_end max_prompt_ctx past0 past1 prompt_init st = Some (code, prompt, st')" and "1 \<le> n"
  shows "frame n (de_decoders st) (de_decoders st')"
proof -
  have window: "frame n (de_decoders s) (de_decoders s')" if "decode_window env params t_cur n seek seek_end p n_max s = Some (c, s')" for s s' p n_max c
  proof -
    obtain ok s1 where grow: "grow_cache env n s = (ok, s1)" by force
    then have "de_decoders s1 = de_decoders s" by (auto simp: grow_cache_def Let_def split: if_splits)
    then show ?thesis
      using that grow assms(2)
      by (auto simp: decode_window_def bind_eq_Some_conv split: if_splits
          dest!: frame_decode_internal frame_first_logits frame_decode_rounds intro: frame_trans)
  qed
  show ?thesis
    using assms(1) by (auto simp: decode_temperature_def bind_eq_Some_conv dest!: window frame_for_decoders intro: frame_trans)
qed

section \<open>The best decoder\<close>

lemma score_fields [simp]:
  "sq_tokens (whisper_sequence_score params sequence) = sq_tokens sequence"
  "sq_result_len (whisper_sequence_score params sequence) = sq_result_len sequence"
  by (simp_all add: whisper_sequence_score_def Let_def)

lemma scored_typed:
  assumes "decoder_typed vocab d"
  shows "decoder_typed vocab (d\<lparr>dc_sequence := whisper_sequence_score params
    ((dc_sequence d)\<lparr>sq_tokens := resize (nat (sq_result_len (dc_sequence d))) no_token (sq_tokens (dc_sequence d))\<rparr>)\<rparr>)"
  using assms by (auto simp: decoder_typed_def resize_def dest: in_set_takeD)

lemma rank_decoders_keeps:
  assumes "length ds = 8" and "n \<le> 8" and "\<forall>j<n. decoder_typed vocab (ds ! j)"
  shows "frame n ds (rk_decoders (rank_decoders params n best ds n_fail))
    \<and> (\<forall>j<n. decoder_typed vocab (rk_decoders (rank_decoders params n best ds n_fail) ! j))
    \<and> (rk_best_decoder_id (rank_decoders params n best ds n_fail) = best \<or> rk_best_decoder_id (rank_decoders params n best ds n_fail) < n)"
proof -
  let ?P = "\<lambda>st. frame n ds (rk_decoders st) \<and> (\<forall>j<n. decoder_typed vocab (rk_decoders st ! j))
    \<and> (rk_best_decoder_id st = best \<or> rk_best_decoder_id st < n)"
  have "?P (rank_step params j st)" if "j < n" "?P st" for j st
  proof -
    have "decoder_typed vocab (rk_decoders st ! j)" and len: "length (rk_decoders st) = 8" using that assms(1) by (auto simp: frame_def)
    note d = scored_typed [OF this(1), of params]
    have keep: "frame n ds ((rk_decoders st)[j := x]) \<and> (\<forall>k<n. decoder_typed vocab ((rk_decoders st)[j := x] ! k))" if "decoder_typed vocab x" for x
      using that \<open>?P st\<close> \<open>j < n\<close> len assms(2) by (auto simp: frame_update nth_list_update)
    show ?thesis
      using that keep [OF d] keep [of "_\<lparr>dc_failed := True\<rparr>"] d by (auto simp: rank_step_def Let_def)
  qed
  then show ?thesis
    unfolding rank_decoders_def
    by (intro for_range_invariant [where P = "\<lambda>_. ?P" and a = 0]) (use assms(3) in auto)
qed

lemma n_decoders_at_bounds:
  assumes "params_ok params" and "n_decoders_of params \<le> 8"
  shows "1 \<le> n_decoders_at params t_cur" and "n_decoders_at params t_cur \<le> 8"
  using assms by (auto simp: n_decoders_at_def n_decoders_of_def params_ok_def WHISPER_SAMPLING_GREEDY_def WHISPER_SAMPLING_BEAM_SEARCH_def split: if_splits)

definition decoding_ok :: "('s, 'r) decoding \<Rightarrow> bool" where
  "decoding_ok st \<longleftrightarrow> kv_ok (de_kv st) \<and> length (de_decoders st) = 8"

lemma try_temperatures_total:
  assumes "env_ok env" and "params_ok params" and "n_decoders_of params \<le> 8"
    and "fp_carry_initial_prompt params \<longrightarrow> int (length past0) + 1 \<le> max_prompt_ctx"
    and "max_prompt_ctx \<le> tdiv (en_n_text_ctx env) 2" and "prompt_init \<noteq> []" and "length prompt_init \<le> 4"
    and "decoding_ok st" and "best < 8" and "ts = [] \<or> best = 0 \<or> decoder_typed (en_vocab env) (de_decoders st ! best)"
    and "ts = [] \<longrightarrow> decoder_typed (en_vocab env) (de_decoders st ! best)"
  shows "\<exists>code best' prompt' st'. try_temperatures env params seek seek_end max_prompt_ctx past0 past1 prompt_init ts best prompt st
      = Some (code, best', prompt', st') \<and> code \<in> {0, - 7, - 8, - 9} \<and> decoding_ok st'
    \<and> (code = 0 \<longrightarrow> best' < 8 \<and> decoder_typed (en_vocab env) (de_decoders st' ! best'))"
  using assms(8-11)
proof (induction ts arbitrary: best prompt st)
  case Nil
  then show ?case by auto
next
  case (Cons t_cur ts)
  let ?v = "en_vocab env"
  define n where "n = n_decoders_at params t_cur"
  have n: "1 \<le> n" "n \<le> 8" using n_decoders_at_bounds [OF assms(2,3)] by (auto simp: n_def)
  have ok: "kv_ok (de_kv st)" "length (de_decoders st) = 8" using Cons.prems(1) by (auto simp: decoding_ok_def)
  obtain code p st1 where dec: "decode_temperature env params t_cur n seek seek_end max_prompt_ctx past0 past1 prompt_init st = Some (code, p, st1)"
    "code \<in> {0, - 7, - 8, - 9}" "window_settled env n st1"
    using decode_temperature_total [OF assms(1,2) ok n assms(4-7)] by blast
  have st1: "kv_ok (de_kv st1)" "length (de_decoders st1) = 8" "\<forall>j<n. decoder_typed ?v (de_decoders st1 ! j)"
    using dec(3) by (auto simp: window_settled_def decoders_typed_def)
  have f1: "frame n (de_decoders st) (de_decoders st1)" by (rule frame_decode_temperature [OF dec(1) n(1)])
  show ?case
  proof (cases "code = 0")
    case False
    then show ?thesis using dec(1,2) st1(1,2) by (auto simp: Let_def decoding_ok_def simp flip: n_def)
  next
    case True
    define r where "r = rank_decoders params n best (de_decoders st1) (de_n_fail_h st1)"
    define st2 where "st2 = st1\<lparr>de_decoders := rk_decoders r, de_n_fail_h := rk_n_fail_h r\<rparr>"
    note keeps = rank_decoders_keeps [OF st1(2) n(2) st1(3), of params best "de_n_fail_h st1", folded r_def]
    have ok2: "decoding_ok st2" using st1(1,2) keeps by (simp add: st2_def decoding_ok_def frame_def)
    have best2: "rk_best_decoder_id r < 8" using keeps n(2) Cons.prems(2) by auto
    have typed: "decoder_typed ?v (rk_decoders r ! rk_best_decoder_id r)"
    proof (cases "rk_best_decoder_id r < n")
      case True
      then show ?thesis using keeps by simp
    next
      case False
      then have "rk_best_decoder_id r = best" "n \<le> best" using keeps by auto
      moreover from this have "rk_decoders r ! best = de_decoders st ! best" using keeps f1 by (simp add: frame_def)
      ultimately show ?thesis using Cons.prems(3) n(1) by auto
    qed
    have step: "try_temperatures env params seek seek_end max_prompt_ctx past0 past1 prompt_init (t_cur # ts) best prompt st
      = (if ts \<noteq> [] \<and> (dc_failed (rk_decoders r ! rk_best_decoder_id r)
              \<or> (sq_avg_logprobs (dc_sequence (rk_decoders r ! rk_best_decoder_id r)) < Some (fp_logprob_thold params)
                  \<and> de_no_speech_prob st2 < fp_no_speech_thold params))
          then try_temperatures env params seek seek_end max_prompt_ctx past0 past1 prompt_init ts (rk_best_decoder_id r) p (st2\<lparr>de_n_fail_p := de_n_fail_p st2 + 1\<rparr>)
          else Some (0, rk_best_decoder_id r, p, st2))"
      using dec(1) True by (simp add: Let_def st2_def r_def flip: n_def)
    have "decoding_ok (st2\<lparr>de_n_fail_p := de_n_fail_p st2 + 1\<rparr>)" using ok2 by (simp add: decoding_ok_def)
    from Cons.IH [OF this best2, of p] show ?thesis
      unfolding step using ok2 best2 typed by (auto simp: st2_def)
  qed
qed

section \<open>Every window makes progress\<close>

definition vocab_spelled :: "whisper_vocab \<Rightarrow> bool" where
  "vocab_spelled vocab \<longleftrightarrow> (\<forall>i. 0 \<le> i \<and> i < vb_n_vocab vocab \<longrightarrow> (\<exists>str. whisper_token_to_str vocab i = Some str \<and> str \<noteq> []))"

lemma finish_window_total:
  assumes "vocab_ok (en_vocab (fe_env fe))" and "vocab_spelled (en_vocab (fe_env fe))" and "\<not> fp_print_special params"
    and "decoder_typed (en_vocab (fe_env fe)) decoder" and "seek + 10 < seek_end"
  shows "\<exists>seek' st'. finish_window fe params seek_end prompt_init prompt seek decoder st = Some (seek', st') \<and> seek + 2 \<le> seek'
    \<and> fs_decoding st' = fs_decoding st \<and> fs_past0 st' = fs_past0 st"
proof -
  let ?v = "en_vocab (fe_env fe)" and ?tokens = "sq_tokens (dc_sequence decoder)"
  have spelled: "\<forall>t \<in> set ?tokens. spelled ?v t"
    using assms(2,4) by (auto simp: vocab_spelled_def decoder_typed_def token_typed_def spelled_def)
  have "vb_token_eot ?v \<le> vb_token_beg ?v" using assms(1) by (simp add: vocab_ok_def)
  note segments = window_segments_total [OF assms(3) this spelled]
  define silent where "silent \<longleftrightarrow> de_no_speech_prob (fs_decoding st) > fp_no_speech_thold params \<and> sq_avg_logprobs (dc_sequence decoder) < Some (fp_logprob_thold params)"
  obtain log where log: "(if ?tokens \<noteq> [] \<and> en_n_loaded (fe_env fe) > 0 \<and> \<not> silent
      then window_segments params ?v (cp_dtw_token_timestamps (en_context_params (fe_env fe))) (fs_energy st) (de_no_speech_prob (fs_decoding st))
             seek (dc_seek_delta decoder) ?tokens (fs_log st) else Some (fs_log st)) = Some log"
    using segments [of "cp_dtw_token_timestamps (en_context_params (fe_env fe))" "fs_energy st" "de_no_speech_prob (fs_decoding st)" seek
        "dc_seek_delta decoder" "fs_log st"] by (cases "?tokens \<noteq> [] \<and> en_n_loaded (fe_env fe) > 0 \<and> \<not> silent") (simp_all, blast)
  have "2 \<le> (if single_timestamp_ending ?v params ?tokens then min (seek_end - seek) 3000 else dc_seek_delta decoder)"
    using assms(4,5) by (simp add: decoder_typed_def)
  moreover have "finish_window fe params seek_end prompt_init prompt seek decoder st
      = Some (seek + (if single_timestamp_ending ?v params ?tokens then min (seek_end - seek) 3000 else dc_seek_delta decoder),
              st\<lparr>fs_past1 := rolling_context ?v params prompt prompt_init silent (dc_sequence decoder), fs_log := log\<rparr>)"
    unfolding finish_window_def Let_def silent_def [symmetric] log Option.bind.simps ..
  ultimately show ?thesis by simp
qed

definition transcription_ok :: "('s, 'r) full_env \<Rightarrow> whisper_full_params \<Rightarrow> bool" where
  "transcription_ok fe params \<longleftrightarrow> env_ok (fe_env fe) \<and> params_ok params \<and> vocab_spelled (en_vocab (fe_env fe)) \<and> \<not> fp_print_special params
     \<and> temperatures_of params \<noteq> [] \<and> (fp_carry_initial_prompt params \<longrightarrow> 2 \<le> max_prompt_ctx_of fe params)"

definition full_state_ok :: "('s, 'r) full_env \<Rightarrow> whisper_full_params \<Rightarrow> ('s, 'r) full_state \<Rightarrow> bool" where
  "full_state_ok fe params st \<longleftrightarrow> decoding_ok (fs_decoding st)
     \<and> (fp_carry_initial_prompt params \<longrightarrow> int (length (fs_past0 st)) + 1 \<le> max_prompt_ctx_of fe params)"

lemma transcribe_window_total:
  assumes "transcription_ok fe params" and "full_state_ok fe params st" and "n_decoders_of params \<le> 8"
    and "prompt_init \<noteq> []" and "length prompt_init \<le> 4"
  shows "\<exists>result st'. transcribe_window fe params seek_start seek_end prompt_init prompt seek st = Some (result, st')
    \<and> full_state_ok fe params st'
    \<and> (case result of Inl code \<Rightarrow> code \<in> {0, - 6, - 7, - 8, - 9} | Inr (seek', prompt') \<Rightarrow> seek + 2 \<le> seek' \<and> seek < seek_end)"
proof -
  consider (over) "seek + 10 \<ge> seek_end \<or> fp_encoder_begin_callback params \<noteq> None \<and> \<not> fe_encoder_begin fe (de_model (fs_decoding st))"
    | (failed) "seek + 10 < seek_end" "\<not> (fp_encoder_begin_callback params \<noteq> None \<and> \<not> fe_encoder_begin fe (de_model (fs_decoding st)))"
        "fe_encode fe True (de_model (fs_decoding st)) (fs_mel st) seek (fs_exp_n_audio_ctx st) = None"
    | (encoded) model where "seek + 10 < seek_end" "\<not> (fp_encoder_begin_callback params \<noteq> None \<and> \<not> fe_encoder_begin fe (de_model (fs_decoding st)))"
        "fe_encode fe True (de_model (fs_decoding st)) (fs_mel st) seek (fs_exp_n_audio_ctx st) = Some model"
    by (cases "fe_encode fe True (de_model (fs_decoding st)) (fs_mel st) seek (fs_exp_n_audio_ctx st)") fastforce+
  then show ?thesis
  proof cases
    case over
    then show ?thesis using assms(2) by (auto simp: transcribe_window_def)
  next
    case failed
    then show ?thesis using assms(2) unfolding transcribe_window_def by auto
  next
    case encoded
    define st0 where "st0 = st\<lparr>fs_decoding := (fs_decoding st)\<lparr>de_model := model\<rparr>\<rparr>"
    define st1 where "st1 = (if seek > seek_start \<and> seek + 500 \<ge> seek_end then st0\<lparr>fs_past0 := [], fs_past1 := []\<rparr> else st0)"
    have env: "env_ok (fe_env fe)" "params_ok params" "temperatures_of params \<noteq> []" using assms(1) by (auto simp: transcription_ok_def)
    have carry: "fp_carry_initial_prompt params \<longrightarrow> int (length (fs_past0 st1)) + 1 \<le> max_prompt_ctx_of fe params"
      using assms(1,2) by (auto simp: st1_def st0_def full_state_ok_def transcription_ok_def)
    have ok1: "decoding_ok (fs_decoding st1)" using assms(2) by (simp add: st1_def st0_def full_state_ok_def decoding_ok_def)
    have max: "max_prompt_ctx_of fe params \<le> tdiv (en_n_text_ctx (fe_env fe)) 2" by (simp add: max_prompt_ctx_of_def)
    obtain code best prompt' dec where attempt: "try_temperatures (fe_env fe) params seek seek_end (max_prompt_ctx_of fe params) (fs_past0 st1) (fs_past1 st1)
        prompt_init (temperatures_of params) 0 prompt (fs_decoding st1) = Some (code, best, prompt', dec)"
      "code \<in> {0, - 7, - 8, - 9}" "decoding_ok dec" "code = 0 \<longrightarrow> best < 8 \<and> decoder_typed (en_vocab (fe_env fe)) (de_decoders dec ! best)"
      using try_temperatures_total [OF env(1,2) assms(3) carry max assms(4,5) ok1, of 0 "temperatures_of params" seek seek_end "fs_past1 st1" prompt] env(3) by auto
    have late: "\<not> seek_end \<le> seek + 10" using encoded(1) by simp
    have unfold: "transcribe_window fe params seek_start seek_end prompt_init prompt seek st =
        (if code \<noteq> 0 then Some (Inl code, st1\<lparr>fs_decoding := dec\<rparr>)
         else do { (seek, st) \<leftarrow> finish_window fe params seek_end prompt_init prompt' seek (de_decoders dec ! best) (st1\<lparr>fs_decoding := dec\<rparr>);
                   Some (Inr (seek, prompt'), st) })"
      unfolding transcribe_window_def Let_def if_not_P [OF late] if_not_P [OF encoded(2)] encoded(3) option.case
        st0_def [symmetric] st1_def [symmetric] attempt(1) Option.bind.simps prod.case ..
    show ?thesis
    proof (cases "code = 0")
      case False
      then show ?thesis using unfold attempt(2,3) carry by (auto simp: full_state_ok_def)
    next
      case True
      have v: "vocab_ok (en_vocab (fe_env fe))" "vocab_spelled (en_vocab (fe_env fe))" "\<not> fp_print_special params"
        using assms(1) by (auto simp: transcription_ok_def env_ok_def)
      obtain seek' st' where "finish_window fe params seek_end prompt_init prompt' seek (de_decoders dec ! best) (st1\<lparr>fs_decoding := dec\<rparr>) = Some (seek', st')"
        "seek + 2 \<le> seek'" "fs_decoding st' = dec" "fs_past0 st' = fs_past0 st1"
        using finish_window_total [OF v _ encoded(1), of "de_decoders dec ! best" prompt_init prompt' "st1\<lparr>fs_decoding := dec\<rparr>"] attempt(4) True by auto
      then show ?thesis using unfold True attempt(3) carry encoded(1) by (auto simp: full_state_ok_def)
    qed
  qed
qed

text \<open>The main loop as a loop that makes progress: its state is the prompt, the position and the state of the transcription.\<close>

definition window_step :: "('s, 'r) full_env \<Rightarrow> whisper_full_params \<Rightarrow> int \<Rightarrow> int \<Rightarrow> int list \<Rightarrow> int list \<times> int \<times> ('s, 'r) full_state
    \<Rightarrow> (int \<times> ('s, 'r) full_state + int list \<times> int \<times> ('s, 'r) full_state) option" where
  "window_step fe params seek_start seek_end prompt_init = (\<lambda>(prompt, seek, st).
     map_option (\<lambda>(result, st). case result of Inl code \<Rightarrow> Inl (code, st) | Inr (seek, prompt) \<Rightarrow> Inr (prompt, seek, st))
       (transcribe_window fe params seek_start seek_end prompt_init prompt seek st))"

definition loop_ok :: "('s, 'r) full_env \<Rightarrow> whisper_full_params \<Rightarrow> int list \<Rightarrow> int list \<times> int \<times> ('s, 'r) full_state \<Rightarrow> bool" where
  "loop_ok fe params prompt_init s \<longleftrightarrow> transcription_ok fe params \<and> full_state_ok fe params (snd (snd s)) \<and> n_decoders_of params \<le> 8
     \<and> prompt_init \<noteq> [] \<and> length prompt_init \<le> 4"

interpretation windows: progress_loop "window_step fe params seek_start seek_end prompt_init"
  "\<lambda>(prompt, seek, st). main_loop fe params seek_start seek_end prompt_init prompt seek st" "loop_ok fe params prompt_init"
  "\<lambda>(code, st). code \<in> {0, - 6, - 7, - 8, - 9} \<and> full_state_ok fe params st" "\<lambda>(prompt, seek, st). nat (seek_end - seek)"
proof
  fix s :: "int list \<times> int \<times> ('a, 'b) full_state"
  obtain prompt seek st where s: "s = (prompt, seek, st)" by (cases s)
  show "(case s of (prompt, seek, st) \<Rightarrow> main_loop fe params seek_start seek_end prompt_init prompt seek st)
      = Option.bind (window_step fe params seek_start seek_end prompt_init s) (\<lambda>r. case r of Inl x \<Rightarrow> Some x
          | Inr s' \<Rightarrow> (case s' of (prompt, seek, st) \<Rightarrow> main_loop fe params seek_start seek_end prompt_init prompt seek st))"
    unfolding s prod.case by (subst main_loop.simps)
      (auto simp: window_step_def Option.map_conv_bind_option split: sum.split prod.split intro!: bind_option_cong)
  assume "loop_ok fe params prompt_init s"
  then obtain result st' where win: "transcribe_window fe params seek_start seek_end prompt_init prompt seek st = Some (result, st')" "full_state_ok fe params st'"
    "case result of Inl code \<Rightarrow> code \<in> {0, - 6, - 7, - 8, - 9} | Inr (seek', prompt') \<Rightarrow> seek + 2 \<le> seek' \<and> seek < seek_end"
    using transcribe_window_total [of fe params st prompt_init seek_start seek_end prompt seek] by (auto simp: loop_ok_def s)
  then show "\<exists>r. window_step fe params seek_start seek_end prompt_init s = Some r \<and> (case r of Inl x \<Rightarrow> (case x of (code, st) \<Rightarrow>
        code \<in> {0, - 6, - 7, - 8, - 9} \<and> full_state_ok fe params st)
      | Inr s' \<Rightarrow> loop_ok fe params prompt_init s' \<and> (case s' of (prompt, seek, st) \<Rightarrow> nat (seek_end - seek)) < (case s of (prompt, seek, st) \<Rightarrow> nat (seek_end - seek)))"
    using \<open>loop_ok fe params prompt_init s\<close> by (auto simp: window_step_def s loop_ok_def split: sum.splits)
qed

lemma main_loop_total:
  assumes "transcription_ok fe params" and "full_state_ok fe params st" and "n_decoders_of params \<le> 8"
    and "prompt_init \<noteq> []" and "length prompt_init \<le> 4"
  shows "\<exists>code st'. main_loop fe params seek_start seek_end prompt_init prompt seek st = Some (code, st') \<and> code \<in> {0, - 6, - 7, - 8, - 9}
    \<and> full_state_ok fe params st'"
  using windows.returns [of fe params prompt_init "(prompt, seek, st)" seek_start seek_end] assms by (auto simp: loop_ok_def)

section \<open>The whole transcription\<close>

lemma abort_env_ok [simp]: "env_ok (env\<lparr>en_abort := f\<rparr>) = env_ok env"
  by (simp add: env_ok_def graph_rows_def)

lemma decode_with_state_total:
  assumes "env_ok env" and "decoding_ok st"
  shows "\<exists>code st'. whisper_decode_with_state env [sot] 0 st = Some (code, st') \<and> decoding_ok st'
    \<and> (code = 0 \<longrightarrow> length (hd (de_logits st')) = nat (vb_n_vocab (en_vocab env)))"
proof -
  let ?env = "env\<lparr>en_abort := \<lambda>_. False\<rparr>" and ?st = "st\<lparr>de_kv := whisper_kv_cache_seq_rm (de_kv st) 0 0 (- 1)\<rparr>"
  have "[sot] \<noteq> []" "int (length [sot]) < POS_MAX" by (simp_all add: POS_MAX_def)
  note batch = legacy_batch [OF this]
  have kv: "kv_ok (de_kv ?st)" using assms(2) by (simp add: decoding_ok_def kv_ok_seq_rm)
  have "int (bt_n_tokens (whisper_batch_prep_legacy [sot] 0 0)) \<le> en_n_text_ctx env" using assms(1) batch(2) by (simp add: env_ok_def)
  then obtain ok st' where run: "whisper_decode_internal ?env (whisper_batch_prep_legacy [sot] 0 0) ?st = Some (ok, st')" "kv_ok (de_kv st')"
    "de_decoders st' = de_decoders st" "ok \<longrightarrow> length (de_logits st') = 1 \<and> length (de_logits st' ! 0) = nat (vb_n_vocab (en_vocab env))"
    using decode_internal_total [of ?env ?st "whisper_batch_prep_legacy [sot] 0 0"] assms(1) kv batch by auto
  have "ok \<longrightarrow> length (hd (de_logits st')) = nat (vb_n_vocab (en_vocab env))" using run(4) by (cases "de_logits st'") auto
  then show ?thesis using run(1-3) assms(2) by (auto simp: whisper_decode_with_state_def decoding_ok_def)
qed

definition wants_detection :: "whisper_full_params \<Rightarrow> bool" where
  "wants_detection params \<longleftrightarrow> fp_language params = None \<or> fp_language params = Some '''' \<or> fp_language params = Some ''auto'' \<or> fp_detect_language params"

definition languages_in_vocab :: "('s, 'r) full_env \<Rightarrow> bool" where
  "languages_in_vocab fe \<longleftrightarrow> 0 \<le> vb_token_sot (en_vocab (fe_env fe)) \<and> vb_token_sot (en_vocab (fe_env fe)) + 100 < vb_n_vocab (en_vocab (fe_env fe))
     \<and> (\<forall>ls. mset (fe_sort_langs fe ls) = mset ls)"

lemma g_lang_ids: "(code, i, name) \<in> set g_lang \<Longrightarrow> 0 \<le> i \<and> i < 100"
proof -
  assume "(code, i, name) \<in> set g_lang"
  then have "i \<in> set (map (fst \<circ> snd) g_lang)" by force
  then show ?thesis using g_lang_numbers by auto
qed

lemma lang_auto_detect_total:
  assumes "env_ok (fe_env fe)" and "decoding_ok (fs_decoding st)" and "languages_in_vocab fe"
  shows "\<exists>code st'. whisper_lang_auto_detect_with_state fe offset_ms st = Some (code, st') \<and> decoding_ok (fs_decoding st')
    \<and> fs_past0 st' = fs_past0 st \<and> code < 100"
proof -
  let ?v = "en_vocab (fe_env fe)"
  have enc: "fs_past0 (snd (whisper_encode_with_state fe seek st)) = fs_past0 st \<and> decoding_ok (fs_decoding (snd (whisper_encode_with_state fe seek st)))" for seek
    using assms(2) by (auto simp: whisper_encode_with_state_def decoding_ok_def split: option.split)
  show ?thesis
  proof (cases "tdiv offset_ms 10 < 0 \<or> tdiv offset_ms 10 \<ge> ml_n_len_org (fs_mel st)")
    case True
    then show ?thesis using assms(2) by (auto simp: whisper_lang_auto_detect_with_state_def Let_def)
  next
    case False
    obtain c st1 where e: "whisper_encode_with_state fe (tdiv offset_ms 10) st = (c, st1)" by force
    have st1: "fs_past0 st1 = fs_past0 st" "decoding_ok (fs_decoding st1)" using enc [of "tdiv offset_ms 10"] e by auto
    obtain code dec where d: "whisper_decode_with_state (fe_env fe) [vb_token_sot ?v] 0 (fs_decoding st1) = Some (code, dec)" "decoding_ok dec"
      "code = 0 \<longrightarrow> length (hd (de_logits dec)) = nat (vb_n_vocab ?v)"
      using decode_with_state_total [OF assms(1) st1(2)] by blast
    have range: "\<not> (\<exists>lang \<in> set g_lang. length (hd (de_logits dec)) \<le> nat (whisper_token_lang ?v (fst (snd lang))))" if "code = 0"
    proof -
      have "nat (whisper_token_lang ?v i) < nat (vb_n_vocab ?v)" if "(l, i, n) \<in> set g_lang" for l i n
        using g_lang_ids [OF that] assms(3) by (simp add: whisper_token_lang_def languages_in_vocab_def)
      then show ?thesis using d(3) that by fastforce
    qed
    have best: "snd (hd (fe_sort_langs fe (map (\<lambda>(lang, i, name). (row ! nat (whisper_token_lang ?v i), i)) g_lang))) < 100" for row
    proof -
      let ?ls = "map (\<lambda>(lang, i, name). (row ! nat (whisper_token_lang ?v i), i)) g_lang"
      have m: "mset (fe_sort_langs fe ?ls) = mset ?ls" using assms(3) by (simp add: languages_in_vocab_def)
      have "length g_lang = 100" using arg_cong [OF g_lang_numbers, of length] by simp
      then have "fe_sort_langs fe ?ls \<noteq> []" using arg_cong [OF m, of size] by auto
      then have "hd (fe_sort_langs fe ?ls) \<in> set (fe_sort_langs fe ?ls)" by simp
      also have "\<dots> = set ?ls" using arg_cong [OF m, of set_mset] by simp
      finally show ?thesis using g_lang_ids by fastforce
    qed
    show ?thesis
      using False e d(1,2) st1 range best
      by (auto simp: whisper_lang_auto_detect_with_state_def Let_def split_beta)
  qed
qed

lemma params_fields [simp]:
  "transcription_ok fe (params\<lparr>fp_language := l\<rparr>) = transcription_ok fe params"
  "transcription_ok fe (params\<lparr>fp_no_timestamps := b\<rparr>) = transcription_ok fe params"
  "full_state_ok fe (params\<lparr>fp_language := l\<rparr>) st = full_state_ok fe params st"
  "full_state_ok fe (params\<lparr>fp_no_timestamps := b\<rparr>) st = full_state_ok fe params st"
  "n_decoders_of (params\<lparr>fp_language := l\<rparr>) = n_decoders_of params"
  "n_decoders_of (params\<lparr>fp_no_timestamps := b\<rparr>) = n_decoders_of params"
  by (simp_all add: transcription_ok_def full_state_ok_def params_ok_def temperatures_of_def max_prompt_ctx_of_def n_decoders_of_def)

lemma pcm_to_mel_total:
  "201 \<le> length samples \<and> 1 \<le> n_threads \<Longrightarrow> \<exists>mel'. whisper_pcm_to_mel_with_state order filters samples n_threads mel = Some (0, mel')"
  by (simp add: whisper_pcm_to_mel_with_state_def log_mel_spectrogram_def WHISPER_N_FFT_def Let_def)

lemma detect_language_total:
  assumes "transcription_ok fe params" and "full_state_ok fe params st" and "wants_detection params \<longrightarrow> languages_in_vocab fe"
  shows "\<exists>stop language st'. detect_language fe params st = Some (stop, params\<lparr>fp_language := language\<rparr>, st') \<and> full_state_ok fe params st'
    \<and> (case stop of Some code \<Rightarrow> code \<in> {0, - 3} | None \<Rightarrow> language \<noteq> None)"
proof (cases "wants_detection params")
  case False
  then have "detect_language fe params st = Some (None, params\<lparr>fp_language := fp_language params\<rparr>, st)"
    unfolding detect_language_def if_not_P [OF False [unfolded wants_detection_def]] by simp
  then show ?thesis using False assms(2) unfolding wants_detection_def by fastforce
next
  case True
  have "env_ok (fe_env fe)" "decoding_ok (fs_decoding st)" using assms(1,2) by (auto simp: transcription_ok_def full_state_ok_def)
  from lang_auto_detect_total [OF this, of 0] True assms(3)
  obtain code st' where auto: "whisper_lang_auto_detect_with_state fe 0 st = Some (code, st')" "decoding_ok (fs_decoding st')" "fs_past0 st' = fs_past0 st" "code < 100"
    by blast
  have unfold: "detect_language fe params st =
      (if code < 0 then Some (Some (- 3), params, st')
       else let st = st'\<lparr>fs_lang_id := code\<rparr>; params = params\<lparr>fp_language := whisper_lang_str code\<rparr>
            in if fp_detect_language params then Some (Some 0, params, st) else Some (None, params, st))"
    using auto(1) True unfolding detect_language_def if_P [OF True [unfolded wants_detection_def]] by simp
  have ok: "full_state_ok fe params st'" "full_state_ok fe params (st'\<lparr>fs_lang_id := code\<rparr>)" using auto(2,3) assms(2) by (simp_all add: full_state_ok_def)
  have same: "params\<lparr>fp_language := fp_language params\<rparr> = params" by simp
  show ?thesis
  proof (cases "code < 0")
    case True
    then have "detect_language fe params st = Some (Some (- 3), params\<lparr>fp_language := fp_language params\<rparr>, st')" using unfold by simp
    then show ?thesis using ok(1) by fastforce
  next
    case False
    then have "whisper_lang_str code \<noteq> None" using lang_id_str [of code] auto(4) by auto
    then show ?thesis using False ok(2) unfolding unfold by (cases "fp_detect_language params") (fastforce simp: Let_def)+
  qed
qed

lemma prepare_transcription_ok:
  assumes "transcription_ok fe params" and "full_state_ok fe params st"
  shows "full_state_ok fe params (prepare_transcription fe params st)"
proof -
  have len: "length (for_range a n (\<lambda>j ds. ds[j := init_decoder fe j (ds ! j)]) ds) = length ds" for a n and ds :: "'b whisper_decoder list"
    by (cases "a \<le> n") (auto intro: for_range_invariant [where P = "\<lambda>_ xs. length xs = length ds"])
  have fits: "int (length (fst (take_initial_prompt params m tokens (past0, past1)))) + 1 \<le> m"
    if "int (length past0) + 1 \<le> m" "2 \<le> m" for m tokens past0 past1
    using that by (auto simp: take_initial_prompt_def Let_def)
  let ?past = "if fp_no_context params then ([], []) else (fs_past0 st, fs_past1 st)"
  have "int (length (fst (take_initial_prompt params (max_prompt_ctx_of fe params) (initial_tokens fe params) ?past))) + 1 \<le> max_prompt_ctx_of fe params"
    if "fp_carry_initial_prompt params"
    using fits [of "fst ?past" "max_prompt_ctx_of fe params" "initial_tokens fe params" "snd ?past"] that assms
    by (auto simp: transcription_ok_def full_state_ok_def)
  then show ?thesis
    using assms(2) len by (auto simp: prepare_transcription_def full_state_ok_def decoding_ok_def Let_def split_beta)
qed

lemma run_windows_total:
  assumes "transcription_ok fe params" and "full_state_ok fe params st" and "n_decoders_of params \<le> 8" and "fp_language params = Some lang"
  shows "\<exists>code st'. run_windows fe params seek_start seek_end st = Some (code, st') \<and> code \<in> {0, - 5, - 6, - 7, - 8, - 9} \<and> full_state_ok fe params st'"
proof (cases "fp_audio_ctx params > en_n_audio_ctx (fe_env fe)")
  case True
  then show ?thesis using assms(2) by (simp add: run_windows_def)
next
  case False
  define p where "p = (if fe_n_text_layer fe = 2 \<and> vb_n_vocab (en_vocab (fe_env fe)) \<noteq> 51866 \<and> \<not> fp_no_timestamps params
    then params\<lparr>fp_no_timestamps := True\<rparr> else params)"
  have p: "transcription_ok fe p" "n_decoders_of p \<le> 8" "full_state_ok fe p s = full_state_ok fe params s" for s
    using assms(1,3) by (simp_all add: p_def)
  define l where "l = (if is_multilingual (en_vocab (fe_env fe)) then whisper_lang_id lang else 0)"
  define s where "s = (if is_multilingual (en_vocab (fe_env fe)) then st\<lparr>fs_exp_n_audio_ctx := fp_audio_ctx params, fs_lang_id := l\<rparr>
    else st\<lparr>fs_exp_n_audio_ctx := fp_audio_ctx params\<rparr>)"
  have s: "full_state_ok fe p s" using assms(2) p(3) by (simp add: s_def full_state_ok_def)
  have init: "prompt_init_of fe p l \<noteq> []" "length (prompt_init_of fe p l) \<le> 4" by (simp_all add: prompt_init_of_def Let_def)
  have "run_windows fe params seek_start seek_end st = main_loop fe p seek_start seek_end (prompt_init_of fe p l) [] seek_start s"
    using False assms(4) by (simp add: run_windows_def Let_def s_def l_def p_def)
  then show ?thesis using main_loop_total [OF p(1) s p(2) init, of seek_start seek_end "[]" seek_start] p(3) by auto
qed

lemma whisper_full_total:
  assumes "transcription_ok fe params" and "full_state_ok fe params st" and "wants_detection params \<longrightarrow> languages_in_vocab fe"
    and "samples = [] \<or> 201 \<le> length samples \<and> 1 \<le> fp_n_threads params"
  shows "\<exists>code st'. whisper_full_with_state fe params samples st = Some (code, st') \<and> code \<in> {0, - 3, - 4, - 5, - 6, - 7, - 8, - 9}
    \<and> full_state_ok fe params st'"
proof -
  define st1 where "st1 = st\<lparr>fs_log := (fs_log st)\<lparr>sl_results := []\<rparr>\<rparr>"
  have st1: "full_state_ok fe params st1" using assms(2) by (simp add: st1_def full_state_ok_def)
  obtain mel where mel: "(if samples \<noteq> [] then whisper_pcm_to_mel_with_state (fe_thread_order fe) (fe_filters fe) samples (fp_n_threads params) (fs_mel st1)
      else Some (0, fs_mel st1)) = Some (0, mel)"
    using pcm_to_mel_total [of samples "fp_n_threads params" "fe_thread_order fe" "fe_filters fe" "fs_mel st1"] assms(4) by (cases "samples = []") auto
  define st2 where "st2 = st1\<lparr>fs_mel := mel\<rparr>"
  have st2: "full_state_ok fe params st2" using st1 by (simp add: st2_def full_state_ok_def)
  obtain stop language st3 where detect: "detect_language fe params st2 = Some (stop, params\<lparr>fp_language := language\<rparr>, st3)" "full_state_ok fe params st3"
    "case stop of Some code \<Rightarrow> code \<in> {0, - 3} | None \<Rightarrow> language \<noteq> None"
    using detect_language_total [OF assms(1) st2 assms(3)] by blast
  define p where "p = params\<lparr>fp_language := language\<rparr>"
  define st4 where "st4 = (if fp_token_timestamps p then st3\<lparr>fs_log := (fs_log st3)\<lparr>sl_clock := \<lparr>tc_t_beg = 0, tc_t_last = 0, tc_tid_last = 0\<rparr>\<rparr>,
                              fs_energy := (if samples \<noteq> [] then get_signal_energy samples 32 else fs_energy st3)\<rparr> else st3)"
  define seek_start where "seek_start = tdiv (fp_offset_ms p) 10"
  define seek_end where "seek_end = (if fp_duration_ms p = 0 then ml_n_len_org (fs_mel st4) else seek_start + tdiv (fp_duration_ms p) 10)"
  have ok: "transcription_ok fe p" "full_state_ok fe p st4" "full_state_ok fe p s = full_state_ok fe params s" for s
    using assms(1) detect(2) by (simp_all add: p_def st4_def full_state_ok_def max_prompt_ctx_of_def)
  have zero: "\<not> (0 :: int) \<noteq> 0" by simp
  have unfold: "whisper_full_with_state fe params samples st =
      (case stop of Some code \<Rightarrow> Some (code, st3)
       | None \<Rightarrow> if seek_end < seek_start + 10 then Some (0, st4)
                 else if n_decoders_of p > WHISPER_MAX_DECODERS then Some (- 4, st4)
                 else run_windows fe p seek_start seek_end (prepare_transcription fe p st4))"
    unfolding whisper_full_with_state_def Let_def st1_def [symmetric] mel Option.bind.simps prod.case st2_def [symmetric] if_not_P [OF zero] detect(1)
      p_def [symmetric] st4_def [symmetric] seek_start_def [symmetric] seek_end_def [symmetric] ..
  show ?thesis
  proof (cases stop)
    case (Some code)
    then show ?thesis using unfold detect(2,3) by auto
  next
    case None
    then obtain lang where lang: "fp_language p = Some lang" using detect(3) by (auto simp: p_def)
    show ?thesis
    proof (cases "seek_end < seek_start + 10 \<or> n_decoders_of p > WHISPER_MAX_DECODERS")
      case True
      then show ?thesis using unfold None ok by auto
    next
      case False
      then have "n_decoders_of p \<le> 8" by (simp add: WHISPER_MAX_DECODERS_def)
      from run_windows_total [OF ok(1) prepare_transcription_ok [OF ok(1,2)] this lang, of seek_start seek_end] show ?thesis
        using unfold None False ok(3) by auto
    qed
  qed
qed


definition example_spelled_vocab :: whisper_vocab where
  "example_spelled_vocab = example_vocab\<lparr>vb_id_to_token := map (\<lambda>i. (i, ascii ''a'')) [0..112]\<rparr>"

definition example_full_env :: "(unit, unit) full_env" where
  "example_full_env = \<lparr>fe_env = example_env\<lparr>en_vocab := example_spelled_vocab\<rparr>, fe_n_text_layer = 4, fe_filters = \<lparr>fl_n_mel = 1, fl_n_fft = 201, fl_data = replicate 201 0\<rparr>,
     fe_thread_order = [0, 1, 2, 3], fe_encode = (\<lambda>_ s _ _ _. Some s), fe_encoder_begin = (\<lambda>_. True), fe_seed = (\<lambda>_. ()), fe_sort_langs = (\<lambda>ls. ls)\<rparr>"

definition example_full_state :: "(unit, unit) full_state" where
  "example_full_state = \<lparr>fs_decoding = example_decoding, fs_log = \<lparr>sl_results = [], sl_clock = \<lparr>tc_t_beg = 0, tc_t_last = 0, tc_tid_last = 0\<rparr>, sl_calls = []\<rparr>,
     fs_energy = [], fs_mel = \<lparr>ml_n_len = 0, ml_n_len_org = 0, ml_n_mel = 0, ml_data = []\<rparr>, fs_lang_id = 0, fs_exp_n_audio_ctx = 0, fs_past0 = [], fs_past1 = []\<rparr>"

lemma example_transcription_ok:
  "transcription_ok example_full_env example_params_full" "full_state_ok example_full_env example_params_full example_full_state"
  "wants_detection example_params_full \<longrightarrow> languages_in_vocab example_full_env"
proof -
  have "env_ok (fe_env example_full_env)"
    using example_env_ok(1)
    by (simp add: env_ok_def example_full_env_def example_env_def example_spelled_vocab_def vocab_ok_def example_vocab_def graph_rows_def)
  moreover have "vocab_spelled (en_vocab (fe_env example_full_env))"
    by (simp add: vocab_spelled_def example_full_env_def example_spelled_vocab_def example_vocab_def whisper_token_to_str_def
        map_of_map_restrict ascii_def)
  moreover have "temperatures_of example_params_full \<noteq> []"
    by (simp add: temperatures_of_def whisper_full_default_params_def temperatures_from.simps [of 0])
  ultimately show "transcription_ok example_full_env example_params_full"
    using example_env_ok(2) by (simp add: transcription_ok_def whisper_full_default_params_def)
  show "full_state_ok example_full_env example_params_full example_full_state"
    using example_env_ok(3,4) by (simp add: full_state_ok_def decoding_ok_def example_full_state_def whisper_full_default_params_def)
  show "wants_detection example_params_full \<longrightarrow> languages_in_vocab example_full_env"
    by (simp add: wants_detection_def whisper_full_default_params_def)
qed


end
