(* ===== verification/WhisperParallel.thy ===== *)
theory WhisperParallel
  imports Complex_Main Prelude VadTimeMap TokenTimes Segments DecodeLoop WhisperFull "HOL-Library.Monad_Syntax"
begin

text \<open>
  The entry points of Whisper/src/whisper.cpp that put the parts together: \<open>whisper_full\<close>, which drops the silence
  first, and \<open>whisper_full_parallel\<close>, which transcribes parts of a recording on states of their own and joins
  the segments. The workers only share what they do not change and are run in order; \<open>init\<close> is
  \<open>whisper_init_state\<close>. \<open>None\<close> is undefined behaviour (a signed overflow, a null state, samples that are not there)
  or an exception. Timings are not modelled. The theorem: the parts make up the recording and no segment is lost.
\<close>

record 'v vad_env =
  ve_load :: "whisper_vad_context_params \<Rightarrow> 'v whisper_vad_context option"
  ve_compute :: "'v \<Rightarrow> real list \<Rightarrow> ('v \<times> real) option"
  ve_alloc_ok :: bool
  ve_zero :: 'v
  ve_memory_ok :: "int \<Rightarrow> bool"
  ve_sort_table :: "vad_time_mapping list \<Rightarrow> vad_time_mapping list"

definition speech_input :: "'v vad_env \<Rightarrow> whisper_full_params \<Rightarrow> real list \<Rightarrow> 'v vad_state \<Rightarrow> ((int + real list) \<times> 'v vad_state) option" where
  "speech_input ve params samples vs =
     whisper_full_input (ve_load ve) (ve_compute ve) (ve_alloc_ok ve) (ve_zero ve) (ve_memory_ok ve) (ve_sort_table ve) vs
       (fp_vad params) (fp_vad_params params) samples"

definition whisper_full :: "('s, 'r) full_env \<Rightarrow> 'v vad_env \<Rightarrow> whisper_full_params \<Rightarrow> real list \<Rightarrow> ('s, 'r) full_state \<times> 'v vad_state
    \<Rightarrow> (int \<times> ('s, 'r) full_state \<times> 'v vad_state) option" where
  "whisper_full fe ve params samples = (\<lambda>(st, vs). do {
     (inp, vs) \<leftarrow> speech_input ve params samples vs;
     (case inp of
        Inl code \<Rightarrow> Some (code, if code = 0 then st\<lparr>fs_log := (fs_log st)\<lparr>sl_results := []\<rparr>\<rparr> else st, vs)
      | Inr samples \<Rightarrow> do {
          (code, st) \<leftarrow> whisper_full_with_state fe params samples st;
          Some (code, st, vs)
        })
   })"

definition fits_int :: "int \<Rightarrow> bool" where
  "fits_int x \<longleftrightarrow> - (2 ^ 31) \<le> x \<and> x < 2 ^ 31"

definition chunk_params :: "whisper_full_params \<Rightarrow> whisper_full_params" where
  "chunk_params params = params\<lparr>fp_offset_ms := 0, fp_print_progress := False, fp_print_realtime := False,
     fp_new_segment_callback := None, fp_progress_callback := None\<rparr>"

definition worker_chunk :: "int \<Rightarrow> int \<Rightarrow> int \<Rightarrow> real list \<Rightarrow> nat \<Rightarrow> real list" where
  "worker_chunk offset_samples n_samples_per_processor n_processors samples i =
     (let start_samples = offset_samples + (int i + 1) * n_samples_per_processor;
          n_samples_cur = (if int i = n_processors - 2 then int (length samples) - start_samples else n_samples_per_processor)
      in take (nat n_samples_cur) (drop (nat start_samples) samples))"

primrec run_workers :: "(nat \<Rightarrow> (int \<times> ('s, 'r) full_state) option) \<Rightarrow> nat \<Rightarrow> ('s, 'r) full_state list option" where
  "run_workers f 0 = Some []"
| "run_workers f (Suc n) = do {
     states \<leftarrow> run_workers f n;
     (code, st) \<leftarrow> f n;
     Some (states @ [st])
   }"

definition merge_segment :: "whisper_full_params \<Rightarrow> int \<Rightarrow> whisper_segment \<Rightarrow> segment_log \<Rightarrow> segment_log" where
  "merge_segment params shift result segs =
     (let result = result\<lparr>sg_t0 := sg_t0 result + shift, sg_t1 := sg_t1 result + shift\<rparr>;
          result = (if sl_results segs \<noteq> [] then result\<lparr>sg_t0 := max (sg_t0 result) (sg_t1 (last (sl_results segs)))\<rparr> else result)
      in segs\<lparr>sl_results := sl_results segs @ [result],
             sl_calls := (if fp_new_segment_callback params \<noteq> None then sl_calls segs @ [1] else sl_calls segs)\<rparr>)"

definition merge_worker :: "whisper_full_params \<Rightarrow> int \<Rightarrow> int \<Rightarrow> nat \<Rightarrow> ('s, 'r) full_state \<Rightarrow> ('s, 'r) full_state \<Rightarrow> ('s, 'r) full_state option" where
  "merge_worker params n_samples_per_processor offset_t i worker st =
     (let scaled = 100 * ((int i + 1) * n_samples_per_processor)
      in if \<not> fits_int scaled then None
         else Some (st\<lparr>fs_log := fold (merge_segment params (tdiv scaled WHISPER_SAMPLE_RATE + offset_t)) (sl_results (fs_log worker)) (fs_log st),
                       fs_decoding := (fs_decoding st)\<lparr>de_n_sample := de_n_sample (fs_decoding st) + de_n_sample (fs_decoding worker)\<rparr>\<rparr>))"

primrec merge_workers :: "whisper_full_params \<Rightarrow> int \<Rightarrow> int \<Rightarrow> nat \<Rightarrow> ('s, 'r) full_state list \<Rightarrow> ('s, 'r) full_state \<Rightarrow> ('s, 'r) full_state option" where
  "merge_workers params n_samples_per_processor offset_t i [] st = Some st"
| "merge_workers params n_samples_per_processor offset_t i (worker # workers) st = do {
     st \<leftarrow> merge_worker params n_samples_per_processor offset_t i worker st;
     merge_workers params n_samples_per_processor offset_t (i + 1) workers st
   }"

definition transcribe_parts :: "('s, 'r) full_env \<Rightarrow> (nat \<Rightarrow> ('s, 'r) full_state option) \<Rightarrow> whisper_full_params \<Rightarrow> real list \<Rightarrow> int
    \<Rightarrow> ('s, 'r) full_state \<Rightarrow> (int \<times> ('s, 'r) full_state) option" where
  "transcribe_parts fe init params samples n_processors st =
     (if n_processors < 1 \<or> \<not> fits_int (WHISPER_SAMPLE_RATE * fp_offset_ms params) then None
      else
        let n_samples = int (length samples);
            offset_samples = tdiv (WHISPER_SAMPLE_RATE * fp_offset_ms params) 1000;
            n_samples_per_processor = tdiv (n_samples - offset_samples) n_processors;
            first_count = offset_samples + n_samples_per_processor
        in if first_count > n_samples then None
           else do {
             workers \<leftarrow> run_workers (\<lambda>i. do {
                 worker \<leftarrow> init i;
                 whisper_full_with_state fe (chunk_params params) (worker_chunk offset_samples n_samples_per_processor n_processors samples i) worker
               }) (nat (n_processors - 1));
             (ret, st) \<leftarrow> whisper_full_with_state fe (params\<lparr>fp_print_realtime := False\<rparr>) (take (nat first_count) samples) st;
             st \<leftarrow> merge_workers params n_samples_per_processor (tdiv (fp_offset_ms params) 10) 0 workers st;
             Some (ret, st)
           })"

text \<open>Unlike \<open>whisper_full\<close> it keeps the old results when there is no speech.\<close>

definition whisper_full_parallel :: "('s, 'r) full_env \<Rightarrow> 'v vad_env \<Rightarrow> (nat \<Rightarrow> ('s, 'r) full_state option) \<Rightarrow> whisper_full_params \<Rightarrow> real list \<Rightarrow> int
    \<Rightarrow> ('s, 'r) full_state \<times> 'v vad_state \<Rightarrow> (int \<times> ('s, 'r) full_state \<times> 'v vad_state) option" where
  "whisper_full_parallel fe ve init params samples n_processors = (\<lambda>(st, vs).
     if n_processors = 1 then whisper_full fe ve params samples (st, vs)
     else do {
       (inp, vs) \<leftarrow> speech_input ve params samples vs;
       (case inp of
          Inl code \<Rightarrow> Some (code, st, vs)
        | Inr samples \<Rightarrow> do {
            (ret, st) \<leftarrow> transcribe_parts fe init params samples n_processors st;
            Some (ret, st, vs)
          })
     })"

section \<open>Splitting\<close>

lemma worker_chunks_cover:
  assumes "0 \<le> offset" and "0 \<le> per" and "2 \<le> n"
  shows "take (nat (offset + per)) samples @ concat (map (worker_chunk offset per n samples) [0..<nat (n - 1)]) = samples"
proof -
  have prefix: "take (nat (offset + per)) samples @ concat (map (worker_chunk offset per n samples) [0..<m]) = take (nat (offset + (int m + 1) * per)) samples"
    if "int m \<le> n - 2" for m
    using that
  proof (induction m)
    case (Suc m)
    let ?start = "nat (offset + (int m + 1) * per)"
    have "int m \<noteq> n - 2" using Suc.prems by simp
    then have "worker_chunk offset per n samples m = take (nat per) (drop ?start samples)" by (simp add: worker_chunk_def)
    moreover have "0 \<le> (int m + 1) * per" using assms(2) by simp
    then have "nat (offset + (int m + 1) * per + per) = ?start + nat per" using assms(1,2) by (intro nat_add_distrib) simp_all
    moreover have "offset + (int (Suc m) + 1) * per = offset + (int m + 1) * per + per" by (simp add: algebra_simps)
    ultimately have start: "nat (offset + (int (Suc m) + 1) * per) = ?start + nat per" and
      chunk: "worker_chunk offset per n samples m = take (nat per) (drop ?start samples)" by (simp_all only:)
    have "take (nat (offset + per)) samples @ concat (map (worker_chunk offset per n samples) [0..<Suc m])
        = (take (nat (offset + per)) samples @ concat (map (worker_chunk offset per n samples) [0..<m])) @ worker_chunk offset per n samples m" by simp
    also have "\<dots> = take ?start samples @ take (nat per) (drop ?start samples)" using Suc chunk by simp
    also have "\<dots> = take (?start + nat per) samples" by (simp add: take_add)
    finally show ?case unfolding start .
  qed simp
  define m where "m = nat (n - 2)"
  have m: "nat (n - 1) = Suc m" "int m = n - 2" using assms(3) by (simp_all add: m_def)
  let ?start = "nat (offset + (int m + 1) * per)"
  have "worker_chunk offset per n samples m = drop ?start samples" using m(2) by (simp add: worker_chunk_def)
  then have "take (nat (offset + per)) samples @ concat (map (worker_chunk offset per n samples) [0..<Suc m])
      = (take (nat (offset + per)) samples @ concat (map (worker_chunk offset per n samples) [0..<m])) @ drop ?start samples" by simp
  also have "\<dots> = samples" using prefix [of m] m(2) by simp
  finally show ?thesis unfolding m(1) .
qed

section \<open>Joining\<close>

text \<open>From index \<open>k\<close> on no segment starts before the end of the one before it.\<close>

definition no_overlap_from :: "nat \<Rightarrow> whisper_segment list \<Rightarrow> bool" where
  "no_overlap_from k segs \<longleftrightarrow> (\<forall>i. k \<le> i \<and> 0 < i \<and> i < length segs \<longrightarrow> sg_t1 (segs ! (i - 1)) \<le> sg_t0 (segs ! i))"

lemma no_overlap_snoc:
  assumes "no_overlap_from k segs" and "segs \<noteq> [] \<longrightarrow> sg_t1 (last segs) \<le> sg_t0 s"
  shows "no_overlap_from k (segs @ [s])"
  using assms by (auto simp: no_overlap_from_def nth_append last_conv_nth less_Suc_eq)

lemma no_overlap_single [simp]: "no_overlap_from k [s]"
  by (simp add: no_overlap_from_def)

lemma merge_segments:
  assumes "no_overlap_from k (sl_results segs)"
  shows "no_overlap_from k (sl_results (fold (merge_segment params shift) rs segs))
    \<and> map sg_text (sl_results (fold (merge_segment params shift) rs segs)) = map sg_text (sl_results segs) @ map sg_text rs
    \<and> map sg_t1 (sl_results (fold (merge_segment params shift) rs segs)) = map sg_t1 (sl_results segs) @ map (\<lambda>r. sg_t1 r + shift) rs"
  using assms
proof (induction rs arbitrary: segs)
  case (Cons r rs)
  have "no_overlap_from k (sl_results (merge_segment params shift r segs))"
    unfolding merge_segment_def Let_def using Cons.prems by (auto intro: no_overlap_snoc)
  from Cons.IH [OF this] show ?case by (auto simp: merge_segment_def Let_def)
qed simp

lemma merge_worker_total:
  assumes "fits_int (100 * ((int i + 1) * per))" and "no_overlap_from k (sl_results (fs_log st))"
  shows "\<exists>st'. merge_worker params per offset_t i worker st = Some st' \<and> no_overlap_from k (sl_results (fs_log st'))
    \<and> map sg_text (sl_results (fs_log st')) = map sg_text (sl_results (fs_log st)) @ map sg_text (sl_results (fs_log worker))
    \<and> (full_state_ok fe params' st \<longrightarrow> full_state_ok fe params' st')"
  using assms(1) merge_segments [OF assms(2)] by (auto simp: merge_worker_def Let_def full_state_ok_def decoding_ok_def)

lemma merge_workers_total:
  assumes "\<forall>j. i \<le> j \<and> j < i + length workers \<longrightarrow> fits_int (100 * ((int j + 1) * per))" and "no_overlap_from k (sl_results (fs_log st))"
    and "full_state_ok fe params' st"
  shows "\<exists>st'. merge_workers params per offset_t i workers st = Some st' \<and> no_overlap_from k (sl_results (fs_log st'))
    \<and> map sg_text (sl_results (fs_log st')) = map sg_text (sl_results (fs_log st)) @ concat (map (\<lambda>w. map sg_text (sl_results (fs_log w))) workers)
    \<and> full_state_ok fe params' st'"
  using assms
proof (induction workers arbitrary: i st)
  case (Cons w workers)
  have "fits_int (100 * ((int i + 1) * per))" using Cons.prems(1) by simp
  from merge_worker_total [OF this Cons.prems(2)] obtain st1 where st1: "merge_worker params per offset_t i w st = Some st1"
    "no_overlap_from k (sl_results (fs_log st1))" "full_state_ok fe params' st1"
    "map sg_text (sl_results (fs_log st1)) = map sg_text (sl_results (fs_log st)) @ map sg_text (sl_results (fs_log w))"
    using Cons.prems(3) by blast
  have "\<forall>j. i + 1 \<le> j \<and> j < i + 1 + length workers \<longrightarrow> fits_int (100 * ((int j + 1) * per))" using Cons.prems(1) by simp
  from Cons.IH [OF this st1(2,3)] show ?case using st1(1,4) by auto
qed simp

lemma run_workers_total:
  assumes "\<forall>i<n. \<exists>code st. f i = Some (code, st)"
  shows "\<exists>states. run_workers f n = Some states \<and> length states = n \<and> (\<forall>i<n. \<exists>code. f i = Some (code, states ! i))"
  using assms
proof (induction n)
  case (Suc n)
  then obtain states where states: "run_workers f n = Some states" "length states = n" "\<forall>i<n. \<exists>code. f i = Some (code, states ! i)"
    by auto
  obtain code st where "f n = Some (code, st)" using Suc.prems by auto
  then show ?case using states by (intro exI [of _ "states @ [st]"]) (auto simp: nth_append less_Suc_eq)
qed simp

section \<open>All together\<close>

lemma chunk_params_ok [simp]:
  "transcription_ok fe (chunk_params params) = transcription_ok fe params" "full_state_ok fe (chunk_params params) st = full_state_ok fe params st"
  "wants_detection (chunk_params params) = wants_detection params" "fp_n_threads (chunk_params params) = fp_n_threads params"
  "transcription_ok fe (params\<lparr>fp_print_realtime := b\<rparr>) = transcription_ok fe params"
  "full_state_ok fe (params\<lparr>fp_print_realtime := b\<rparr>) st = full_state_ok fe params st"
  "wants_detection (params\<lparr>fp_print_realtime := b\<rparr>) = wants_detection params"
  by (simp_all add: chunk_params_def transcription_ok_def full_state_ok_def params_ok_def temperatures_of_def max_prompt_ctx_of_def wants_detection_def)

lemma length_worker_chunk:
  assumes "0 \<le> offset" and "0 \<le> per" and "offset + n * per \<le> int (length samples)" and "int i \<le> n - 2"
  shows "per \<le> int (length (worker_chunk offset per n samples i))"
proof -
  let ?start = "offset + (int i + 1) * per"
  have start: "0 \<le> ?start" using assms(1,2) by simp
  have "(int i + 2) * per \<le> n * per" using assms(2,4) by (intro mult_right_mono) simp_all
  then have fits: "?start + per \<le> int (length samples)" using assms(3) by (simp add: algebra_simps)
  have "int (length (drop (nat ?start) samples)) = int (length samples) - ?start" using fits start assms(2) by simp
  then show ?thesis using fits start assms(2) by (auto simp: worker_chunk_def Let_def)
qed

definition part_count :: "whisper_full_params \<Rightarrow> real list \<Rightarrow> int \<Rightarrow> int" where
  "part_count params samples n_processors = (int (length samples) - 16 * fp_offset_ms params) div n_processors"

lemma transcribe_parts_total:
  assumes "transcription_ok fe params" and "full_state_ok fe params st" and "wants_detection params \<longrightarrow> languages_in_vocab fe"
    and "\<forall>i. \<exists>s. init i = Some s \<and> full_state_ok fe params s" and "1 \<le> fp_n_threads params" and "2 \<le> n_processors"
    and "0 \<le> fp_offset_ms params" and "fits_int (16000 * fp_offset_ms params)" and "100 * int (length samples) < 2 ^ 31"
    and "201 \<le> part_count params samples n_processors"
  defines "per \<equiv> part_count params samples n_processors"
    and "chunk \<equiv> worker_chunk (16 * fp_offset_ms params) (part_count params samples n_processors) n_processors samples"
  shows "\<exists>code st' first workers. transcribe_parts fe init params samples n_processors st = Some (code, st') \<and> full_state_ok fe params st'
    \<and> whisper_full_with_state fe (params\<lparr>fp_print_realtime := False\<rparr>) (take (nat (16 * fp_offset_ms params + per)) samples) st = Some (code, first)
    \<and> length workers = nat (n_processors - 1)
    \<and> (\<forall>i < nat (n_processors - 1). \<exists>s code. init i = Some s \<and> whisper_full_with_state fe (chunk_params params) (chunk i) s = Some (code, workers ! i))
    \<and> take (nat (16 * fp_offset_ms params + per)) samples @ concat (map chunk [0..<nat (n_processors - 1)]) = samples
    \<and> map sg_text (sl_results (fs_log st')) = map sg_text (sl_results (fs_log first)) @ concat (map (\<lambda>w. map sg_text (sl_results (fs_log w))) workers)
    \<and> no_overlap_from (length (sl_results (fs_log first))) (sl_results (fs_log st'))"
proof -
  let ?off = "16 * fp_offset_ms params" and ?n = "nat (n_processors - 1)"
  have per: "201 \<le> per" using assms(10) by (simp add: per_def)
  have off: "0 \<le> ?off" "tdiv (16000 * fp_offset_ms params) 1000 = ?off" using assms(7) by (simp_all add: tdiv_def)
  have "per * n_processors = int (length samples) - ?off - (int (length samples) - ?off) mod n_processors"
    by (simp only: per_def part_count_def minus_mod_eq_div_mult)
  moreover have "0 \<le> (int (length samples) - ?off) mod n_processors" using assms(6) by simp
  ultimately have "per * n_processors \<le> int (length samples) - ?off" by simp
  then have fit: "?off + n_processors * per \<le> int (length samples)" by (simp add: mult.commute)
  have "2 * per \<le> n_processors * per" using assms(6) per by (intro mult_right_mono) simp_all
  then have room: "?off + per \<le> int (length samples)" "?off \<le> int (length samples)" using fit per by linarith+
  have tper: "tdiv (int (length samples) - ?off) n_processors = per" using room(2) assms(6) by (simp add: tdiv_def per_def part_count_def)
  have whole: "take (nat (?off + per)) samples @ concat (map chunk [0..<?n]) = samples"
    unfolding chunk_def per_def [symmetric] using worker_chunks_cover [OF off(1) _ assms(6)] per by simp
  have "\<exists>code s'. (do { worker \<leftarrow> init i; whisper_full_with_state fe (chunk_params params) (chunk i) worker }) = Some (code, s')" if "i < ?n" for i
  proof -
    obtain s where s: "init i = Some s" "full_state_ok fe params s" using assms(4) by blast
    have "int i \<le> n_processors - 2" using that by linarith
    then have "201 \<le> int (length (chunk i))" using length_worker_chunk [OF off(1) _ fit] per unfolding chunk_def per_def [symmetric] by fastforce
    then have "chunk i = [] \<or> 201 \<le> length (chunk i) \<and> 1 \<le> fp_n_threads (chunk_params params)" using assms(5) by simp
    with whisper_full_total [of fe "chunk_params params" s "chunk i"] show ?thesis using s assms(1,3) by auto
  qed
  then obtain workers where workers: "run_workers (\<lambda>i. do { worker \<leftarrow> init i; whisper_full_with_state fe (chunk_params params) (chunk i) worker }) ?n = Some workers"
    "length workers = ?n" "\<forall>i<?n. \<exists>code. (do { worker \<leftarrow> init i; whisper_full_with_state fe (chunk_params params) (chunk i) worker }) = Some (code, workers ! i)"
    using run_workers_total [of ?n "\<lambda>i. do { worker \<leftarrow> init i; whisper_full_with_state fe (chunk_params params) (chunk i) worker }"] by blast
  have "length (take (nat (?off + per)) samples) = nat (?off + per)" using room(1) off(1) per by simp
  then have "201 \<le> length (take (nat (?off + per)) samples)" using off(1) per by linarith
  then obtain code first where first: "whisper_full_with_state fe (params\<lparr>fp_print_realtime := False\<rparr>) (take (nat (?off + per)) samples) st = Some (code, first)"
    "full_state_ok fe params first"
    using whisper_full_total [of fe "params\<lparr>fp_print_realtime := False\<rparr>" st "take (nat (?off + per)) samples"] assms(1-3,5) by auto
  have "fits_int (100 * ((int j + 1) * per))" if "j < ?n" for j
  proof -
    have "(int j + 1) * per \<le> n_processors * per" using that per by (intro mult_right_mono) linarith+
    then have "(int j + 1) * per \<le> int (length samples)" using fit off(1) by simp
    moreover have "0 \<le> (int j + 1) * per" using per by simp
    moreover have "fits_int (100 * x)" if "x \<le> int (length samples)" "0 \<le> x" for x using assms(9) that by (simp add: fits_int_def)
    ultimately show ?thesis by blast
  qed
  then have fits: "\<forall>j. 0 \<le> j \<and> j < 0 + length workers \<longrightarrow> fits_int (100 * ((int j + 1) * per))" using workers(2) by simp
  have "no_overlap_from (length (sl_results (fs_log first))) (sl_results (fs_log first))" by (simp add: no_overlap_from_def)
  from merge_workers_total [OF fits this first(2), of params "tdiv (fp_offset_ms params) 10"] obtain st' where merged:
    "merge_workers params per (tdiv (fp_offset_ms params) 10) 0 workers first = Some st'" "no_overlap_from (length (sl_results (fs_log first))) (sl_results (fs_log st'))"
    "map sg_text (sl_results (fs_log st')) = map sg_text (sl_results (fs_log first)) @ concat (map (\<lambda>w. map sg_text (sl_results (fs_log w))) workers)"
    "full_state_ok fe params st'" by blast
  have guard: "\<not> (n_processors < 1 \<or> \<not> fits_int (16000 * fp_offset_ms params))" "\<not> ?off + per > int (length samples)" using assms(6,8) room(1) by auto
  have "transcribe_parts fe init params samples n_processors st = Some (code, st')"
    unfolding transcribe_parts_def WHISPER_SAMPLE_RATE_def if_not_P [OF guard(1)] Let_def off(2) tper if_not_P [OF guard(2)]
      chunk_def [folded per_def, symmetric] workers(1) Option.bind.simps first(1) prod.case merged(1) ..
  moreover have "\<exists>s code. init i = Some s \<and> whisper_full_with_state fe (chunk_params params) (chunk i) s = Some (code, workers ! i)" if "i < ?n" for i
    using workers(3) that by (auto simp: bind_eq_Some_conv)
  ultimately show ?thesis using first(1) workers(2) whole merged by blast
qed


definition example_vad_env :: "unit vad_env" where
  "example_vad_env = \<lparr>ve_load = (\<lambda>_. None), ve_compute = (\<lambda>_ _. None), ve_alloc_ok = True, ve_zero = (), ve_memory_ok = (\<lambda>_. True), ve_sort_table = (\<lambda>ms. ms)\<rparr>"


end
