(* ===== verification/Spec2Isabelle.thy ===== *)
theory Spec2Isabelle
  imports Pcm16Converter PromptTokenizer FeatureSchedule CTranslate2Jni KvCache GrammarTokens VadTimeMap TokenChoice SequenceScore TokenTimes Segments DecodeLoop Languages WhisperMel WhisperFull WhisperParallel
begin

text \<open>
  A model of the native layer of the LocalWhisper Android application: everything between the Java entry points
  and the numerical kernels. Paths below are relative to src/app/src/main/.

  \<^bold>\<open>The program.\<close> The application transcribes a recording of 16-bit PCM samples on the device, in one of two ways.

  \<^item> The CTranslate2 path. CTranslate2/ctranslate2-jni.cpp keeps a handle with a model and its work areas. One call
    converts the PCM (NativeAudio/pcm16-float-converter.cpp), drops the silence (CTranslate2/whisper-vad-filter.cpp,
    which calls the voice activity detection of Whisper/src/whisper.cpp), computes log-Mel features window by window
    (CTranslate2/whisper-feature-extractor.cpp, in parallel blocks of upstream/src/cpu/parallel.h), encodes the
    user's prompt (CTranslate2/whisper-prompt-tokenizer.cpp), calls the model, decodes its tokens
    (CTranslate2/whisper-token-decoder.cpp) and hands the text to Java (NativeText/utf-converter.cpp).
  \<^item> The GGML path. Whisper/native-lib.cpp copies the parameters from Java objects (java/Whisper/WhisperBridge.java)
    and calls Whisper/src/whisper.cpp. There \<open>whisper_full\<close> optionally keeps only the speech, and
    \<open>whisper_full_with_state\<close> computes the log-Mel spectrogram, detects the language, and window by window runs the
    encoder, starts decoders, feeds their tokens through the decoder graph and its key-value cache, filters the logits (time stamps, suppressed tokens,
    grammar), samples, ranks the sequences, falls back to a higher temperature if none is good, and cuts the
    best sequence into segments with times.

  \<^bold>\<open>Theories and code.\<close>

  \<^item> \<open>Prelude\<close>: types and lemmas shared by all; \<open>for_range\<close> is the counting \<open>for\<close> loop, \<open>wordsimps\<close> computes with words;
    the locale \<open>progress_loop\<close> (a loop whose steps make progress returns) has the main loop of \<open>WhisperFull\<close> as its instance.
    \<open>Codec\<close>: the locale \<open>codec\<close> of encoders that write symbol by symbol and their decoders; UTF-8 to UTF-16, UTF-16 to
    UTF-8, the byte alphabet and the piecewise UTF-8 decoder of the grammar are interpretations of it.
  \<^item> \<open>UtfConverter\<close>, \<open>Pcm16Converter\<close>, \<open>TokenDecoder\<close>, \<open>PromptTokenizer\<close>: the files of these names. Bytes, UTF-16 units
    and samples are words of their width; hash maps are partial maps; an \<open>unordered_map\<close> is only looked up, so its
    order does not matter.
  \<^item> \<open>Fft\<close>, \<open>FeatureExtractor\<close>, \<open>FeatureSchedule\<close>, \<open>ParallelFor\<close>: the feature extractor. The first has the FFT with its
    two work areas, the second the frames and the tasks that share the output, the third the invariant that ties
    the state of interleaved tasks to the frames done, the last the blocks.
  \<^item> \<open>VadSegments\<close>: probabilities of the Silero network to speech segments. \<open>VadFilter\<close>: the samples of the speech.
    \<open>CTranslate2Jni\<close>: the handle and the entry points; its state is a record of the handle, an operation returns the
    pending Java exception or the result together with the new handle.
  \<^item> \<open>WhisperParams\<close>, \<open>WhisperBridge\<close>: the parameter structs with their defaults, and the JNI bridge, in which a Java
    object is a map of typed fields.
  \<^item> \<open>VadTimeMap\<close>: \<open>whisper_vad\<close>, the samples without silence and the table that maps times back.
  \<^item> \<open>KvCache\<close>: cells, slots, sequence operations, the attention mask and the exchange of sequences in beam search.
  \<^item> \<open>Grammar\<close> (definitions), \<open>GrammarCorrect\<close>, \<open>GrammarTokens\<close> (theorems): the pushdown stacks, acceptance and rejection.
  \<^item> \<open>TokenChoice\<close>: \<open>whisper_process_logits\<close> and sampling. \<open>SequenceScore\<close>: the score and the ranking of decoders.
    \<open>TokenTimes\<close>: the times of tokens. \<open>Segments\<close>: the segments of a window and their wrapping.
  \<^item> \<open>DecodeLoop\<close>: one attempt to decode a window: prompt, sampling, beam search, update of the decoders, batches. The
    record \<open>decoding\<close> is the part of \<open>whisper_state\<close> this changes; \<open>whisper_env\<close> collects what is fixed or a parameter.
  \<^item> \<open>Languages\<close>: the table \<open>g_lang\<close> and the tokenizer of the initial prompt.
  \<^item> \<open>WhisperMel\<close>: the log-Mel spectrogram of the GGML path, with its own FFT over two flat buffers and its worker threads.
  \<^item> \<open>WhisperFull\<close>: \<open>whisper_full_with_state\<close> with \<open>full_state\<close>, the rest of \<open>whisper_state\<close>.
  \<^item> \<open>WhisperParallel\<close>: \<open>whisper_full\<close>, which puts the speech filter before it, and \<open>whisper_full_parallel\<close>.

  \<^bold>\<open>What is shown.\<close> Text and numbers: conversions are inverse to each other up to replacement characters, never write
  beyond their bounds, and a prompt survives encoding and decoding. Features: both FFTs are the
  discrete Fourier transform, and every schedule of the threads gives the sequential result. Handles: every call keeps the invariant,
  whatever its arguments, and is the sequential specification or the exception that names the bad argument.
  Parameters survive the way to Java and back. Speech: segments are ordered and hold all windows of speech;
  the filtered samples never leave their buffer and times map back monotonically. Decoding: the slot search is
  complete, the cache invariant is kept, each token attends to its own sequence only, the grammar accepts its
  language over any cut into tokens, forbidden tokens are never sampled, the decoders stay well-typed, and
  the transcription always ends. Output: token times are computed for every signal, the segments hold the
  text of the sequence, and parallel transcription loses no sample and no segment.

  \<^bold>\<open>Conventions.\<close> Floats and doubles are reals; a logit of \<open>-INFINITY\<close> is \<open>None\<close>; so rounding, \<open>NaN\<close> and overflow to
  infinity are not modelled (where a conversion is exact, as for PCM samples, nothing is lost). C integers are words
  where they wrap in practice and \<open>int\<close> where a theorem or the sizes bound them; division truncates (\<open>tdiv\<close>).
  Exceptions and undefined behaviour are values of an error type or \<open>None\<close>. Callbacks, random draws, \<open>std::sort\<close> on
  equal keys and the networks are parameters; what the code relies on is a named hypothesis (\<open>env_ok\<close>,
  \<open>languages_in_vocab\<close>, \<open>callback_masks\<close>), and each theorem with hypotheses has a witness that satisfies them.

  \<^bold>\<open>Loops and fuel.\<close> Counting loops are \<open>for_range\<close>, other loops recursions with a measure. Only two need more. The
  recursion of \<open>whisper_grammar_advance_stack\<close> has fuel, because it does not end for left-recursive grammars; for
  grammars without left recursion \<open>eventually_is\<close> says that all large fuels give the same result. The main loop of
  \<open>whisper_full_with_state\<close> is a partial function, which \<open>WhisperFull\<close> shows to be total under the contracts: every
  window advances by at least two frames, since a decoder's shift is at least 2 and a window is only begun with
  more than 10 frames left. The fallback loop over temperatures ends over the reals; with floats an increment
  below the resolution of the temperature would not change it.

  \<^bold>\<open>Not modelled.\<close> In whisper.cpp: the loading of models and the construction of the computation graphs
  (parameters \<open>fe_encode\<close>, \<open>en_graph\<close> and the network of the voice detector: tensor programs and file input), the DTW
  time stamps (experimental, from attention tensors, off by default), the benchmarks, timing, logging and printing. In native-lib.cpp: entry points that only pass their
  arguments on. Vendored code: ggml, CTranslate2 but for its parallel loop, nlohmann::json (its accessors are modelled by
  their documentation), ruy, cpu_features. The Core ML and OpenVINO encoders are for other platforms. The Java user
  interface is not native code.
\<close>

end
